(* ===== verification/Prelude.thy ===== *)
theory Prelude
  imports Main "HOL-Library.Word"
begin

text \<open>
  Vocabulary shared by the component theories: the machine types the engine uses, the
  wrap-around arithmetic of \<open>std::size_t\<close>, copies into arrays (\<open>memcpy\<close>), and the
  circular windows over a fixed array that \<open>io_ring_buffer\<close>, \<open>overwritable_cache\<close> and
  \<open>spsc_queue\<close> all keep.  The collection \<open>ring_simps\<close> holds the window equations, the
  collection \<open>sz_simps\<close> the arithmetic ones.
\<close>

unbundle bit_operations_syntax

named_theorems sz_simps "arithmetic of machine sizes"
named_theorems ring_simps "equations for circular windows"

section \<open>Machine types\<close>

type_synonym byte = "8 word"
type_synonym u16 = "16 word"
type_synonym u64 = "64 word"

text \<open>
  \<open>std::size_t\<close> is 64 bits wide on the Linux targets of the engine.  Sizes that a
  container bounds are modelled as \<open>nat\<close>; where a value comes from outside (torrent
  files, piece indices) the wrap-around is written with these operations.
\<close>

definition sz_modulus :: nat where
  "sz_modulus = 2 ^ 64"

definition sz_add :: "nat \<Rightarrow> nat \<Rightarrow> nat" where
  "sz_add a b = (a + b) mod sz_modulus"

definition sz_mul :: "nat \<Rightarrow> nat \<Rightarrow> nat" where
  "sz_mul a b = (a * b) mod sz_modulus"

definition sz_sub :: "nat \<Rightarrow> nat \<Rightarrow> nat" where
  "sz_sub a b = (a + (sz_modulus - b mod sz_modulus)) mod sz_modulus"

text \<open>Conversion of a signed 64-bit integer to \<open>std::size_t\<close>.\<close>

definition sz_of_int :: "int \<Rightarrow> nat" where
  "sz_of_int i = nat (i mod 2 ^ 64)"

lemma sz_modulus_pos [simp]: "0 < sz_modulus"
  by (simp add: sz_modulus_def)

lemma sz_add_id [sz_simps]: "a + b < sz_modulus \<Longrightarrow> sz_add a b = a + b"
  by (simp add: sz_add_def)

lemma sz_mul_id [sz_simps]: "a * b < sz_modulus \<Longrightarrow> sz_mul a b = a * b"
  by (simp add: sz_mul_def)

lemma sz_sub_id [sz_simps]:
  assumes "b \<le> a" and "a < sz_modulus"
  shows "sz_sub a b = a - b"
proof -
  have "b mod sz_modulus = b" and eq: "a + (sz_modulus - b) = (a - b) + sz_modulus"
    using assms by simp_all
  then show ?thesis
    using assms by (simp only: sz_sub_def eq mod_add_self2) simp
qed

lemma sz_of_int_id [sz_simps]: "0 \<le> i \<Longrightarrow> i < 2 ^ 64 \<Longrightarrow> sz_of_int i = nat i"
  by (simp add: sz_of_int_def)

section \<open>Faults\<close>

text \<open>
  What a C++ expression of the engine does instead of returning: it throws one of the
  exceptions the code names or the library raises, or it runs into undefined behaviour
  (the kind is recorded), a hardware trap or a failed assertion.  The last two are not faults
  of the program: the script of answers that stands for the operating system has ended, or an
  answer breaks the documented contract of its call.
\<close>

datatype fault =
    Bad_variant_access
  | Torrent_File_Not_Found
  | Invalid_Torrent_File
  | Runtime_error string
  | Peer_Manager_SYS_Error int
  | Deref_end_iterator
  | Out_of_bounds_access
  | Division_by_zero
  | Assertion_failed
  | Signed_overflow
  | Bad_optional_access
  | Kernel_silent
  | Kernel_violation
  | Dangling_reference
  | Fuel_exhausted

text \<open>Sequencing: the first fault ends the evaluation.\<close>

fun bind_fault :: "fault + 'a \<Rightarrow> ('a \<Rightarrow> fault + 'b) \<Rightarrow> fault + 'b" where
  "bind_fault (Inl f) k = Inl f"
| "bind_fault (Inr x) k = k x"

lemma bind_fault_cong [fundef_cong]:
  "m = m' \<Longrightarrow> (\<And>x. m' = Inr x \<Longrightarrow> k x = k' x) \<Longrightarrow> bind_fault m k = bind_fault m' k'"
  by (cases m') auto

lemma bind_fault_assoc: "bind_fault (bind_fault m k) l = bind_fault m (\<lambda>x. bind_fault (k x) l)"
  by (cases m) auto

lemma bind_fault_Inr: "bind_fault m k = Inr y \<longleftrightarrow> (\<exists>x. m = Inr x \<and> k x = Inr y)"
  by (cases m) auto

lemma bind_faultE: "bind_fault m k = Inr y \<Longrightarrow> (\<And>x. m = Inr x \<Longrightarrow> k x = Inr y \<Longrightarrow> P) \<Longrightarrow> P"
  by (cases m) auto

text \<open>
  The contract of a computation with faults: it ends well in \<open>Q\<close>, unless the operating system
  gave no answer or a wrong one.
\<close>

definition environment_fault :: "fault \<Rightarrow> bool" where
  "environment_fault f \<longleftrightarrow> f = Kernel_silent \<or> f = Kernel_violation"

definition guarantees :: "fault + 'a \<Rightarrow> ('a \<Rightarrow> bool) \<Rightarrow> bool" where
  "guarantees m Q \<longleftrightarrow> (case m of Inl f \<Rightarrow> environment_fault f | Inr x \<Rightarrow> Q x)"

lemma guarantees_simps [simp]:
  "guarantees (Inr x) Q \<longleftrightarrow> Q x" "guarantees (Inl f) Q \<longleftrightarrow> environment_fault f"
  "environment_fault Kernel_silent" "environment_fault Kernel_violation"
  "\<not> environment_fault Assertion_failed"
  by (simp_all add: guarantees_def environment_fault_def)

lemma guarantees_bind:
  "guarantees m (\<lambda>x. guarantees (k x) Q) \<Longrightarrow> guarantees (bind_fault m k) Q"
  by (cases m) auto

lemma guarantees_mono: "guarantees m P \<Longrightarrow> (\<And>x. P x \<Longrightarrow> Q x) \<Longrightarrow> guarantees m Q"
  by (cases m) auto

lemma guarantees_then:
  "guarantees m P \<Longrightarrow> (\<And>x. P x \<Longrightarrow> guarantees (k x) Q) \<Longrightarrow> guarantees (bind_fault m k) Q"
  by (cases m) auto

lemma guarantees_Inr: "guarantees m Q \<Longrightarrow> m = Inr x \<Longrightarrow> Q x"
  by simp

section \<open>Tables by key\<close>

text \<open>A map that finds each of the items of a set under its own key, and nothing else.\<close>

definition indexes :: "('i \<Rightarrow> 'k) \<Rightarrow> 'i set \<Rightarrow> ('k \<rightharpoonup> 'i) \<Rightarrow> bool" where
  "indexes key S m \<longleftrightarrow> (\<forall>k i. m k = Some i \<longleftrightarrow> i \<in> S \<and> key i = k)"

lemma indexes_cong: "(\<And>i. i \<in> S \<Longrightarrow> key' i = key i) \<Longrightarrow> indexes key' S m = indexes key S m"
  unfolding indexes_def by (simp cong: conj_cong)

lemma indexes_find: "indexes key S m \<Longrightarrow> i \<in> S \<Longrightarrow> m (key i) = Some i"
  by (simp add: indexes_def)

lemma indexes_missing: "indexes key S m \<Longrightarrow> m k = None \<longleftrightarrow> (\<forall>i\<in>S. key i \<noteq> k)"
  unfolding indexes_def by (metis not_None_eq)

lemma indexes_insert:
  assumes "indexes key S m" and "m (key' i) = None" and "\<And>j. j \<in> S \<Longrightarrow> key' j = key j"
  shows "indexes key' (insert i S) (m(key' i \<mapsto> i))"
proof -
  have "indexes key' S m" using assms(1,3) indexes_cong [of S key' key] by blast
  then have m: "m k = Some j \<longleftrightarrow> j \<in> S \<and> key' j = k" for k j by (simp add: indexes_def)
  have "key' j \<noteq> key' i" if "j \<in> S" for j using m [of "key' i" j] assms(2) that by auto
  then show ?thesis using m by (auto simp: indexes_def)
qed

lemma indexes_remove:
  assumes "indexes key S m" and "i \<in> S" and "\<And>j. j \<in> S \<Longrightarrow> j \<noteq> i \<Longrightarrow> key' j = key j"
  shows "indexes key' (S - {i}) (m(key i := None))"
proof -
  have m: "m k = Some j \<longleftrightarrow> j \<in> S \<and> key j = k" for k j using assms(1) by (simp add: indexes_def)
  have "key j \<noteq> key i" if "j \<in> S" "j \<noteq> i" for j using m [of "key i" j] m [of "key i" i] assms(2) that by auto
  then have "indexes key (S - {i}) (m(key i := None))" using m by (auto simp: indexes_def)
  then show ?thesis using indexes_cong [of "S - {i}" key' key] assms(3) by blast
qed

section \<open>Slices and copies\<close>

definition subspan :: "nat \<Rightarrow> nat \<Rightarrow> 'a list \<Rightarrow> 'a list" where
  "subspan start n xs = take n (drop start xs)"

lemma length_subspan [simp]: "start + n \<le> length xs \<Longrightarrow> length (subspan start n xs) = n"
  by (simp add: subspan_def)

lemma subspan_append_mid: "length a = start \<Longrightarrow> length b = n \<Longrightarrow> subspan start n (a @ b @ c) = b"
  by (simp add: subspan_def)

text \<open>\<open>memcpy(&xs[i], ys, |ys|)\<close>, inside the bounds of \<open>xs\<close>.\<close>

definition write_at :: "nat \<Rightarrow> 'a list \<Rightarrow> 'a list \<Rightarrow> 'a list" where
  "write_at i ys xs = take i xs @ ys @ drop (i + length ys) xs"

lemma length_write_at [simp]: "i + length ys \<le> length xs \<Longrightarrow> length (write_at i ys xs) = length xs"
  by (simp add: write_at_def)

lemma write_at_Nil [simp]: "write_at i [] xs = xs"
  by (simp add: write_at_def)

lemma write_at_Cons:
  assumes "i < length xs"
  shows "write_at i (y # ys) xs = write_at (Suc i) ys (xs[i := y])"
  using assms by (simp add: write_at_def take_Suc_conv_app_nth take_update_cancel drop_update_cancel)

section \<open>Circular windows\<close>

definition ring_slice :: "'a list \<Rightarrow> nat \<Rightarrow> nat \<Rightarrow> 'a list" where
  "ring_slice buf s n = map (\<lambda>i. buf ! ((s + i) mod length buf)) [0..<n]"

fun ring_store :: "'a list \<Rightarrow> nat \<Rightarrow> 'a list \<Rightarrow> 'a list" where
  "ring_store buf s [] = buf"
| "ring_store buf s (y # ys) = ring_store (buf[s mod length buf := y]) (Suc s) ys"

lemma length_ring_slice [simp]: "length (ring_slice buf s n) = n"
  by (simp add: ring_slice_def)

lemma nth_ring_slice: "i < n \<Longrightarrow> ring_slice buf s n ! i = buf ! ((s + i) mod length buf)"
  by (simp add: ring_slice_def)

lemma ring_slice_0 [simp]: "ring_slice buf s 0 = []"
  by (simp add: ring_slice_def)

lemma ring_slice_Suc:
  "ring_slice buf s (Suc n) = ring_slice buf s n @ [buf ! ((s + n) mod length buf)]"
  by (simp add: ring_slice_def)

lemma ring_slice_Cons:
  "ring_slice buf s (Suc n) = buf ! (s mod length buf) # ring_slice buf (Suc s) n"
  by (rule nth_equalityI) (auto simp: nth_ring_slice nth_Cons split: nat.split)

lemma ring_slice_mod [ring_simps]: "ring_slice buf (s mod length buf) n = ring_slice buf s n"
  by (simp add: ring_slice_def mod_add_left_eq)

lemma ring_slice_add_length [ring_simps]: "ring_slice buf (s + length buf) n = ring_slice buf s n"
  by (metis mod_add_self2 ring_slice_mod)

lemma ring_slice_drop:
  "m \<le> n \<Longrightarrow> ring_slice buf (s + m) (n - m) = drop m (ring_slice buf s n)"
  by (rule nth_equalityI) (auto simp: nth_ring_slice add.assoc)

lemma ring_slice_take: "m \<le> n \<Longrightarrow> ring_slice buf s m = take m (ring_slice buf s n)"
  by (rule nth_equalityI) (auto simp: nth_ring_slice)

lemma ring_slice_butlast: "ring_slice buf s n = butlast (ring_slice buf s (Suc n))"
  by (simp add: ring_slice_Suc)

lemma ring_index_inj_le:
  assumes eq: "(s + i) mod N = (s + j) mod N" and "i \<le> j" and "j < (N :: nat)"
  shows "i = j"
proof -
  have "N dvd (s + j) - (s + i)"
    using mod_eq_dvd_iff_nat [of "s + i" "s + j" N] eq \<open>i \<le> j\<close> by simp
  then have "N dvd j - i" by simp
  moreover have "j - i < N" using \<open>j < N\<close> by simp
  ultimately have "j - i = 0" using nat_dvd_not_less [of "j - i" N] by blast
  with \<open>i \<le> j\<close> show ?thesis by simp
qed

lemma ring_index_inj:
  assumes "(s + i) mod N = (s + j) mod N" and "i < N" and "j < (N :: nat)"
  shows "i = j"
proof (cases "i \<le> j")
  case True
  with assms show ?thesis by (intro ring_index_inj_le [of s i N j]) simp_all
next
  case False
  with assms show ?thesis using ring_index_inj_le [of s j N i] by simp
qed

lemma ring_slice_update_outside [ring_simps]:
  assumes "n \<le> m" and "m < length buf"
  shows "ring_slice (buf[(s + m) mod length buf := x]) s n = ring_slice buf s n"
proof (rule nth_equalityI)
  fix i assume "i < length (ring_slice (buf[(s + m) mod length buf := x]) s n)"
  then have "i < n" by simp
  then have "(s + m) mod length buf \<noteq> (s + i) mod length buf"
    using ring_index_inj [of s m "length buf" i] assms by auto
  with \<open>i < n\<close> show "ring_slice (buf[(s + m) mod length buf := x]) s n ! i = ring_slice buf s n ! i"
    by (simp add: nth_ring_slice)
qed simp

lemma ring_slice_push [ring_simps]:
  assumes "n < length buf"
  shows "ring_slice (buf[(s + n) mod length buf := x]) s (Suc n) = ring_slice buf s n @ [x]"
proof -
  have "(s + n) mod length buf < length buf"
    using assms by (intro mod_less_divisor) linarith
  then show ?thesis
    using assms ring_slice_update_outside [of n n buf s x] by (simp add: ring_slice_Suc)
qed

lemma length_ring_store [simp]: "length (ring_store buf s ys) = length buf"
  by (induction ys arbitrary: buf s) auto

lemma ring_slice_store [ring_simps]:
  assumes "n + length ys \<le> length buf"
  shows "ring_slice (ring_store buf (s + n) ys) s (n + length ys) = ring_slice buf s n @ ys"
  using assms
proof (induction ys arbitrary: buf n)
  case (Cons y ys)
  let ?b = "buf[(s + n) mod length buf := y]"
  have "ring_slice (ring_store ?b (s + Suc n) ys) s (Suc n + length ys) = ring_slice ?b s (Suc n) @ ys"
    using Cons.prems by (intro Cons.IH) simp
  also have "ring_slice ?b s (Suc n) = ring_slice buf s n @ [y]"
    using Cons.prems by (intro ring_slice_push) simp
  finally show ?case by simp
qed simp

lemma ring_store_mod: "ring_store buf (s mod length buf) ys = ring_store buf s ys"
proof (cases ys)
  case (Cons y zs)
  have "ring_store b (Suc (s mod length b)) zs = ring_store b (Suc s) zs" for b :: "'a list"
  proof (induction zs arbitrary: b s)
    case (Cons z zs)
    show ?case
      by simp (metis Cons.IH length_list_update mod_Suc_eq)
  qed simp
  from this [of "buf[s mod length buf := y]"] Cons show ?thesis by simp
qed simp

lemma ring_store_append:
  "ring_store buf s (xs @ ys) = ring_store (ring_store buf s xs) (s + length xs) ys"
  by (induction xs arbitrary: buf s) auto

lemma ring_store_linear:
  "s + length ys \<le> length buf \<Longrightarrow> ring_store buf s ys = write_at s ys buf"
  by (induction ys arbitrary: buf s) (auto simp: write_at_Cons)

text \<open>The two contiguous regions of a window, as an \<open>iovec\<close> pair describes them.\<close>

lemma ring_slice_linear:
  "s + n \<le> length buf \<Longrightarrow> ring_slice buf s n = take n (drop s buf)"
  by (rule nth_equalityI) (auto simp: nth_ring_slice)

lemma ring_slice_wrapped:
  assumes "s \<le> length buf" and "length buf \<le> s + n" and "n \<le> length buf"
  shows "ring_slice buf s n = drop s buf @ take (s + n - length buf) buf"
proof (rule nth_equalityI)
  fix i assume "i < length (ring_slice buf s n)"
  then have "i < n" by simp
  moreover have "(s + i) mod length buf = s + i - length buf"
    if "length buf \<le> s + i"
    using that assms \<open>i < n\<close> by (simp add: le_mod_geq)
  ultimately show "ring_slice buf s n ! i = (drop s buf @ take (s + n - length buf) buf) ! i"
    using assms by (auto simp: nth_ring_slice nth_append add.commute)
qed (use assms in simp)

end
