(* ===== verification/Interfaces.thy ===== *)
theory Interfaces
  imports Prelude
begin

text \<open>
  The contracts between components, each as a locale: the operations a client calls and
  the laws it relies on.  The theory of the component that provides an interface
  interprets it on the component's own definitions.
\<close>

section \<open>Unique keys: \<open>std::map\<close> and \<open>std::unordered_map\<close>\<close>

text \<open>
  Clients insert with \<open>try_emplace\<close>, which keeps the old entry and reports failure when
  the key is taken: the dictionary decoder, and the registers of peers and trackers.
\<close>

fun emplace_all :: "('k \<Rightarrow> 'v \<Rightarrow> 'm \<Rightarrow> 'm \<times> bool) \<Rightarrow> ('k \<times> 'v) list \<Rightarrow> 'm \<Rightarrow> 'm option" where
  "emplace_all emplace [] m = Some m"
| "emplace_all emplace ((k, v) # kvs) m =
     (case emplace k v m of (m', unique) \<Rightarrow>
        if unique then emplace_all emplace kvs m' else None)"

locale unique_index =
  fixes empty_index :: 'm
    and emplace :: "'k \<Rightarrow> 'v \<Rightarrow> 'm \<Rightarrow> 'm \<times> bool"
    and lookup :: "'m \<Rightarrow> 'k \<Rightarrow> 'v option"
    and valid :: "'m \<Rightarrow> bool"
  assumes valid_empty: "valid empty_index"
    and lookup_empty: "lookup empty_index k = None"
    and emplace_valid: "valid m \<Longrightarrow> valid (fst (emplace k v m))"
    and emplace_unique: "valid m \<Longrightarrow> snd (emplace k v m) \<longleftrightarrow> lookup m k = None"
    and emplace_lookup: "valid m \<Longrightarrow>
      lookup (fst (emplace k v m)) = (if lookup m k = None then (lookup m)(k \<mapsto> v) else lookup m)"
begin

lemma emplace_all_Some:
  assumes "valid m" and "emplace_all emplace kvs m = Some m'"
  shows "valid m' \<and> lookup m' = lookup m ++ map_of kvs \<and> distinct (map fst kvs)
    \<and> (\<forall>k \<in> fst ` set kvs. lookup m k = None)"
  using assms
proof (induction kvs arbitrary: m)
  case (Cons kv kvs)
  obtain k v where kv: "kv = (k, v)" by fastforce
  obtain m1 where m1: "emplace k v m = (m1, True)" and rest: "emplace_all emplace kvs m1 = Some m'"
    using Cons.prems kv by (auto split: prod.splits if_splits)
  have fresh: "lookup m k = None" and v1: "valid m1" and l1: "lookup m1 = (lookup m)(k \<mapsto> v)"
    using emplace_unique [OF Cons.prems(1), of k v] emplace_valid [OF Cons.prems(1), of k v]
      emplace_lookup [OF Cons.prems(1), of k v] m1 by auto
  have IH: "valid m'" "lookup m' = (lookup m)(k \<mapsto> v) ++ map_of kvs" "distinct (map fst kvs)"
    "\<forall>k' \<in> fst ` set kvs. ((lookup m)(k \<mapsto> v)) k' = None"
    using Cons.IH [OF v1 rest, unfolded l1] by metis+
  then have "k \<notin> fst ` set kvs" by auto
  then have "(lookup m)(k \<mapsto> v) ++ map_of kvs = lookup m ++ map_of ((k, v) # kvs)"
    by (simp add: map_add_upd_left dom_map_of_conv_image_fst)
  then have "lookup m' = lookup m ++ map_of (kv # kvs)"
    using IH(2) kv by simp
  with IH(1,3,4) fresh kv \<open>k \<notin> fst ` set kvs\<close> show ?case
    by (auto simp del: map_of.simps split: if_splits)
qed simp

lemma emplace_all_total:
  assumes "valid m" and "distinct (map fst kvs)" and "\<forall>k \<in> fst ` set kvs. lookup m k = None"
  shows "\<exists>m'. emplace_all emplace kvs m = Some m'"
  using assms
proof (induction kvs arbitrary: m)
  case (Cons kv kvs)
  obtain k v where kv: "kv = (k, v)" by fastforce
  obtain m1 u where m1: "emplace k v m = (m1, u)" by fastforce
  have "u" and v1: "valid m1" and l1: "lookup m1 = (lookup m)(k \<mapsto> v)"
    using emplace_unique [OF Cons.prems(1), of k v] emplace_valid [OF Cons.prems(1), of k v]
      emplace_lookup [OF Cons.prems(1), of k v] m1 Cons.prems(3) kv by auto
  moreover have "\<exists>m'. emplace_all emplace kvs m1 = Some m'"
    using Cons.prems kv by (intro Cons.IH v1) (auto simp: l1)
  ultimately show ?case using m1 kv by simp
qed simp

text \<open>Inserting a list succeeds exactly when its keys are new and distinct.\<close>

lemma emplace_all_iff:
  "valid m \<Longrightarrow> emplace_all emplace kvs m \<noteq> None \<longleftrightarrow>
     distinct (map fst kvs) \<and> (\<forall>k \<in> fst ` set kvs. lookup m k = None)"
  using emplace_all_Some [of m kvs] emplace_all_total [of m kvs] by fastforce

end

section \<open>Bounded FIFO channels\<close>

text \<open>
  A channel holds a queue of elements in bounded room.  A schedule of sends and receives is
  run with each call limited to what fits and to what is there, as the socket callbacks do.
\<close>

datatype 'e channel_op = Send "'e list" | Receive nat

fun run_channel :: "('b \<Rightarrow> 'e list) \<Rightarrow> ('b \<Rightarrow> nat) \<Rightarrow> ('e list \<Rightarrow> 'b \<Rightarrow> fault + 'b) \<Rightarrow> (nat \<Rightarrow> 'b \<Rightarrow> fault + 'b) \<Rightarrow>
    'e channel_op list \<Rightarrow> 'b \<Rightarrow> fault + ('e list \<times> 'e list \<times> 'b)" where
  "run_channel contents room send skip [] b = Inr ([], [], b)"
| "run_channel contents room send skip (Send xs # ops) b =
     (let ys = take (room b) xs in
      case send ys b of
        Inl f \<Rightarrow> Inl f
      | Inr b' \<Rightarrow> map_sum id (\<lambda>(sent, received, b''). (ys @ sent, received, b''))
          (run_channel contents room send skip ops b'))"
| "run_channel contents room send skip (Receive n # ops) b =
     (let ys = take n (contents b) in
      case skip (length ys) b of
        Inl f \<Rightarrow> Inl f
      | Inr b' \<Rightarrow> map_sum id (\<lambda>(sent, received, b''). (sent, ys @ received, b''))
          (run_channel contents room send skip ops b'))"

locale fifo_channel =
  fixes valid :: "'b \<Rightarrow> bool"
    and contents :: "'b \<Rightarrow> 'e list"
    and room :: "'b \<Rightarrow> nat"
    and send :: "'e list \<Rightarrow> 'b \<Rightarrow> fault + 'b"
    and skip :: "nat \<Rightarrow> 'b \<Rightarrow> fault + 'b"
  assumes send_ok: "valid b \<Longrightarrow> length xs \<le> room b \<Longrightarrow>
      \<exists>b'. send xs b = Inr b' \<and> valid b' \<and> contents b' = contents b @ xs"
    and skip_ok: "valid b \<Longrightarrow> n \<le> length (contents b) \<Longrightarrow>
      \<exists>b'. skip n b = Inr b' \<and> valid b' \<and> contents b' = drop n (contents b)"
begin

lemma run_channel_fifo:
  "valid b \<Longrightarrow> \<exists>sent received b'. run_channel contents room send skip ops b = Inr (sent, received, b')
     \<and> valid b' \<and> contents b @ sent = received @ contents b'"
proof (induction ops arbitrary: b)
  case (Cons op ops)
  show ?case
  proof (cases op)
    case (Send xs)
    let ?ys = "take (room b) xs"
    obtain b1 where b1: "send ?ys b = Inr b1" "valid b1" "contents b1 = contents b @ ?ys"
      using send_ok [OF Cons.prems, of ?ys] by auto
    with Cons.IH [OF b1(2)] Send show ?thesis by auto
  next
    case (Receive n)
    let ?ys = "take n (contents b)"
    obtain b1 where b1: "skip (length ?ys) b = Inr b1" "valid b1" "contents b1 = drop (length ?ys) (contents b)"
      using skip_ok [OF Cons.prems, of "length ?ys"] by auto
    have split: "contents b = ?ys @ contents b1" unfolding b1(3) by (simp add: min_def)
    obtain sent received b' where IH: "run_channel contents room send skip ops b1 = Inr (sent, received, b')"
      "valid b'" "contents b1 @ sent = received @ contents b'" using Cons.IH [OF b1(2)] by blast
    have "contents b @ sent = (?ys @ received) @ contents b'" using split IH(3) by (metis append_assoc)
    with IH(1,2) b1(1) Receive show ?thesis by simp
  qed
qed simp

end

section \<open>Slot allocators\<close>

text \<open>
  A client acquires slots by index and gives them back; a slot is live in between.  The
  allocator never hands out a live slot, and asserts that what comes back is live.
\<close>

fun acquire_many :: "('s \<Rightarrow> nat option \<times> 's) \<Rightarrow> nat \<Rightarrow> 's \<Rightarrow> nat list \<times> 's" where
  "acquire_many acquire 0 s = ([], s)"
| "acquire_many acquire (Suc n) s =
     (case acquire s of
        (None, s') \<Rightarrow> ([], s')
      | (Some i, s') \<Rightarrow> (case acquire_many acquire n s' of (is, s'') \<Rightarrow> (i # is, s'')))"

locale slot_allocator =
  fixes valid :: "'s \<Rightarrow> bool"
    and live :: "'s \<Rightarrow> nat set"
    and slots :: "'s \<Rightarrow> nat"
    and acquire :: "'s \<Rightarrow> nat option \<times> 's"
    and release :: "nat \<Rightarrow> 's \<Rightarrow> fault + 's"
  assumes live_slots: "valid s \<Longrightarrow> live s \<subseteq> {..<slots s}"
    and acquire_none: "valid s \<Longrightarrow> acquire s = (None, s') \<Longrightarrow> s' = s \<and> live s = {..<slots s}"
    and acquire_some: "valid s \<Longrightarrow> acquire s = (Some i, s') \<Longrightarrow>
      valid s' \<and> i < slots s \<and> i \<notin> live s \<and> live s' = insert i (live s) \<and> slots s' = slots s"
    and release_live: "valid s \<Longrightarrow> i \<in> live s \<Longrightarrow>
      \<exists>s'. release i s = Inr s' \<and> valid s' \<and> live s' = live s - {i} \<and> slots s' = slots s"
    and release_free: "valid s \<Longrightarrow> i \<notin> live s \<Longrightarrow> release i s = Inl Assertion_failed"
begin

lemma acquire_many_fresh:
  "valid s \<Longrightarrow> acquire_many acquire n s = (is, s') \<Longrightarrow>
     valid s' \<and> distinct is \<and> set is \<inter> live s = {} \<and> live s' = live s \<union> set is \<and> slots s' = slots s
     \<and> length is = min n (slots s - card (live s))"
proof (induction n arbitrary: s "is" s')
  case (Suc n)
  obtain r s1 where r: "acquire s = (r, s1)" by fastforce
  show ?case
  proof (cases r)
    case None
    with r acquire_none [OF Suc.prems(1)] Suc.prems show ?thesis by auto
  next
    case (Some i)
    obtain js s2 where js: "acquire_many acquire n s1 = (js, s2)" by fastforce
    have s1: "valid s1" "i < slots s" "i \<notin> live s" "live s1 = insert i (live s)" "slots s1 = slots s"
      using acquire_some [OF Suc.prems(1), of i s1] r Some by auto
    have fin: "finite (live s)" using live_slots [OF Suc.prems(1)] finite_subset by blast
    have "is = i # js" "s' = s2" using Suc.prems(2) r Some js by auto
    moreover have "card (live s) < slots s"
    proof -
      have "card (insert i (live s)) \<le> card {..<slots s}"
        using live_slots [OF Suc.prems(1)] s1(2) by (intro card_mono) auto
      with s1(3) fin show ?thesis by simp
    qed
    ultimately show ?thesis using Suc.IH [OF s1(1) js] s1 fin by auto
  qed
qed auto

end

section \<open>Queues that drop the oldest element\<close>

fun drain :: "('q \<Rightarrow> 'e option \<times> 'q) \<Rightarrow> nat \<Rightarrow> 'q \<Rightarrow> 'e list" where
  "drain pop 0 q = []"
| "drain pop (Suc n) q =
     (case pop q of (None, q') \<Rightarrow> [] | (Some x, q') \<Rightarrow> x # drain pop n q')"

locale drop_oldest_queue =
  fixes valid :: "'q \<Rightarrow> bool"
    and elems :: "'q \<Rightarrow> 'e list"
    and limit :: "'q \<Rightarrow> nat"
    and push :: "'e \<Rightarrow> 'q \<Rightarrow> 'q"
    and pop_oldest :: "'q \<Rightarrow> 'e option \<times> 'q"
    and pop_newest :: "'q \<Rightarrow> 'e option \<times> 'q"
  assumes push_ok: "valid q \<Longrightarrow> valid (push x q) \<and> limit (push x q) = limit q \<and>
      elems (push x q) = (if length (elems q) < limit q then elems q else tl (elems q)) @ [x]"
    and pop_oldest_ok: "valid q \<Longrightarrow> fst (pop_oldest q) = (case elems q of [] \<Rightarrow> None | y # _ \<Rightarrow> Some y) \<and>
      valid (snd (pop_oldest q)) \<and> elems (snd (pop_oldest q)) = tl (elems q) \<and> limit (snd (pop_oldest q)) = limit q"
    and pop_newest_ok: "valid q \<Longrightarrow> fst (pop_newest q) = (if elems q = [] then None else Some (last (elems q))) \<and>
      valid (snd (pop_newest q)) \<and> elems (snd (pop_newest q)) = butlast (elems q) \<and> limit (snd (pop_newest q)) = limit q"
    and bounded: "valid q \<Longrightarrow> length (elems q) \<le> limit q \<and> 0 < limit q"
begin

lemma push_all:
  "valid q \<Longrightarrow> valid (fold push xs q) \<and> limit (fold push xs q) = limit q \<and>
     elems (fold push xs q) = drop (length (elems q @ xs) - limit q) (elems q @ xs)"
proof (induction xs arbitrary: q)
  case Nil
  then show ?case using bounded [OF Nil] by simp
next
  case (Cons x xs)
  note p = push_ok [OF Cons.prems, of x]
  have b: "length (elems q) \<le> limit q" "0 < limit q" using bounded [OF Cons.prems] by auto
  have "drop (length (elems (push x q) @ xs) - limit q) (elems (push x q) @ xs) =
      drop (length (elems q @ x # xs) - limit q) (elems q @ x # xs)"
  proof (cases "length (elems q) < limit q")
    case False
    then obtain y ys where "elems q = y # ys" "Suc (length ys) = limit q"
      using b by (cases "elems q") auto
    with False p show ?thesis by (simp add: Suc_diff_le)
  qed (use p in simp)
  with Cons.IH [of "push x q"] p show ?case by simp
qed

lemma drain_all: "valid q \<Longrightarrow> length (elems q) \<le> n \<Longrightarrow> drain pop_oldest n q = elems q"
proof (induction n arbitrary: q)
  case (Suc n)
  note p = pop_oldest_ok [OF Suc.prems(1)]
  show ?case
  proof (cases "elems q")
    case Nil
    with p show ?thesis by (auto split: prod.splits)
  next
    case (Cons y ys)
    with p have "pop_oldest q = (Some y, snd (pop_oldest q))" by (metis list.simps(5) prod.collapse)
    moreover have "drain pop_oldest n (snd (pop_oldest q)) = ys" using Suc.IH p Cons Suc.prems by simp
    ultimately show ?thesis using Cons by (metis (no_types, lifting) drain.simps(2) old.prod.case option.simps(5))
  qed
qed simp

lemma drain_latest:
  assumes "valid q" and "elems q = []"
  shows "drain pop_oldest (limit q) (fold push xs q) = drop (length xs - limit q) xs"
  using push_all [OF assms(1), of xs] assms(2) bounded [of "fold push xs q"] drain_all [of "fold push xs q" "limit q"]
  by simp

end

end
