(* ===== verification/Bencode.thy ===== *)
theory Bencode
  imports Interfaces "HOL-Library.Char_ord" "HOL-Library.List_Lexorder"
begin

text \<open>
  The bencode library, \<^verbatim>\<open>src/Bencode\<close> (Ben.hpp, Bendata.cpp, Bendecoders.cpp,
  Benencoder.cpp): the decoded values with their position in the source, the variant
  accesses that may throw, the recursive decoders over a source with a cursor, and the
  string encoders.  Texts are byte strings (\<open>string\<close>); \<open>std::string\<close> compares bytes as
  unsigned values, which is the library's lexicographic order on \<open>char list\<close>.
  \<open>std::map\<close> is an association list sorted by key.
\<close>

section \<open>Ben.hpp: headers, source and values\<close>

abbreviation header_integer :: char where "header_integer \<equiv> CHR ''i''"
abbreviation header_list :: char where "header_list \<equiv> CHR ''l''"
abbreviation header_dictionary :: char where "header_dictionary \<equiv> CHR ''d''"
abbreviation delimeter :: char where "delimeter \<equiv> CHR ''e''"

record source_t =
  source :: string
  cursor :: nat

definition undecoded :: "source_t \<Rightarrow> string" where
  "undecoded s = drop (cursor s) (source s)"

definition advance :: "nat \<Rightarrow> source_t \<Rightarrow> source_t" where
  "advance n s = s\<lparr>cursor := cursor s + n\<rparr>"

datatype encode_type = Type_integer | Type_string | Type_list | Type_dictionary | Type_nothing

record source_stats_t =
  stat_start :: nat
  stat_size :: nat

datatype data = Data (actual_value: variant) (position_in_source: source_stats_t)
  and variant =
    Integer int
  | String string
  | List "data list"
  | Dictionary "(string \<times> data) list"

type_synonym dictionary = "(string \<times> data) list"

abbreviation no_position :: source_stats_t where
  "no_position \<equiv> \<lparr>stat_start = 0, stat_size = 0\<rparr>"

text \<open>The constructors of \<open>ben::data\<close>: the default one, and Bendata.cpp's three.\<close>

definition data_default :: data where
  "data_default = Data (Integer 0) no_position"

definition data_of_integer :: "int \<Rightarrow> data" where
  "data_of_integer number = Data (Integer number) no_position"

definition data_of_string :: "string \<Rightarrow> data" where
  "data_of_string s = Data (String s) no_position"

fun data_of_type :: "encode_type \<Rightarrow> data" where
  "data_of_type Type_integer = Data (Integer 0) no_position"
| "data_of_type Type_string = Data (String []) no_position"
| "data_of_type Type_list = Data (List []) no_position"
| "data_of_type Type_dictionary = Data (Dictionary []) no_position"
| "data_of_type Type_nothing = data_default"

fun type_of_data :: "data \<Rightarrow> encode_type" where
  "type_of_data (Data (Integer _) _) = Type_integer"
| "type_of_data (Data (String _) _) = Type_string"
| "type_of_data (Data (List _) _) = Type_list"
| "type_of_data (Data (Dictionary _) _) = Type_dictionary"

text \<open>\<open>get_as\<open>T\<close>\<close>: \<open>std::get\<close> on the variant throws when the alternative is another one.\<close>

fun get_as_integer :: "data \<Rightarrow> fault + int" where
  "get_as_integer (Data (Integer n) _) = Inr n"
| "get_as_integer _ = Inl Bad_variant_access"

fun get_as_string :: "data \<Rightarrow> fault + string" where
  "get_as_string (Data (String s) _) = Inr s"
| "get_as_string _ = Inl Bad_variant_access"

fun get_as_list :: "data \<Rightarrow> fault + data list" where
  "get_as_list (Data (List xs) _) = Inr xs"
| "get_as_list _ = Inl Bad_variant_access"

fun get_as_dictionary :: "data \<Rightarrow> fault + dictionary" where
  "get_as_dictionary (Data (Dictionary m) _) = Inr m"
| "get_as_dictionary _ = Inl Bad_variant_access"

section \<open>std::map: the operations the library uses\<close>

fun try_emplace :: "'k::linorder \<Rightarrow> 'v \<Rightarrow> ('k \<times> 'v) list \<Rightarrow> ('k \<times> 'v) list \<times> bool" where
  "try_emplace k v [] = ([(k, v)], True)"
| "try_emplace k v ((k', v') # m) =
     (if k < k' then ((k, v) # (k', v') # m, True)
      else if k = k' then ((k', v') # m, False)
      else let (m', unique) = try_emplace k v m in ((k', v') # m', unique))"

text \<open>\<open>ben::find\<close>: the value under a key, or the null pointer.\<close>

definition ben_find :: "string \<Rightarrow> dictionary \<Rightarrow> data option" where
  "ben_find key m = map_of m key"

definition ben_contains :: "string \<Rightarrow> dictionary \<Rightarrow> bool" where
  "ben_contains key m = (map_of m key \<noteq> None)"

section \<open>Bendecoders.cpp: numbers\<close>

definition is_digit :: "char \<Rightarrow> bool" where
  "is_digit c \<longleftrightarrow> 48 \<le> (of_char c :: nat) \<and> (of_char c :: nat) \<le> 57"

definition digit_val :: "char \<Rightarrow> nat" where
  "digit_val c = of_char c - 48"

definition digit_char :: "nat \<Rightarrow> char" where
  "digit_char n = char_of (48 + n)"

definition digits_value :: "string \<Rightarrow> nat" where
  "digits_value ds = foldl (\<lambda>acc c. 10 * acc + digit_val c) 0 ds"

definition int64 :: "int \<Rightarrow> bool" where
  "int64 n \<longleftrightarrow> - (2 ^ 63) \<le> n \<and> n < 2 ^ 63"

datatype errc = Errc_ok | Invalid_argument | Result_out_of_range

text \<open>
  \<open>std::from_chars\<close> in base 10 into an \<open>int64_t\<close> that holds 0: an optional minus sign and
  the longest run of digits; the rest of the text stands for the returned pointer.
\<close>

definition from_chars :: "string \<Rightarrow> string \<times> errc \<times> int" where
  "from_chars str =
     (let negative = (str \<noteq> [] \<and> hd str = CHR ''-'');
          body = (if negative then tl str else str);
          ds = takeWhile is_digit body;
          rest = dropWhile is_digit body;
          n = (if negative then - int (digits_value ds) else int (digits_value ds))
      in if ds = [] then (str, Invalid_argument, 0)
         else if int64 n then (rest, Errc_ok, n)
         else (rest, Result_out_of_range, 0))"

definition get_number_if_valid :: "string \<Rightarrow> int option" where
  "get_number_if_valid str =
     (if str = [] then None
      else if hd str = CHR ''0'' \<and> length str \<noteq> 1 then None
      else if 2 \<le> length str \<and> take 2 str = ''-0'' then None
      else case from_chars str of (rest, err, decode) \<Rightarrow>
        if err = Errc_ok \<and> rest = [] then Some decode else None)"

section \<open>Bendecoders.cpp: strings and integers\<close>

fun find_first_of :: "char \<Rightarrow> string \<Rightarrow> nat option" where
  "find_first_of c [] = None"
| "find_first_of c (x # xs) = (if x = c then Some 0 else map_option Suc (find_first_of c xs))"

definition starts_with :: "char \<Rightarrow> string \<Rightarrow> bool" where
  "starts_with c view \<longleftrightarrow> (case view of [] \<Rightarrow> False | x # _ \<Rightarrow> x = c)"

definition decode_string :: "source_t \<Rightarrow> data option \<times> source_t" where
  "decode_string encode =
     (let encode_begin = cursor encode;
          view = undecoded encode
      in if length view < 2 then (None, encode)
      else case find_first_of CHR '':'' view of
        None \<Rightarrow> (None, encode)
      | Some seperator_index \<Rightarrow>
          let length_string = take seperator_index view;
              string_begin = seperator_index + 1
          in if starts_with CHR ''-'' length_string then (None, encode)
          else case get_number_if_valid length_string of
            None \<Rightarrow> (None, encode)
          | Some declared_size \<Rightarrow>
              if length view - string_begin < sz_of_int declared_size then (None, encode)
              else
                let actual_string = subspan string_begin (sz_of_int declared_size) view;
                    encode' = advance (string_begin + sz_of_int declared_size) encode
                in (Some (Data (String actual_string)
                      \<lparr>stat_start = encode_begin, stat_size = cursor encode' - encode_begin\<rparr>), encode'))"

definition decode_integer :: "source_t \<Rightarrow> data option \<times> source_t" where
  "decode_integer encoded =
     (if \<not> starts_with header_integer (undecoded encoded) then (None, encoded)
      else
        let encode_begin = cursor encoded;
            encoded = advance 1 encoded
        in case find_first_of delimeter (undecoded encoded) of
          None \<Rightarrow> (None, encoded)
        | Some end_index \<Rightarrow>
            if end_index = 0 then (None, encoded)
            else case get_number_if_valid (take end_index (undecoded encoded)) of
              None \<Rightarrow> (None, encoded)
            | Some decode_number \<Rightarrow>
                let encoded = advance (end_index + 1) encoded
                in (Some (Data (Integer decode_number)
                      \<lparr>stat_start = encode_begin, stat_size = cursor encoded - encode_begin\<rparr>), encoded))"

section \<open>Bendecoders.cpp: values, lists and dictionaries\<close>

function (sequential) decode_any :: "source_t \<Rightarrow> data option \<times> source_t"
  and decode_list :: "source_t \<Rightarrow> data option \<times> source_t"
  and decode_list_loop :: "data list \<Rightarrow> source_t \<Rightarrow> data list option \<times> source_t"
  and decode_dictionary :: "source_t \<Rightarrow> data option \<times> source_t"
  and decode_dictionary_loop :: "dictionary \<Rightarrow> source_t \<Rightarrow> dictionary option \<times> source_t"
where
  "decode_any encoded =
     (case undecoded encoded of
        [] \<Rightarrow> (None, encoded)
      | c # _ \<Rightarrow>
          if c = header_integer then decode_integer encoded
          else if c = header_list then decode_list encoded
          else if c = header_dictionary then decode_dictionary encoded
          else decode_string encoded)"
| "decode_list encode =
     (if undecoded encode = [] \<or> \<not> starts_with header_list (undecoded encode) then (None, encode)
      else
        let encode_begin = cursor encode;
            encode = advance 1 encode
        in if undecoded encode = [] then (None, encode)
        else case decode_list_loop [] encode of
          (None, encode) \<Rightarrow> (None, encode)
        | (Some items, encode) \<Rightarrow>
            if undecoded encode = [] then (None, encode)
            else if hd (undecoded encode) \<noteq> delimeter then (None, encode)
            else
              let encode = advance 1 encode
              in (Some (Data (List items)
                    \<lparr>stat_start = encode_begin, stat_size = cursor encode - encode_begin\<rparr>), encode))"
| "decode_list_loop items encode =
     (if undecoded encode \<noteq> [] \<and> hd (undecoded encode) \<noteq> delimeter then
        (case decode_any encode of
           (None, encode) \<Rightarrow> (None, encode)
         | (Some bendecoded, encode) \<Rightarrow> decode_list_loop (items @ [bendecoded]) encode)
      else (Some items, encode))"
| "decode_dictionary encode =
     (if undecoded encode = [] \<or> \<not> starts_with header_dictionary (undecoded encode) then (None, encode)
      else
        let encode_begin = cursor encode;
            encode = advance 1 encode
        in if undecoded encode = [] then (None, encode)
        else case decode_dictionary_loop [] encode of
          (None, encode) \<Rightarrow> (None, encode)
        | (Some m, encode) \<Rightarrow>
            if undecoded encode = [] then (None, encode)
            else if hd (undecoded encode) \<noteq> delimeter then (None, encode)
            else
              let encode = advance 1 encode
              in (Some (Data (Dictionary m)
                    \<lparr>stat_start = encode_begin, stat_size = cursor encode - encode_begin\<rparr>), encode))"
| "decode_dictionary_loop m encode =
     (if undecoded encode \<noteq> [] \<and> hd (undecoded encode) \<noteq> delimeter then
        (case decode_string encode of
           (None, encode) \<Rightarrow> (None, encode)
         | (Some bendecoded_key, encode) \<Rightarrow>
             (case decode_any encode of
                (None, encode) \<Rightarrow> (None, encode)
              | (Some val, encode) \<Rightarrow>
                  (case get_as_string bendecoded_key of
                     Inl _ \<Rightarrow> (None, encode)
                   | Inr key \<Rightarrow>
                       (case try_emplace key val m of
                          (m', unique) \<Rightarrow>
                            if \<not> unique then (None, encode)
                            else decode_dictionary_loop m' encode))))
      else (Some m, encode))"
  by pat_completeness auto


text \<open>
  The calls are nested: a list or dictionary loop continues from the cursor that decoding an
  element left.  Termination therefore rests on a fact about the result: a decoder that
  returns a value has moved the cursor forward inside the source.
\<close>

definition progress :: "source_t \<Rightarrow> 'a option \<times> source_t \<Rightarrow> bool" where
  "progress s r \<longleftrightarrow> source (snd r) = source s \<and>
     (fst r \<noteq> None \<longrightarrow> cursor s < cursor (snd r) \<and> cursor (snd r) \<le> length (source s))"

definition weak_progress :: "source_t \<Rightarrow> 'a option \<times> source_t \<Rightarrow> bool" where
  "weak_progress s r \<longleftrightarrow> source (snd r) = source s \<and> (fst r \<noteq> None \<longrightarrow> cursor s \<le> cursor (snd r))"

lemma progressD:
  "progress s r \<Longrightarrow> (Some v, s') = r \<Longrightarrow>
     source s' = source s \<and> cursor s < cursor s' \<and> cursor s' \<le> length (source s)"
  by (auto simp: progress_def)

lemma undecoded_nonempty: "undecoded s \<noteq> [] \<longleftrightarrow> cursor s < length (source s)"
  by (auto simp: undecoded_def)

lemma length_undecoded: "length (undecoded s) = length (source s) - cursor s"
  by (simp add: undecoded_def)

lemma advance_sel [simp]: "cursor (advance n s) = cursor s + n" "source (advance n s) = source s"
  by (simp_all add: advance_def)

lemma undecoded_advance [simp]: "undecoded (advance n s) = drop n (undecoded s)"
  by (simp add: undecoded_def add.commute)

lemma find_first_of_Some:
  "find_first_of c xs = Some i \<longleftrightarrow> i < length xs \<and> xs ! i = c \<and> c \<notin> set (take i xs)"
  by (induction xs arbitrary: i) (auto simp: nth_Cons take_Cons' split: nat.split)

lemma progress_string: "progress s (decode_string s)"
proof -
  have *: "length (undecoded s) = length (source s) - cursor s" by (rule length_undecoded)
  show ?thesis
    unfolding decode_string_def progress_def Let_def using *
    by (auto simp: find_first_of_Some split: option.splits)
qed

lemma progress_integer: "progress s (decode_integer s)"
proof -
  have *: "length (undecoded s) = length (source s) - cursor s" by (rule length_undecoded)
  show ?thesis
    unfolding decode_integer_def progress_def Let_def using *
    by (auto simp: find_first_of_Some split: option.splits)
qed


lemma advance_id [simp]: "advance 0 s = s"
  by (simp add: advance_def)

lemma decode_progress:
  shows "decode_any_decode_list_decode_list_loop_decode_dictionary_decode_dictionary_loop_dom (Inl (Inl s)) \<Longrightarrow> progress s (decode_any s)"
    and "decode_any_decode_list_decode_list_loop_decode_dictionary_decode_dictionary_loop_dom (Inl (Inr s)) \<Longrightarrow> progress s (decode_list s)"
    and "decode_any_decode_list_decode_list_loop_decode_dictionary_decode_dictionary_loop_dom (Inr (Inl (items, s))) \<Longrightarrow> weak_progress s (decode_list_loop items s)"
    and "decode_any_decode_list_decode_list_loop_decode_dictionary_decode_dictionary_loop_dom (Inr (Inr (Inl s))) \<Longrightarrow> progress s (decode_dictionary s)"
    and "decode_any_decode_list_decode_list_loop_decode_dictionary_decode_dictionary_loop_dom (Inr (Inr (Inr (m, s)))) \<Longrightarrow> weak_progress s (decode_dictionary_loop m s)"
proof (induction rule: decode_any_decode_list_decode_list_loop_decode_dictionary_decode_dictionary_loop.pinduct)
  case (1 encoded)
  then show ?case
    by (auto simp: decode_any.psimps progress_integer progress_string split: list.splits)
       (auto simp: progress_def)
next
  case (2 encode)
  show ?case
  proof (cases "starts_with header_list (undecoded encode) \<and> undecoded (advance 1 encode) \<noteq> []")
    case True
    then have "weak_progress (advance 1 encode) (decode_list_loop [] (advance 1 encode))"
      by (intro 2) (auto simp: starts_with_def)
    with 2(1) True show ?thesis
      by (auto simp: decode_list.psimps Let_def undecoded_nonempty progress_def weak_progress_def
          split: prod.splits option.splits)
  next
    case False
    with 2(1) show ?thesis
      by (auto simp: decode_list.psimps progress_def)
  qed
next
  case (3 items encode)
  show ?case
  proof (cases "decode_any encode")
    case (Pair r s')
    then show ?thesis using 3
      by (cases r) (fastforce simp: decode_list_loop.psimps progress_def weak_progress_def)+
  qed
next
  case (4 encode)
  show ?case
  proof (cases "starts_with header_dictionary (undecoded encode) \<and> undecoded (advance 1 encode) \<noteq> []")
    case True
    then have "weak_progress (advance 1 encode) (decode_dictionary_loop [] (advance 1 encode))"
      by (intro 4) (auto simp: starts_with_def)
    with 4(1) True show ?thesis
      by (auto simp: decode_dictionary.psimps Let_def undecoded_nonempty progress_def weak_progress_def
          split: prod.splits option.splits)
  next
    case False
    with 4(1) show ?thesis
      by (auto simp: decode_dictionary.psimps progress_def)
  qed
next
  case (5 m encode)
  obtain k s' where k: "decode_string encode = (k, s')" by fastforce
  obtain v s'' where v: "decode_any s' = (v, s'')" by fastforce
  show ?case
  proof (cases "undecoded encode \<noteq> [] \<and> hd (undecoded encode) \<noteq> delimeter \<and> k \<noteq> None \<and> v \<noteq> None")
    case True
    then obtain k' v' where some: "k = Some k'" "v = Some v'" by auto
    have "progress encode (decode_string encode)" by (rule progress_string)
    moreover have "progress s' (decode_any s')"
      by (rule 5(2) [of k s' k']) (use True k some in auto)
    ultimately have le: "cursor encode \<le> cursor s''" and src: "source s'' = source encode"
      using k v some by (auto simp: progress_def)
    show ?thesis
    proof (cases "get_as_string k'")
      case (Inr key)
      obtain m' u where te: "try_emplace key v' m = (m', u)" by fastforce
      have "u \<Longrightarrow> weak_progress s'' (decode_dictionary_loop m' s'')"
        by (rule 5(3)) (use True k v some Inr te in auto)
      with 5(1) k v some Inr te True le src show ?thesis
        by (auto simp: decode_dictionary_loop.psimps weak_progress_def)
    next
      case (Inl x)
      with 5(1) k v some True le src show ?thesis
        by (auto simp: decode_dictionary_loop.psimps weak_progress_def)
    qed
  next
    case False
    have "progress encode (decode_string encode)" by (rule progress_string)
    moreover have "undecoded encode \<noteq> [] \<and> hd (undecoded encode) \<noteq> delimeter \<Longrightarrow> k \<noteq> None \<Longrightarrow> progress s' (decode_any s')"
      by (rule 5(2) [of k s' "the k"]) (use k in auto)
    ultimately show ?thesis using 5(1) k v False
      by (auto simp: decode_dictionary_loop.psimps weak_progress_def progress_def split: option.splits)
  qed
qed

termination decode_any
proof (relation "measures [\<lambda>x. case x of
     Inl (Inl s) \<Rightarrow> length (source s) - cursor s
   | Inl (Inr s) \<Rightarrow> length (source s) - cursor s
   | Inr (Inl (_, s)) \<Rightarrow> length (source s) - cursor s
   | Inr (Inr (Inl s)) \<Rightarrow> length (source s) - cursor s
   | Inr (Inr (Inr (_, s))) \<Rightarrow> length (source s) - cursor s,
   \<lambda>x. case x of Inl (Inl s) \<Rightarrow> 1 | Inr (Inl _) \<Rightarrow> 2 | Inr (Inr (Inr _)) \<Rightarrow> 2 | _ \<Rightarrow> 0]", goal_cases)
  case 1
  show ?case by simp
next
  case (2 encoded c cs) show ?case by simp
next
  case (3 encoded c cs) show ?case by simp
next
  case (4 encode b e) then show ?case by (auto simp: undecoded_nonempty)
next
  case (5 items encode) then show ?case by (auto simp: undecoded_nonempty)
next
  case (6 items encode r s' v)
  then have "progress encode (decode_any encode)" by (intro decode_progress)
  with 6 show ?case by (auto dest: progressD)
next
  case (7 encode b e)
  then show ?case by (auto simp: undecoded_nonempty)
next
  case (8 m encode k s' v)
  with progress_string [of encode] show ?case by (auto dest: progressD)
next
  case (9 m encode k s' k' v s'' v' key m' u)
  moreover have "progress encode (decode_string encode)" by (rule progress_string)
  moreover have "progress s' (decode_any s')" using 9 by (intro decode_progress)
  ultimately show ?case by (auto dest!: progressD)
qed

definition decode_input :: "string \<Rightarrow> data option" where
  "decode_input input_text =
     (case decode_any \<lparr>source = input_text, cursor = 0\<rparr> of (resolve, s) \<Rightarrow>
        if resolve \<noteq> None \<and> cursor s \<noteq> length input_text then None else resolve)"

section \<open>Benencoder.cpp\<close>

text \<open>\<open>std::to_string\<close>.\<close>

fun nat_to_string :: "nat \<Rightarrow> string" where
  "nat_to_string n =
     (if n < 10 then [digit_char n] else nat_to_string (n div 10) @ [digit_char (n mod 10)])"

declare nat_to_string.simps [simp del]

definition int_to_string :: "int \<Rightarrow> string" where
  "int_to_string n =
     (if n < 0 then CHR ''-'' # nat_to_string (nat (- n)) else nat_to_string (nat n))"

definition encoders_integer :: "int \<Rightarrow> string" where
  "encoders_integer value = [header_integer] @ int_to_string value @ [delimeter]"

definition encoders_string :: "string \<Rightarrow> string" where
  "encoders_string value = nat_to_string (length value) @ '':'' @ value"

definition encoders_list :: "string list \<Rightarrow> string" where
  "encoders_list items = [header_list] @ foldl (@) [] items @ [delimeter]"

record BenDictPair =
  dict_key :: string
  bencoded_value :: string

definition encoders_dictionary :: "BenDictPair list \<Rightarrow> string" where
  "encoders_dictionary items =
     [header_dictionary]
     @ foldl (\<lambda>res pair. res @ encoders_string (dict_key pair) @ bencoded_value pair) []
         (sort_key dict_key items)
     @ [delimeter]"

section \<open>Numbers: canonical decimal texts\<close>

lemma of_char_digit_char: "n < 10 \<Longrightarrow> (of_char (digit_char n) :: nat) = 48 + n"
  by (simp add: digit_char_def take_bit_nat_eq_self)

lemma digit_val_digit_char [simp]: "n < 10 \<Longrightarrow> digit_val (digit_char n) = n"
  by (simp add: digit_val_def of_char_digit_char)

lemma is_digit_digit_char [simp]: "n < 10 \<Longrightarrow> is_digit (digit_char n)"
  by (simp add: is_digit_def of_char_digit_char)

lemma digit_char_digit_val [simp]: "is_digit c \<Longrightarrow> digit_char (digit_val c) = c"
  by (simp add: is_digit_def digit_val_def digit_char_def)

lemma digit_val_less: "is_digit c \<Longrightarrow> digit_val c < 10"
  by (auto simp: is_digit_def digit_val_def)

lemma digit_char_0 [simp]: "digit_char 0 = CHR ''0''"
  by code_simp

lemma digits_value_Nil [simp]: "digits_value [] = 0"
  by (simp add: digits_value_def)

lemma digits_value_snoc [simp]: "digits_value (ds @ [c]) = 10 * digits_value ds + digit_val c"
  by (simp add: digits_value_def)

lemma digits_value_single [simp]: "digits_value [c] = digit_val c"
  by (simp add: digits_value_def)

lemma nat_to_string_digits: "set (nat_to_string n) \<subseteq> Collect is_digit"
proof (induction n rule: nat_to_string.induct)
  case (1 n)
  then show ?case by (subst nat_to_string.simps) auto
qed

lemma nat_to_string_nonempty [simp]: "nat_to_string n \<noteq> []"
  by (subst nat_to_string.simps) simp

lemma digits_value_nat_to_string [simp]: "digits_value (nat_to_string n) = n"
proof (induction n rule: nat_to_string.induct)
  case (1 n)
  then show ?case by (subst nat_to_string.simps) auto
qed

lemma hd_nat_to_string_0: "hd (nat_to_string n) = CHR ''0'' \<Longrightarrow> n = 0"
proof (induction n rule: nat_to_string.induct)
  case (1 n)
  show ?case
  proof (cases "n < 10")
    case True
    then have "hd (nat_to_string n) = digit_char n" by (subst nat_to_string.simps) simp
    with 1(2) True have "digit_char n = CHR ''0''" by simp
    with True digit_val_digit_char [of n] show ?thesis by (simp add: digit_val_def)
  next
    case False
    then have "hd (nat_to_string n) = hd (nat_to_string (n div 10))"
      by (subst nat_to_string.simps) simp
    with 1 False have "n div 10 = 0" by simp
    with False show ?thesis by simp
  qed
qed

lemma nat_to_string_0 [simp]: "nat_to_string 0 = ''0''"
  by (subst nat_to_string.simps) simp

text \<open>A digit run without a leading zero is the decimal text of its value.\<close>

lemma nat_to_string_digits_value:
  assumes "ds \<noteq> []" and "set ds \<subseteq> Collect is_digit" and "hd ds = CHR ''0'' \<Longrightarrow> length ds = 1"
  shows "nat_to_string (digits_value ds) = ds"
  using assms
proof (induction ds rule: rev_induct)
  case (snoc c ds)
  show ?case
  proof (cases "ds = []")
    case True
    with snoc.prems show ?thesis
      by (subst nat_to_string.simps) (auto simp: digit_val_less)
  next
    case False
    then have hd: "hd ds \<noteq> CHR ''0''" using snoc.prems by auto
    then have IH: "nat_to_string (digits_value ds) = ds"
      using snoc.IH False snoc.prems by simp
    have c: "is_digit c" "digit_val c < 10" using snoc.prems digit_val_less by auto
    have "digits_value ds \<noteq> 0"
      using IH hd by (metis list.sel(1) nat_to_string_0)
    with c IH show ?thesis
      by (subst nat_to_string.simps) simp
  qed
qed simp

lemma takeWhile_digits: "set ds \<subseteq> Collect is_digit \<Longrightarrow> takeWhile is_digit ds = ds"
  by (induction ds) auto

lemma not_digit_minus [simp]: "\<not> is_digit CHR ''-''"
  by (simp add: is_digit_def)

lemma not_digit_colon [simp]: "\<not> is_digit CHR '':''"
  by (simp add: is_digit_def)

lemma not_digit_e [simp]: "\<not> is_digit CHR ''e''"
  by (simp add: is_digit_def)

lemma hd_nat_to_string_digit: "is_digit (hd (nat_to_string n))"
  using subsetD [OF nat_to_string_digits hd_in_set [OF nat_to_string_nonempty [of n]]] by simp

text \<open>The validator accepts exactly the canonical decimal texts of 64-bit integers.\<close>

lemma from_chars_digits:
  assumes "ds \<noteq> []" and "set ds \<subseteq> Collect is_digit"
  shows "from_chars ds =
    (if int64 (int (digits_value ds)) then ([], Errc_ok, int (digits_value ds))
     else ([], Result_out_of_range, 0))"
  using assms by (cases ds) (auto simp: from_chars_def Let_def takeWhile_digits)

lemma from_chars_minus_digits:
  assumes "ds \<noteq> []" and "set ds \<subseteq> Collect is_digit"
  shows "from_chars (CHR ''-'' # ds) =
    (if int64 (- int (digits_value ds)) then ([], Errc_ok, - int (digits_value ds))
     else ([], Result_out_of_range, 0))"
  using assms by (cases ds) (auto simp: from_chars_def Let_def takeWhile_digits)

lemma get_number_if_valid_complete:
  assumes "int64 n"
  shows "get_number_if_valid (int_to_string n) = Some n"
proof (cases "n < 0")
  case True
  let ?ds = "nat_to_string (nat (- n))"
  have "from_chars (CHR ''-'' # ?ds) = ([], Errc_ok, n)"
    using True assms nat_to_string_digits by (simp add: from_chars_minus_digits)
  moreover have "hd ?ds \<noteq> CHR ''0''"
    using hd_nat_to_string_0 [of "nat (- n)"] True by auto
  ultimately show ?thesis
    using True nat_to_string_nonempty [of "nat (- n)"]
    by (cases ?ds) (auto simp: get_number_if_valid_def int_to_string_def)
next
  case False
  let ?ds = "nat_to_string (nat n)"
  have "from_chars ?ds = ([], Errc_ok, n)"
    using False assms nat_to_string_digits by (simp add: from_chars_digits)
  moreover have "hd ?ds = CHR ''0'' \<Longrightarrow> length ?ds = 1"
    using hd_nat_to_string_0 [of "nat n"] by fastforce
  moreover have "hd ?ds \<noteq> CHR ''-''" using hd_nat_to_string_digit [of "nat n"] by auto
  ultimately show ?thesis
    using False nat_to_string_nonempty [of "nat n"]
    by (cases ?ds) (auto simp: get_number_if_valid_def int_to_string_def)
qed

lemma from_chars_ok:
  assumes "from_chars str = ([], Errc_ok, n)"
  obtains ds where "ds \<noteq> []" and "set ds \<subseteq> Collect is_digit" and "int64 n"
    and "str = ds \<and> n = int (digits_value ds) \<or> str = CHR ''-'' # ds \<and> n = - int (digits_value ds)"
proof (cases "str \<noteq> [] \<and> hd str = CHR ''-''")
  case True
  then obtain ds where str: "str = CHR ''-'' # ds" by (cases str) auto
  with assms have *: "takeWhile is_digit ds \<noteq> []" "dropWhile is_digit ds = []" "int64 n"
    "n = - int (digits_value (takeWhile is_digit ds))"
    by (auto simp: from_chars_def Let_def split: if_splits)
  then have digits: "set ds \<subseteq> Collect is_digit" by auto
  with * str show thesis by (intro that [of ds]) (auto simp: takeWhile_digits)
next
  case False
  with assms have *: "takeWhile is_digit str \<noteq> []" "dropWhile is_digit str = []" "int64 n"
    "n = int (digits_value (takeWhile is_digit str))"
    by (auto simp: from_chars_def Let_def split: if_splits)
  then have digits: "set str \<subseteq> Collect is_digit" by auto
  with * show thesis by (intro that [of str]) (auto simp: takeWhile_digits)
qed

lemma get_number_if_valid_sound:
  assumes "get_number_if_valid str = Some n"
  shows "int64 n \<and> str = int_to_string n"
proof -
  from assms have fc: "from_chars str = ([], Errc_ok, n)"
    and zero: "hd str = CHR ''0'' \<Longrightarrow> length str = 1"
    and mzero: "2 \<le> length str \<Longrightarrow> take 2 str \<noteq> ''-0''"
    by (auto simp: get_number_if_valid_def split: if_splits prod.splits)
  from fc obtain ds where ds: "ds \<noteq> []" "set ds \<subseteq> Collect is_digit" "int64 n"
    and "str = ds \<and> n = int (digits_value ds) \<or> str = CHR ''-'' # ds \<and> n = - int (digits_value ds)"
    by (rule from_chars_ok)
  then consider (pos) "str = ds" "n = int (digits_value ds)"
    | (neg) "str = CHR ''-'' # ds" "n = - int (digits_value ds)" by blast
  then show ?thesis
  proof cases
    case pos
    then show ?thesis
      using ds zero nat_to_string_digits_value [of ds] by (simp add: int_to_string_def)
  next
    case neg
    then have hd: "hd ds \<noteq> CHR ''0''"
      using ds(1) mzero by (cases ds) auto
    then have str: "nat_to_string (digits_value ds) = ds"
      using ds by (intro nat_to_string_digits_value) auto
    then have "digits_value ds \<noteq> 0" using hd by (metis list.sel(1) nat_to_string_0)
    with neg ds(3) str show ?thesis by (simp add: int_to_string_def)
  qed
qed

lemma get_number_if_valid_iff: "get_number_if_valid str = Some n \<longleftrightarrow> int64 n \<and> str = int_to_string n"
  using get_number_if_valid_sound get_number_if_valid_complete by blast

lemma advance_advance [simp]: "advance m (advance n s) = advance (n + m) s"
  by (simp add: advance_def)

section \<open>Dictionaries\<close>

lemma keys_try_emplace:
  "fst ` set (fst (try_emplace k v m)) = insert k (fst ` set m)"
proof (induction k v m rule: try_emplace.induct)
  case (2 k v k' v' m)
  obtain m' u where te: "try_emplace k v m = (m', u)" by fastforce
  with 2 show ?case by (cases "k < k'"; cases "k = k'") auto
qed simp

lemma try_emplace_sorted:
  "sorted_wrt (<) (map fst m) \<Longrightarrow> sorted_wrt (<) (map fst (fst (try_emplace k v m)))"
proof (induction k v m rule: try_emplace.induct)
  case (2 k v k' v' m)
  obtain m' u where te: "try_emplace k v m = (m', u)" by fastforce
  have "fst ` set m' = insert k (fst ` set m)" using keys_try_emplace [of k v m] te by simp
  then have "\<forall>x \<in> fst ` set m'. k' < x" if "k' < k" using that 2(2) by auto
  with 2 te show ?case by (fastforce simp: not_less_iff_gr_or_eq)
qed simp

lemma try_emplace_lookup:
  "sorted_wrt (<) (map fst m) \<Longrightarrow>
   (snd (try_emplace k v m) \<longleftrightarrow> map_of m k = None) \<and>
   map_of (fst (try_emplace k v m)) = (if map_of m k = None then (map_of m)(k \<mapsto> v) else map_of m)"
proof (induction k v m rule: try_emplace.induct)
  case (2 k v k' v' m)
  obtain m' u where te: "try_emplace k v m = (m', u)" by fastforce
  have "map_of m k = None" if "k < k'" using that 2(2) by (force simp: map_of_eq_None_iff)
  with 2 te show ?case by (auto simp: fun_eq_iff)
qed auto

interpretation std_map: unique_index "[]" "try_emplace :: 'k::linorder \<Rightarrow> 'v \<Rightarrow> _" map_of
    "\<lambda>m. sorted_wrt (<) (map fst m)"
  by unfold_locales (simp_all add: try_emplace_sorted try_emplace_lookup)

section \<open>The grammar of bencoded texts\<close>

text \<open>\<open>bencoded p u v\<close>: the text \<open>u\<close>, found at offset \<open>p\<close> of its source, encodes \<open>v\<close>.\<close>

inductive bencoded :: "nat \<Rightarrow> string \<Rightarrow> data \<Rightarrow> bool"
  and bencoded_items :: "nat \<Rightarrow> string \<Rightarrow> data list \<Rightarrow> bool"
  and bencoded_pairs :: "nat \<Rightarrow> string \<Rightarrow> (string \<times> data) list \<Rightarrow> bool"
where
  enc_integer: "int64 n \<Longrightarrow> u = encoders_integer n \<Longrightarrow>
    bencoded p u (Data (Integer n) \<lparr>stat_start = p, stat_size = length u\<rparr>)"
| enc_string: "int64 (int (length s)) \<Longrightarrow> u = encoders_string s \<Longrightarrow>
    bencoded p u (Data (String s) \<lparr>stat_start = p, stat_size = length u\<rparr>)"
| enc_list: "bencoded_items (p + 1) us vs \<Longrightarrow> u = [header_list] @ us @ [delimeter] \<Longrightarrow>
    bencoded p u (Data (List vs) \<lparr>stat_start = p, stat_size = length u\<rparr>)"
| enc_dictionary: "bencoded_pairs (p + 1) us kvs \<Longrightarrow> emplace_all try_emplace kvs [] = Some m \<Longrightarrow>
    u = [header_dictionary] @ us @ [delimeter] \<Longrightarrow>
    bencoded p u (Data (Dictionary m) \<lparr>stat_start = p, stat_size = length u\<rparr>)"
| items_Nil: "bencoded_items p [] []"
| items_Cons: "bencoded p u v \<Longrightarrow> bencoded_items (p + length u) us vs \<Longrightarrow>
    bencoded_items p (u @ us) (v # vs)"
| pairs_Nil: "bencoded_pairs p [] []"
| pairs_Cons: "int64 (int (length k)) \<Longrightarrow> uk = encoders_string k \<Longrightarrow>
    bencoded (p + length uk) u v \<Longrightarrow> bencoded_pairs (p + length uk + length u) us kvs \<Longrightarrow>
    bencoded_pairs p (uk @ u @ us) ((k, v) # kvs)"

inductive_cases bencoded_itemsE: "bencoded_items p u vs"
inductive_cases bencoded_pairsE: "bencoded_pairs p u kvs"

lemma bencoded_position: "bencoded p u v \<Longrightarrow> position_in_source v = \<lparr>stat_start = p, stat_size = length u\<rparr>"
  by (cases rule: bencoded.cases) auto

section \<open>The decoders implement the grammar\<close>

lemma hd_encoders_string: "is_digit (hd (encoders_string k))"
  by (simp add: encoders_string_def hd_nat_to_string_digit)

lemma encoders_string_nonempty [simp]: "encoders_string k \<noteq> []"
  by (simp add: encoders_string_def)

lemma find_first_of_append:
  "c \<notin> set a \<Longrightarrow> find_first_of c (a @ c # b) = Some (length a)"
  by (auto simp: find_first_of_Some)

lemma find_first_ofE:
  assumes "find_first_of c xs = Some i"
  obtains b where "xs = take i xs @ c # b" and "c \<notin> set (take i xs)" and "i = length (take i xs)"
proof -
  from assms have "i < length xs" "xs ! i = c" "c \<notin> set (take i xs)"
    by (simp_all add: find_first_of_Some)
  then show thesis by (intro that [of "drop (Suc i) xs"]) (auto simp: id_take_nth_drop)
qed

lemma int_to_string_of_nat: "int_to_string (int n) = nat_to_string n"
  by (simp add: int_to_string_def)

lemma sz_of_int_of_nat: "int64 (int n) \<Longrightarrow> sz_of_int (int n) = n"
  by (simp add: int64_def sz_of_int_id)

lemma colon_notin_nat_to_string: "CHR '':'' \<notin> set (nat_to_string n)"
  using nat_to_string_digits [of n] by auto

lemma decode_string_complete:
  assumes "undecoded s = encoders_string k @ rest" and "int64 (int (length k))"
  shows "decode_string s =
    (Some (Data (String k) \<lparr>stat_start = cursor s, stat_size = length (encoders_string k)\<rparr>),
     advance (length (encoders_string k)) s)"
proof -
  let ?n = "nat_to_string (length k)"
  have view: "undecoded s = ?n @ CHR '':'' # k @ rest"
    using assms(1) by (simp add: encoders_string_def)
  have ff: "find_first_of CHR '':'' (undecoded s) = Some (length ?n)"
    unfolding view by (intro find_first_of_append colon_notin_nat_to_string)
  have "\<not> starts_with CHR ''-'' ?n"
    using hd_nat_to_string_digit [of "length k"]
    by (auto simp: starts_with_def split: list.splits)
  moreover have "get_number_if_valid ?n = Some (int (length k))"
    using assms(2) by (simp add: get_number_if_valid_iff int_to_string_of_nat)
  moreover have "2 \<le> length (undecoded s)"
    unfolding view using nat_to_string_nonempty [of "length k"] by (cases ?n) auto
  ultimately show ?thesis
    using ff assms(2)
    by (simp add: decode_string_def Let_def view sz_of_int_of_nat subspan_def encoders_string_def)
qed

lemma decode_string_sound:
  assumes "decode_string s = (Some v, s')"
  obtains k where "int64 (int (length k))" and "undecoded s = encoders_string k @ undecoded s'"
    and "s' = advance (length (encoders_string k)) s"
    and "v = Data (String k) \<lparr>stat_start = cursor s, stat_size = length (encoders_string k)\<rparr>"
proof -
  obtain i n where i: "find_first_of CHR '':'' (undecoded s) = Some i"
    and minus: "\<not> starts_with CHR ''-'' (take i (undecoded s))"
    and number: "get_number_if_valid (take i (undecoded s)) = Some n"
    and room: "sz_of_int n \<le> length (undecoded s) - (i + 1)"
    and s': "s' = advance (i + 1 + sz_of_int n) s"
    and v: "v = Data (String (subspan (i + 1) (sz_of_int n) (undecoded s)))
              \<lparr>stat_start = cursor s, stat_size = i + 1 + sz_of_int n\<rparr>"
    using assms by (auto simp: decode_string_def Let_def split: if_splits option.splits)
  obtain b where view: "undecoded s = take i (undecoded s) @ CHR '':'' # b"
    and len: "i = length (take i (undecoded s))"
    using i by (rule find_first_ofE)
  have n: "int64 n" "take i (undecoded s) = int_to_string n"
    using number by (simp_all add: get_number_if_valid_iff)
  then have "0 \<le> n" using minus by (auto simp: int_to_string_def starts_with_def split: if_splits)
  then obtain d where d: "n = int d" by (metis nonneg_int_cases)
  let ?k = "take d b"
  have i_len: "i = length (nat_to_string d)" and view': "undecoded s = nat_to_string d @ CHR '':'' # b"
    using len view unfolding n(2) d int_to_string_of_nat by simp_all
  have k: "length ?k = d"
    using room view' i_len n(1) d by (simp add: sz_of_int_of_nat)
  show thesis
  proof
    show "int64 (int (length ?k))" using n(1) d k by simp
    show "s' = advance (length (encoders_string ?k)) s"
      using s' d n(1) k i_len by (simp add: sz_of_int_of_nat encoders_string_def)
    then show "undecoded s = encoders_string ?k @ undecoded s'"
      using view' k by (simp add: encoders_string_def)
    show "v = Data (String ?k) \<lparr>stat_start = cursor s, stat_size = length (encoders_string ?k)\<rparr>"
      using v d n(1) k i_len view' by (simp add: sz_of_int_of_nat encoders_string_def subspan_def)
  qed
qed

lemma e_notin_int_to_string: "CHR ''e'' \<notin> set (int_to_string n)"
  using nat_to_string_digits [of "nat n"] nat_to_string_digits [of "nat (- n)"]
  by (auto simp: int_to_string_def)

lemma int_to_string_nonempty [simp]: "int_to_string n \<noteq> []"
  by (simp add: int_to_string_def)

lemma decode_integer_complete:
  assumes "undecoded s = encoders_integer n @ rest" and "int64 n"
  shows "decode_integer s =
    (Some (Data (Integer n) \<lparr>stat_start = cursor s, stat_size = length (encoders_integer n)\<rparr>),
     advance (length (encoders_integer n)) s)"
proof -
  have view: "undecoded s = CHR ''i'' # int_to_string n @ CHR ''e'' # rest"
    using assms(1) by (simp add: encoders_integer_def)
  have "find_first_of CHR ''e'' (undecoded (advance 1 s)) = Some (length (int_to_string n))"
    using find_first_of_append [OF e_notin_int_to_string [of n], of rest] by (simp add: view)
  moreover have "get_number_if_valid (int_to_string n) = Some n"
    using assms(2) by (simp add: get_number_if_valid_iff)
  ultimately show ?thesis
    by (simp add: decode_integer_def Let_def view starts_with_def encoders_integer_def)
qed

lemma decode_integer_sound:
  assumes "decode_integer s = (Some v, s')"
  obtains n where "int64 n" and "undecoded s = encoders_integer n @ undecoded s'"
    and "s' = advance (length (encoders_integer n)) s"
    and "v = Data (Integer n) \<lparr>stat_start = cursor s, stat_size = length (encoders_integer n)\<rparr>"
proof -
  obtain i n where start: "starts_with CHR ''i'' (undecoded s)"
    and i: "find_first_of CHR ''e'' (undecoded (advance 1 s)) = Some i"
    and number: "get_number_if_valid (take i (undecoded (advance 1 s))) = Some n"
    and s': "s' = advance (i + 1) (advance 1 s)"
    and v: "v = Data (Integer n) \<lparr>stat_start = cursor s, stat_size = i + 2\<rparr>"
    using assms by (auto simp: decode_integer_def Let_def split: if_splits option.splits)
  obtain b where view: "undecoded (advance 1 s) = take i (undecoded (advance 1 s)) @ CHR ''e'' # b"
    and len: "i = length (take i (undecoded (advance 1 s)))"
    using i by (rule find_first_ofE)
  have n: "int64 n" "take i (undecoded (advance 1 s)) = int_to_string n"
    using number by (simp_all add: get_number_if_valid_iff)
  have view': "undecoded s = CHR ''i'' # int_to_string n @ CHR ''e'' # b"
    using start view n(2) by (auto simp: starts_with_def split: list.splits)
  have i_len: "i = length (int_to_string n)" using len unfolding n(2) .
  show thesis
  proof
    show "s' = advance (length (encoders_integer n)) s"
      using s' i_len by (simp add: encoders_integer_def)
    then show "undecoded s = encoders_integer n @ undecoded s'"
      using view' by (simp add: encoders_integer_def)
    show "v = Data (Integer n) \<lparr>stat_start = cursor s, stat_size = length (encoders_integer n)\<rparr>"
      using v i_len by (simp add: encoders_integer_def)
  qed (rule n(1))
qed

text \<open>No encoding starts with the end mark, so a loop never stops in front of one.\<close>

lemma hd_encoders_string_not_e: "hd (encoders_string k) \<noteq> delimeter"
  using hd_encoders_string [of k] by auto

lemma bencoded_hd:
  assumes "bencoded p u v" shows "u \<noteq> [] \<and> hd u \<noteq> delimeter"
  using assms by cases (auto simp: encoders_integer_def hd_encoders_string_not_e)

definition grammar_value :: "source_t \<Rightarrow> data \<Rightarrow> source_t \<Rightarrow> bool" where
  "grammar_value s v s' \<longleftrightarrow>
     (\<exists>u. undecoded s = u @ undecoded s' \<and> s' = advance (length u) s \<and> bencoded (cursor s) u v)"

lemma grammar_valueI:
  "undecoded s = u @ undecoded s' \<Longrightarrow> s' = advance (length u) s \<Longrightarrow> bencoded (cursor s) u v \<Longrightarrow>
   grammar_value s v s'"
  unfolding grammar_value_def by blast

lemma decode_any_string:
  "undecoded s \<noteq> [] \<Longrightarrow> hd (undecoded s) \<notin> {header_integer, header_list, header_dictionary} \<Longrightarrow>
   decode_any s = decode_string s"
  by (cases "undecoded s") auto

declare decode_any.simps [simp del] decode_list.simps [simp del] decode_list_loop.simps [simp del]
  decode_dictionary.simps [simp del] decode_dictionary_loop.simps [simp del]

lemma starts_with_undecoded:
  "starts_with c (undecoded s) \<Longrightarrow> undecoded s = c # undecoded (advance 1 s)"
  by (auto simp: starts_with_def split: list.splits)

lemma undecoded_hd:
  "undecoded s \<noteq> [] \<Longrightarrow> hd (undecoded s) = c \<Longrightarrow> undecoded s = c # undecoded (advance 1 s)"
  by (cases "undecoded s") auto

lemma decode_sound:
  shows "decode_any s = (Some v, s') \<Longrightarrow> grammar_value s v s'"
    and "decode_list s = (Some v, s') \<Longrightarrow> grammar_value s v s'"
    and "decode_list_loop items s = (Some vs, s') \<Longrightarrow>
      \<exists>u ws. vs = items @ ws \<and> undecoded s = u @ undecoded s' \<and> s' = advance (length u) s
        \<and> bencoded_items (cursor s) u ws"
    and "decode_dictionary s = (Some v, s') \<Longrightarrow> grammar_value s v s'"
    and "decode_dictionary_loop m s = (Some m', s') \<Longrightarrow>
      \<exists>u kvs. emplace_all try_emplace kvs m = Some m' \<and> undecoded s = u @ undecoded s'
        \<and> s' = advance (length u) s \<and> bencoded_pairs (cursor s) u kvs"
proof (induction s and s and items s and s and m s arbitrary: v s' and v s' and vs s' and v s' and m' s'
    rule: decode_any_decode_list_decode_list_loop_decode_dictionary_decode_dictionary_loop.induct)
  case (1 encoded)
  from "1.prems" obtain c cs where u: "undecoded encoded = c # cs"
    by (auto simp: decode_any.simps split: list.splits)
  consider "c = header_integer" | "c = header_list" | "c = header_dictionary"
    | "c \<notin> {header_integer, header_list, header_dictionary}" by blast
  then show ?case
  proof cases
    case 1
    with "1.prems" u have "decode_integer encoded = (Some v, s')" by (simp add: decode_any.simps)
    then show ?thesis
      by (rule decode_integer_sound) (auto simp: grammar_value_def intro!: exI enc_integer)
  next
    case 4
    with "1.prems" u have "decode_string encoded = (Some v, s')" by (simp add: decode_any.simps)
    then show ?thesis
      by (rule decode_string_sound) (auto simp: grammar_value_def intro!: exI enc_string)
  qed (use 1 u in \<open>auto simp: decode_any.simps\<close>)
next
  case (2 encode)
  let ?s = "advance 1 encode"
  obtain items s1 where start: "starts_with header_list (undecoded encode)" and ne: "undecoded ?s \<noteq> []"
    and loop: "decode_list_loop [] ?s = (Some items, s1)"
    and fin: "undecoded s1 \<noteq> []" "hd (undecoded s1) = delimeter" and s': "s' = advance 1 s1"
    and v: "v = Data (List items) \<lparr>stat_start = cursor encode, stat_size = cursor s' - cursor encode\<rparr>"
    using "2.prems" by (auto simp: decode_list.simps Let_def split: if_splits prod.splits option.splits)
  have "\<not> (undecoded encode = [] \<or> \<not> starts_with header_list (undecoded encode))"
    using start by (auto simp: starts_with_def)
  from "2.IH" [OF this refl refl ne loop] obtain u where
    u: "undecoded ?s = u @ undecoded s1" "s1 = advance (length u) ?s" "bencoded_items (cursor encode + 1) u items"
    by auto
  have "undecoded encode = ([header_list] @ u @ [delimeter]) @ undecoded s'"
    using starts_with_undecoded [OF start] u(1) undecoded_hd [OF fin] s'
    by (simp del: undecoded_advance)
  then show ?case
  proof (rule grammar_valueI)
    show "s' = advance (length ([header_list] @ u @ [delimeter])) encode"
      using s' u(2) by simp
    then have "v = Data (List items) \<lparr>stat_start = cursor encode,
        stat_size = length ([header_list] @ u @ [delimeter])\<rparr>"
      using v by simp
    then show "bencoded (cursor encode) ([header_list] @ u @ [delimeter]) v"
      using enc_list [OF u(3) refl] by simp
  qed
next
  case (3 items encode)
  show ?case
  proof (cases "undecoded encode \<noteq> [] \<and> hd (undecoded encode) \<noteq> delimeter")
    case True
    with "3.prems" obtain x s1 where x: "decode_any encode = (Some x, s1)"
      and loop: "decode_list_loop (items @ [x]) s1 = (Some vs, s')"
      by (auto simp: decode_list_loop.simps [of items encode] split: prod.splits option.splits)
    obtain u where u: "undecoded encode = u @ undecoded s1" "s1 = advance (length u) encode"
      "bencoded (cursor encode) u x"
      using "3.IH"(1) [OF True x] unfolding grammar_value_def by blast
    obtain us ws where us: "vs = (items @ [x]) @ ws" "undecoded s1 = us @ undecoded s'"
      "s' = advance (length us) s1" "bencoded_items (cursor s1) us ws"
      using "3.IH"(2) [OF True x [symmetric] refl loop] by blast
    have "bencoded_items (cursor s1) us ws \<longrightarrow> bencoded_items (cursor encode) (u @ us) (x # ws)"
      using items_Cons [OF u(3), of us ws] u(2) by simp
    moreover have "undecoded encode = (u @ us) @ undecoded s'" by (simp only: u(1) us(2) append_assoc)
    moreover have "s' = advance (length (u @ us)) encode" by (simp add: u(2) us(3))
    moreover have "vs = items @ x # ws" by (simp add: us(1))
    ultimately show ?thesis using us(4) by blast
  next
    case False
    with "3.prems" show ?thesis
      by (auto simp: decode_list_loop.simps [of items encode] items_Nil intro!: exI [of _ "[]"] split: if_splits)
  qed
next
  case (4 encode)
  let ?s = "advance 1 encode"
  obtain m s1 where start: "starts_with header_dictionary (undecoded encode)" and ne: "undecoded ?s \<noteq> []"
    and loop: "decode_dictionary_loop [] ?s = (Some m, s1)"
    and fin: "undecoded s1 \<noteq> []" "hd (undecoded s1) = delimeter" and s': "s' = advance 1 s1"
    and v: "v = Data (Dictionary m) \<lparr>stat_start = cursor encode, stat_size = cursor s' - cursor encode\<rparr>"
    using "4.prems" by (auto simp: decode_dictionary.simps Let_def split: if_splits prod.splits option.splits)
  have "\<not> (undecoded encode = [] \<or> \<not> starts_with header_dictionary (undecoded encode))"
    using start by (auto simp: starts_with_def)
  from "4.IH" [OF this refl refl ne loop] obtain u kvs where
    u: "undecoded ?s = u @ undecoded s1" "s1 = advance (length u) ?s"
      "emplace_all try_emplace kvs [] = Some m" "bencoded_pairs (cursor encode + 1) u kvs"
    by auto
  have "undecoded encode = ([header_dictionary] @ u @ [delimeter]) @ undecoded s'"
    using starts_with_undecoded [OF start] u(1) undecoded_hd [OF fin] s'
    by (simp del: undecoded_advance)
  then show ?case
  proof (rule grammar_valueI)
    show "s' = advance (length ([header_dictionary] @ u @ [delimeter])) encode"
      using s' u(2) by simp
    then have "v = Data (Dictionary m) \<lparr>stat_start = cursor encode,
        stat_size = length ([header_dictionary] @ u @ [delimeter])\<rparr>"
      using v by simp
    then show "bencoded (cursor encode) ([header_dictionary] @ u @ [delimeter]) v"
      using enc_dictionary [OF u(4) u(3) refl] by simp
  qed
next
  case (5 m encode)
  show ?case
  proof (cases "undecoded encode \<noteq> [] \<and> hd (undecoded encode) \<noteq> delimeter")
    case True
    with "5.prems" obtain kd s1 x s2 key m1 where kd: "decode_string encode = (Some kd, s1)"
      and x: "decode_any s1 = (Some x, s2)" and key: "get_as_string kd = Inr key"
      and te: "try_emplace key x m = (m1, True)"
      and loop: "decode_dictionary_loop m1 s2 = (Some m', s')"
      by (auto simp: decode_dictionary_loop.simps [of m encode]
          split: prod.splits option.splits sum.splits if_splits)
    obtain k where k: "int64 (int (length k))" "undecoded encode = encoders_string k @ undecoded s1"
      "s1 = advance (length (encoders_string k)) encode"
      and kd': "kd = Data (String k) \<lparr>stat_start = cursor encode, stat_size = length (encoders_string k)\<rparr>"
      using kd by (rule decode_string_sound)
    have key_k: "key = k" using key kd' by simp
    obtain u where u: "undecoded s1 = u @ undecoded s2" "s2 = advance (length u) s1" "bencoded (cursor s1) u x"
      using "5.IH"(1) [OF True kd [symmetric] refl x] unfolding grammar_value_def by blast
    obtain us kvs where us: "emplace_all try_emplace kvs m1 = Some m'" "undecoded s2 = us @ undecoded s'"
      "s' = advance (length us) s2" "bencoded_pairs (cursor s2) us kvs"
      using "5.IH"(2) [OF True kd [symmetric] refl x [symmetric] refl key te [symmetric] _ loop] by blast
    let ?u = "encoders_string k @ u @ us"
    have "bencoded_pairs (cursor encode) ?u ((k, x) # kvs)"
      using pairs_Cons [OF k(1) refl, of "cursor encode" u x us kvs] k(3) u(2,3) us(4)
      by (simp add: add.assoc)
    moreover have "undecoded encode = ?u @ undecoded s'" by (simp only: k(2) u(1) us(2) append_assoc)
    moreover have "s' = advance (length ?u) encode" by (simp add: k(3) u(2) us(3) add.assoc)
    moreover have "emplace_all try_emplace ((k, x) # kvs) m = Some m'" using te us(1) key_k by simp
    ultimately show ?thesis by blast
  next
    case False
    with "5.prems" show ?thesis
      by (auto simp: decode_dictionary_loop.simps [of m encode] pairs_Nil
          intro!: exI [of _ "[]"] split: if_splits)
  qed
qed

lemma decode_any_list: "undecoded s = header_list # cs \<Longrightarrow> decode_any s = decode_list s"
  by (simp add: decode_any.simps)

lemma decode_any_integer: "undecoded s = header_integer # cs \<Longrightarrow> decode_any s = decode_integer s"
  by (simp add: decode_any.simps)

lemma decode_any_dictionary: "undecoded s = header_dictionary # cs \<Longrightarrow> decode_any s = decode_dictionary s"
  by (simp add: decode_any.simps)

lemma decode_any_key: "undecoded s = encoders_string k @ rest \<Longrightarrow> decode_any s = decode_string s"
  using hd_encoders_string [of k]
  by (cases "encoders_string k") (auto simp: decode_any.simps is_digit_def)

lemma decode_complete:
  shows "bencoded p u v \<Longrightarrow>
      (\<And>s rest. cursor s = p \<Longrightarrow> undecoded s = u @ rest \<Longrightarrow> decode_any s = (Some v, advance (length u) s))"
    and "bencoded_items p u vs \<Longrightarrow>
      (\<And>s rest items. cursor s = p \<Longrightarrow> undecoded s = u @ delimeter # rest \<Longrightarrow>
        decode_list_loop items s = (Some (items @ vs), advance (length u) s))"
    and "bencoded_pairs p u kvs \<Longrightarrow>
      (\<And>s rest m m'. cursor s = p \<Longrightarrow> undecoded s = u @ delimeter # rest \<Longrightarrow>
        emplace_all try_emplace kvs m = Some m' \<Longrightarrow>
        decode_dictionary_loop m s = (Some m', advance (length u) s))"
proof (induction rule: bencoded_bencoded_items_bencoded_pairs.inducts)
  case (enc_integer n u p)
  then show ?case
    using decode_integer_complete [of s n rest] decode_any_integer [of s]
    by (simp add: encoders_integer_def)
next
  case (enc_string k u p)
  then show ?case
    using decode_string_complete [of s k rest] decode_any_key [of s k rest] by simp
next
  case (enc_list p us vs u)
  let ?s = "advance 1 s"
  have view: "undecoded s = header_list # us @ delimeter # rest" using enc_list by simp
  have "decode_list_loop [] ?s = (Some ([] @ vs), advance (length us) ?s)"
    by (rule enc_list.IH [of _ rest]) (use enc_list.prems view in simp_all)
  then show ?case
    using view enc_list
    by (simp add: decode_any_list decode_list.simps Let_def starts_with_def add.commute)
next
  case (enc_dictionary p us kvs m u)
  let ?s = "advance 1 s"
  have view: "undecoded s = header_dictionary # us @ delimeter # rest" using enc_dictionary by simp
  have "decode_dictionary_loop [] ?s = (Some m, advance (length us) ?s)"
    by (rule enc_dictionary.IH [of _ rest]) (use enc_dictionary.prems enc_dictionary.hyps view in simp_all)
  then show ?case
    using view enc_dictionary
    by (simp add: decode_any_dictionary decode_dictionary.simps Let_def starts_with_def add.commute)
next
  case (items_Nil p)
  then show ?case by (simp add: decode_list_loop.simps)
next
  case (items_Cons p u v us vs)
  have u: "u \<noteq> []" "hd u \<noteq> delimeter" using bencoded_hd [OF items_Cons.hyps(1)] by auto
  have v: "decode_any s = (Some v, advance (length u) s)"
    using items_Cons.IH(1) [of s "us @ delimeter # rest"] items_Cons.prems by simp
  have rest: "decode_list_loop (items @ [v]) (advance (length u) s) =
      (Some ((items @ [v]) @ vs), advance (length us) (advance (length u) s))"
    by (rule items_Cons.IH(2) [of _ rest]) (use items_Cons.prems in simp_all)
  have "undecoded s \<noteq> [] \<and> hd (undecoded s) \<noteq> delimeter"
    using u items_Cons.prems by simp
  with v rest show ?case by (simp add: decode_list_loop.simps [of items s])
next
  case (pairs_Nil p)
  then show ?case by (simp add: decode_dictionary_loop.simps)
next
  case (pairs_Cons k uk p u v us kvs)
  let ?s = "advance (length uk) s"
  obtain m1 where te: "try_emplace k v m = (m1, True)" and more: "emplace_all try_emplace kvs m1 = Some m'"
    using pairs_Cons.prems(3) by (auto split: prod.splits if_splits)
  have view: "undecoded s = encoders_string k @ u @ us @ delimeter # rest"
    using pairs_Cons.prems(2) pairs_Cons.hyps(2) by simp
  have key: "decode_string s = (Some (Data (String k) \<lparr>stat_start = cursor s, stat_size = length uk\<rparr>), ?s)"
    using decode_string_complete [OF view pairs_Cons.hyps(1)] pairs_Cons.hyps(2) by simp
  have v: "decode_any ?s = (Some v, advance (length u) ?s)"
    by (rule pairs_Cons.IH(1) [of _ "us @ delimeter # rest"])
       (use pairs_Cons.prems pairs_Cons.hyps(2) in simp_all)
  have rest: "decode_dictionary_loop m1 (advance (length u) ?s) =
      (Some m', advance (length us) (advance (length u) ?s))"
    by (rule pairs_Cons.IH(2) [of _ rest, OF _ _ more]) (use pairs_Cons.prems in simp_all)
  have "undecoded s \<noteq> [] \<and> hd (undecoded s) \<noteq> delimeter"
    using view hd_encoders_string_not_e [of k] by simp
  with key v te rest show ?case by (simp add: decode_dictionary_loop.simps [of m s] add.assoc)
qed

lemma decode_input_iff: "decode_input t = Some v \<longleftrightarrow> bencoded 0 t v"
proof
  assume "decode_input t = Some v"
  then obtain s' where r: "decode_any \<lparr>source = t, cursor = 0\<rparr> = (Some v, s')" and all: "cursor s' = length t"
    by (auto simp: decode_input_def split: prod.splits if_splits)
  let ?s = "\<lparr>source = t, cursor = 0\<rparr>"
  obtain u where u: "undecoded ?s = u @ undecoded s'" "s' = advance (length u) ?s" "bencoded (cursor ?s) u v"
    using decode_sound(1) [OF r] unfolding grammar_value_def by (elim exE conjE)
  have "length u = length t" using all by (simp add: u(2))
  then have "undecoded s' = []" using u(2) by (simp add: undecoded_def)
  then have "t = u" using u(1) by (simp add: undecoded_def)
  with u(3) show "bencoded 0 t v" by simp
next
  assume "bencoded 0 t v"
  then have "decode_any \<lparr>source = t, cursor = 0\<rparr> = (Some v, advance (length t) \<lparr>source = t, cursor = 0\<rparr>)"
    by (rule decode_complete(1) [of 0 t v _ "[]"]) (simp_all add: undecoded_def)
  then show "decode_input t = Some v" by (simp add: decode_input_def)
qed

section \<open>Values up to their positions\<close>

fun erase :: "data \<Rightarrow> data" where
  "erase (Data (Integer n) _) = Data (Integer n) no_position"
| "erase (Data (String s) _) = Data (String s) no_position"
| "erase (Data (List xs) _) = Data (List (map erase xs)) no_position"
| "erase (Data (Dictionary m) _) = Data (Dictionary (map (\<lambda>(k, v). (k, erase v)) m)) no_position"

text \<open>The text a client builds for a value with the four encoders.\<close>

fun bencode :: "data \<Rightarrow> string" where
  "bencode (Data (Integer n) _) = encoders_integer n"
| "bencode (Data (String s) _) = encoders_string s"
| "bencode (Data (List xs) _) = encoders_list (map bencode xs)"
| "bencode (Data (Dictionary m) _) =
     encoders_dictionary (map (\<lambda>(k, v). \<lparr>dict_key = k, bencoded_value = bencode v\<rparr>) m)"

text \<open>Values the C++ types can hold: 64-bit integers, sorted unique keys.\<close>

fun wf_data :: "data \<Rightarrow> bool" where
  "wf_data (Data (Integer n) _) = int64 n"
| "wf_data (Data (String s) _) = int64 (int (length s))"
| "wf_data (Data (List xs) _) = list_all wf_data xs"
| "wf_data (Data (Dictionary m) _) =
     (sorted_wrt (<) (map fst m) \<and> list_all (\<lambda>(k, v). int64 (int (length k)) \<and> wf_data v) m)"

inductive subvalue :: "data \<Rightarrow> data \<Rightarrow> bool" where
  sub_refl: "subvalue d d"
| sub_item: "x \<in> set xs \<Longrightarrow> subvalue d x \<Longrightarrow> subvalue d (Data (List xs) pos)"
| sub_entry: "(k, x) \<in> set m \<Longrightarrow> subvalue d x \<Longrightarrow> subvalue d (Data (Dictionary m) pos)"

inductive_cases subvalue_listE: "subvalue d (Data (List xs) pos)"
inductive_cases subvalue_dictionaryE: "subvalue d (Data (Dictionary m) pos)"
inductive_cases subvalue_integerE: "subvalue d (Data (Integer n) pos)"
inductive_cases subvalue_stringE: "subvalue d (Data (String s) pos)"

lemma emplace_all_entries:
  assumes "emplace_all try_emplace kvs [] = Some m" and "(k, x) \<in> set m"
  shows "(k, x) \<in> set kvs"
proof -
  have "sorted_wrt (<) (map fst m)" and eq: "map_of m = map_of kvs"
    using std_map.emplace_all_Some [OF _ assms(1)] by auto
  then have "distinct (map fst m)" by (simp add: strict_sorted_iff)
  then have "map_of kvs k = Some x" using assms(2) eq by (metis map_of_is_SomeI)
  then show ?thesis by (rule map_of_SomeD)
qed

definition has_slice :: "nat \<Rightarrow> string \<Rightarrow> data \<Rightarrow> bool" where
  "has_slice p u d \<longleftrightarrow> (\<exists>a w c. u = a @ w @ c \<and> bencoded (p + length a) w d)"

lemma has_slice_self: "bencoded p u d \<Longrightarrow> has_slice p u d"
  unfolding has_slice_def by (intro exI [of _ "[]"] exI [of _ u]) simp

lemma has_slice_within: "has_slice (p + length a) u d \<Longrightarrow> has_slice p (a @ u @ c) d"
  unfolding has_slice_def
proof (elim exE conjE)
  fix a' w c' assume "u = a' @ w @ c'" "bencoded (p + length a + length a') w d"
  then show "\<exists>a'' w c''. a @ u @ c = a'' @ w @ c'' \<and> bencoded (p + length a'') w d"
    by (intro exI [of _ "a @ a'"] exI [of _ w] exI [of _ "c' @ c"]) (simp add: add.assoc)
qed

lemma subvalue_slice:
  shows "bencoded p u v \<Longrightarrow> (\<And>d. subvalue d v \<Longrightarrow> has_slice p u d)"
    and "bencoded_items p u vs \<Longrightarrow> (\<And>x d. x \<in> set vs \<Longrightarrow> subvalue d x \<Longrightarrow> has_slice p u d)"
    and "bencoded_pairs p u kvs \<Longrightarrow> (\<And>key x d. (key, x) \<in> set kvs \<Longrightarrow> subvalue d x \<Longrightarrow> has_slice p u d)"
proof (induction rule: bencoded_bencoded_items_bencoded_pairs.inducts)
  case (enc_integer n u p)
  then show ?case by (auto elim!: subvalue_integerE intro!: has_slice_self bencoded_bencoded_items_bencoded_pairs.enc_integer)
next
  case (enc_string k u p)
  then show ?case by (auto elim!: subvalue_stringE intro!: has_slice_self bencoded_bencoded_items_bencoded_pairs.enc_string)
next
  case (enc_list p us vs u)
  have self: "bencoded p u (Data (List vs) \<lparr>stat_start = p, stat_size = length u\<rparr>)"
    using enc_list.hyps by (rule bencoded_bencoded_items_bencoded_pairs.enc_list)
  from enc_list.prems show ?case
  proof (rule subvalue_listE)
    fix x assume "x \<in> set vs" "subvalue d x"
    then have "has_slice (p + length [header_list]) us d" using enc_list.IH by simp
    from has_slice_within [OF this, of "[delimeter]"] show ?thesis using enc_list.hyps by simp
  qed (use self has_slice_self in blast)
next
  case (enc_dictionary p us kvs m u)
  have self: "bencoded p u (Data (Dictionary m) \<lparr>stat_start = p, stat_size = length u\<rparr>)"
    using enc_dictionary.hyps by (rule bencoded_bencoded_items_bencoded_pairs.enc_dictionary)
  from enc_dictionary.prems show ?case
  proof (rule subvalue_dictionaryE)
    fix k x assume "(k, x) \<in> set m" "subvalue d x"
    then have "has_slice (p + length [header_dictionary]) us d"
      using enc_dictionary.IH [OF emplace_all_entries [OF enc_dictionary.hyps(2)], of k x d] by simp
    from has_slice_within [OF this, of "[delimeter]"] show ?thesis using enc_dictionary.hyps by simp
  qed (use self has_slice_self in blast)
next
  case (items_Cons p u v us vs)
  show ?case
  proof (cases "x = v")
    case True
    then have "has_slice (p + length []) u d" using items_Cons by simp
    from has_slice_within [OF this, of us] show ?thesis by simp
  next
    case False
    then have "has_slice (p + length u) us d" using items_Cons by simp
    from has_slice_within [OF this, of "[]"] show ?thesis by simp
  qed
next
  case (pairs_Cons k uk p u v us kvs)
  show ?case
  proof (cases "(key, x) = (k, v)")
    case True
    then have "has_slice (p + length uk) u d" using pairs_Cons by simp
    from has_slice_within [OF this, of us] show ?thesis by simp
  next
    case False
    then have "has_slice (p + length (uk @ u)) us d" using pairs_Cons by (auto simp: add.assoc)
    from has_slice_within [OF this, of "[]"] show ?thesis by simp
  qed
qed simp_all


section \<open>Moving an encoding\<close>

lemma exI_conj: "P x \<Longrightarrow> Q x \<Longrightarrow> \<exists>x. P x \<and> Q x"
  by blast

lemma try_emplace_map:
  "try_emplace k (f v) (map (\<lambda>(k, v). (k, f v)) m) =
     (map (\<lambda>(k, v). (k, f v)) (fst (try_emplace k v m)), snd (try_emplace k v m))"
  by (induction k v m rule: try_emplace.induct) (auto split: prod.splits)

lemma emplace_all_map:
  "emplace_all try_emplace (map (\<lambda>(k, v). (k, f v)) kvs) (map (\<lambda>(k, v). (k, f v)) m) =
     map_option (map (\<lambda>(k, v). (k, f v))) (emplace_all try_emplace kvs m)"
proof (induction kvs arbitrary: m)
  case (Cons kv kvs)
  obtain k v where kv: "kv = (k, v)" by fastforce
  obtain m' u where te: "try_emplace k v m = (m', u)" by fastforce
  show ?case using Cons.IH [of m'] try_emplace_map [of k f v m] kv te by simp
qed simp

definition erase_pairs :: "(string \<times> data) list \<Rightarrow> (string \<times> data) list" where
  "erase_pairs kvs = map (\<lambda>(k, v). (k, erase v)) kvs"

lemma emplace_all_erase:
  assumes "erase_pairs kvs' = erase_pairs kvs" and "emplace_all try_emplace kvs [] = Some m"
  obtains m' where "emplace_all try_emplace kvs' [] = Some m'" and "erase_pairs m' = erase_pairs m"
proof -
  have "emplace_all try_emplace (erase_pairs kvs') (erase_pairs []) = Some (erase_pairs m)"
    using assms emplace_all_map [of erase kvs "[]"] by (simp add: erase_pairs_def)
  then have "map_option erase_pairs (emplace_all try_emplace kvs' []) = Some (erase_pairs m)"
    using emplace_all_map [of erase kvs' "[]"]
    by (simp add: erase_pairs_def [abs_def])
  then show thesis using that by auto
qed

lemma bencoded_move:
  shows "bencoded p u v \<Longrightarrow> (\<And>q. \<exists>v'. bencoded q u v' \<and> erase v' = erase v)"
    and "bencoded_items p u vs \<Longrightarrow> (\<And>q. \<exists>vs'. bencoded_items q u vs' \<and> map erase vs' = map erase vs)"
    and "bencoded_pairs p u kvs \<Longrightarrow>
      (\<And>q. \<exists>kvs'. bencoded_pairs q u kvs' \<and> erase_pairs kvs' = erase_pairs kvs)"
proof (induction rule: bencoded_bencoded_items_bencoded_pairs.inducts)
  case (enc_integer n u p)
  from bencoded_bencoded_items_bencoded_pairs.enc_integer [OF this, of q]
  show ?case by (rule exI_conj) simp
next
  case (enc_string k u p)
  from bencoded_bencoded_items_bencoded_pairs.enc_string [OF this, of q]
  show ?case by (rule exI_conj) simp
next
  case (enc_list p us vs u)
  obtain vs' where vs': "bencoded_items (q + 1) us vs'" "map erase vs' = map erase vs"
    using enc_list.IH by blast
  from bencoded_bencoded_items_bencoded_pairs.enc_list [OF vs'(1) enc_list.hyps(2)]
  show ?case by (rule exI_conj) (simp add: vs'(2))
next
  case (enc_dictionary p us kvs m u)
  obtain kvs' where kvs': "bencoded_pairs (q + 1) us kvs'" "erase_pairs kvs' = erase_pairs kvs"
    using enc_dictionary.IH by blast
  obtain m' where m': "emplace_all try_emplace kvs' [] = Some m'" "erase_pairs m' = erase_pairs m"
    using kvs'(2) enc_dictionary.hyps(2) by (rule emplace_all_erase)
  from bencoded_bencoded_items_bencoded_pairs.enc_dictionary [OF kvs'(1) m'(1) enc_dictionary.hyps(3)]
  show ?case by (rule exI_conj) (use m'(2) in \<open>simp add: erase_pairs_def\<close>)
next
  case (items_Nil p)
  show ?case by (auto intro: bencoded_bencoded_items_bencoded_pairs.items_Nil)
next
  case (items_Cons p u v us vs)
  obtain v' vs' where "bencoded q u v'" "erase v' = erase v"
    "bencoded_items (q + length u) us vs'" "map erase vs' = map erase vs"
    using items_Cons.IH by blast
  then show ?case
    by (intro exI [of _ "v' # vs'"]) (auto intro: bencoded_bencoded_items_bencoded_pairs.items_Cons)
next
  case (pairs_Nil p)
  show ?case by (auto intro: bencoded_bencoded_items_bencoded_pairs.pairs_Nil)
next
  case (pairs_Cons k uk p u v us kvs)
  obtain v' kvs' where "bencoded (q + length uk) u v'" "erase v' = erase v"
    "bencoded_pairs (q + length uk + length u) us kvs'" "erase_pairs kvs' = erase_pairs kvs"
    using pairs_Cons.IH by blast
  with pairs_Cons.hyps show ?case
    by (intro exI [of _ "(k, v') # kvs'"])
       (auto simp: erase_pairs_def intro!: bencoded_bencoded_items_bencoded_pairs.pairs_Cons)
qed

section \<open>The encoders produce the grammar\<close>

lemma foldl_append_concat: "foldl (@) a xs = a @ concat xs"
  by (induction xs arbitrary: a) auto

lemma foldl_pairs:
  "foldl (\<lambda>res pair. res @ f pair @ g pair) a ps = a @ concat (map (\<lambda>pair. f pair @ g pair) ps)"
  by (induction ps arbitrary: a) auto

lemma emplace_all_sorted:
  "sorted_wrt (<) (map fst (m @ kvs)) \<Longrightarrow> emplace_all try_emplace kvs m = Some (m @ kvs)"
proof (induction kvs arbitrary: m)
  case (Cons kv kvs)
  obtain k v where kv: "kv = (k, v)" by fastforce
  have "\<forall>x \<in> set m. fst x < k \<Longrightarrow> try_emplace k v m = (m @ [(k, v)], True)"
    by (induction k v m rule: try_emplace.induct) auto
  moreover have "\<forall>x \<in> set m. fst x < k" using Cons.prems kv by (auto simp: sorted_wrt_append)
  ultimately show ?case using Cons.IH [of "m @ [(k, v)]"] Cons.prems kv by simp
qed simp

lemma bencoded_items_intro:
  "(\<And>v p. v \<in> set vs \<Longrightarrow> \<exists>v'. bencoded p (f v) v' \<and> erase v' = erase v) \<Longrightarrow>
   \<exists>vs'. bencoded_items p (concat (map f vs)) vs' \<and> map erase vs' = map erase vs"
proof (induction vs arbitrary: p)
  case Nil
  show ?case by (auto intro: items_Nil)
next
  case (Cons v vs)
  obtain v' where "bencoded p (f v) v'" "erase v' = erase v" using Cons.prems by force
  moreover obtain vs' where "bencoded_items (p + length (f v)) (concat (map f vs)) vs'"
    "map erase vs' = map erase vs"
    using Cons.IH [of "p + length (f v)"] Cons.prems by auto
  ultimately show ?case by (intro exI [of _ "v' # vs'"]) (auto intro: items_Cons)
qed

lemma bencoded_pairs_intro:
  "(\<And>k v p. (k, v) \<in> set kvs \<Longrightarrow>
      int64 (int (length k)) \<and> (\<exists>v'. bencoded p (f v) v' \<and> erase v' = erase v)) \<Longrightarrow>
   \<exists>kvs'. bencoded_pairs p (concat (map (\<lambda>(k, v). encoders_string k @ f v) kvs)) kvs'
     \<and> erase_pairs kvs' = erase_pairs kvs"
proof (induction kvs arbitrary: p)
  case Nil
  show ?case by (auto intro: pairs_Nil)
next
  case (Cons kv kvs)
  obtain k v where kv: "kv = (k, v)" by fastforce
  let ?q = "p + length (encoders_string k)"
  have k: "int64 (int (length k))" using Cons.prems [of k v p] kv by simp
  obtain v' where v': "bencoded ?q (f v) v'" "erase v' = erase v"
    using Cons.prems [of k v ?q] kv by auto
  obtain kvs' where "bencoded_pairs (?q + length (f v))
      (concat (map (\<lambda>(k, v). encoders_string k @ f v) kvs)) kvs'" "erase_pairs kvs' = erase_pairs kvs"
    using Cons.IH [of "?q + length (f v)"] Cons.prems by (metis list.set_intros(2))
  with pairs_Cons [OF k refl v'(1)] v'(2) kv show ?case
    by (intro exI [of _ "(k, v') # kvs'"]) (auto simp: erase_pairs_def)
qed

lemma bencode_bencoded: "wf_data v \<Longrightarrow> \<exists>v'. bencoded p (bencode v) v' \<and> erase v' = erase v"
proof (induction v arbitrary: p rule: bencode.induct)
  case (1 n pos)
  then show ?case using enc_integer [OF _ refl, of n p] by (intro exI_conj) auto
next
  case (2 s pos)
  then show ?case using enc_string [OF _ refl, of s p] by (intro exI_conj) auto
next
  case (3 xs pos)
  then obtain vs' where vs': "bencoded_items (p + 1) (concat (map bencode xs)) vs'"
    "map erase vs' = map erase xs"
    using bencoded_items_intro [of xs bencode "p + 1"] by (auto simp: list_all_iff)
  have "bencode (Data (List xs) pos) = [header_list] @ concat (map bencode xs) @ [delimeter]"
    by (simp add: encoders_list_def foldl_append_concat)
  from enc_list [OF vs'(1) this] vs'(2) show ?case by (intro exI_conj) auto
next
  case (4 m pos)
  then obtain kvs' where kvs': "bencoded_pairs (p + 1)
      (concat (map (\<lambda>(k, v). encoders_string k @ bencode v) m)) kvs'" "erase_pairs kvs' = erase_pairs m"
    using bencoded_pairs_intro [of m bencode "p + 1"] by (fastforce simp: list_all_iff)
  have "emplace_all try_emplace m [] = Some m" using 4(2) emplace_all_sorted [of "[]" m] by simp
  with kvs'(2) obtain m' where m': "emplace_all try_emplace kvs' [] = Some m'" "erase_pairs m' = erase_pairs m"
    by (rule emplace_all_erase)
  have "sorted (map fst m)" using 4(2) by (simp add: strict_sorted_iff)
  then have "sort_key dict_key (map (\<lambda>(k, v). \<lparr>dict_key = k, bencoded_value = bencode v\<rparr>) m) =
      map (\<lambda>(k, v). \<lparr>dict_key = k, bencoded_value = bencode v\<rparr>) m"
    by (intro sort_key_id_if_sorted) (simp add: comp_def case_prod_beta)
  then have "bencode (Data (Dictionary m) pos) =
      [header_dictionary] @ concat (map (\<lambda>(k, v). encoders_string k @ bencode v) m) @ [delimeter]"
    by (simp add: encoders_dictionary_def foldl_pairs comp_def case_prod_beta case_prod_unfold)
  from enc_dictionary [OF kvs'(1) m'(1) this] m'(2) show ?case
    by (intro exI_conj) (auto simp: erase_pairs_def)
qed

section \<open>Bendata.cpp: printing\<close>

text \<open>\<open>operator<<\<close>: the elements of a list and of a dictionary are separated by a comma.\<close>

fun join_comma :: "string list \<Rightarrow> string" where
  "join_comma [] = []"
| "join_comma [x] = x"
| "join_comma (x # y # xs) = x @ '', '' @ join_comma (y # xs)"

fun print_data :: "data \<Rightarrow> string" where
  "print_data (Data (String s) _) = [CHR 0x22] @ s @ [CHR 0x22]"
| "print_data (Data (Integer n) _) = int_to_string n"
| "print_data (Data (List xs) _) = ''['' @ join_comma (map print_data xs) @ '']''"
| "print_data (Data (Dictionary m) _) =
     ''{'' @ join_comma (map (\<lambda>(k, v). k @ '' : '' @ print_data v) m) @ ''}''"


section \<open>Properties\<close>

lemma value_slice:
  assumes "decode_input t = Some v" and "subvalue d v"
  shows "stat_start (position_in_source d) + stat_size (position_in_source d) \<le> length t
    \<and> (\<exists>d'. decode_input (subspan (stat_start (position_in_source d)) (stat_size (position_in_source d)) t) = Some d'
          \<and> erase d' = erase d)"
proof -
  have "has_slice 0 t d" using subvalue_slice(1) assms by (simp add: decode_input_iff)
  then obtain a w c where t: "t = a @ w @ c" and w: "bencoded (length a) w d"
    by (auto simp: has_slice_def)
  have "position_in_source d = \<lparr>stat_start = length a, stat_size = length w\<rparr>"
    using w by (rule bencoded_position)
  moreover obtain d' where "bencoded 0 w d'" "erase d' = erase d"
    using bencoded_move(1) [OF w] by blast
  ultimately show ?thesis using t by (auto simp: subspan_append_mid decode_input_iff)
qed

text \<open>C14: the decoder returns a value for a text exactly when the text is an encoding of that
  value in the grammar: canonical 64-bit integers, strings with their length, lists, and
  dictionaries without duplicate keys; the text is consumed to its end and every value
  carries the position of its own encoding.\<close>

theorem decode_input_grammar: "decode_input t = Some v \<longleftrightarrow> bencoded 0 t v"
  by (rule decode_input_iff)

text \<open>C28: what the four encoders produce for a value the C++ types can hold decodes to
  that value again (up to the recorded positions).\<close>

theorem decode_encode_roundtrip:
  assumes "wf_data v"
  shows "\<exists>v'. decode_input (bencode v) = Some v' \<and> erase v' = erase v"
  using bencode_bencoded [OF assms] by (simp add: decode_input_iff)

theorem decode_encode_roundtrip_witness:
  "\<exists>v'. decode_input (bencode (Data (Dictionary [(''a'', data_of_integer 7), (''b'', data_of_string ''x'')]) no_position)) = Some v'
     \<and> erase v' = erase (Data (Dictionary [(''a'', data_of_integer 7), (''b'', data_of_string ''x'')]) no_position)"
  by (rule decode_encode_roundtrip) (simp add: data_of_integer_def data_of_string_def int64_def list_less_def)

text \<open>The position recorded with any value nested in a decoded one delimits, inside the
  source, a text that decodes to the same value on its own: the slice the torrent reader
  hashes for the info hash.\<close>

lemma position_slice_decodes:
  assumes "decode_input t = Some v" and "subvalue d v"
  shows "stat_start (position_in_source d) + stat_size (position_in_source d) \<le> length t
    \<and> (\<exists>d'. decode_input (subspan (stat_start (position_in_source d)) (stat_size (position_in_source d)) t) = Some d'
          \<and> erase d' = erase d)"
  using assms by (rule value_slice)

text \<open>A number is accepted exactly when it is the canonical decimal text of a 64-bit
  integer: no leading zeros, no minus zero, no other character, no overflow.\<close>

lemma number_text_canonical:
  "get_number_if_valid str = Some n \<longleftrightarrow> int64 n \<and> str = int_to_string n"
  by (rule get_number_if_valid_iff)

end
