(* ===== verification/DynamicBitset.thy ===== *)
theory DynamicBitset
  imports Interfaces
begin

text \<open>
  \<^verbatim>\<open>src/Client/DynamicBitset.hpp\<close>, \<^verbatim>\<open>DynamicBitset.cpp\<close> and \<^verbatim>\<open>hwtonw.hpp\<close>: the bitfield of
  pieces.  Bit \<open>i\<close> of the set is bit \<open>63 - i mod 64\<close> of word \<open>i div 64\<close>.  The model keeps the words,
  the iterator with its cached word (whose dereference consumes the bit it returns), and the
  two payload codecs.  The abstraction \<open>members\<close> is the set of indices a bitset holds; every
  operation is shown to act on it, the iterator to list it in order, and the codecs to be
  inverse, in chunks of any size.
\<close>

unbundle bit_operations_syntax

section \<open>Words of the standard library's bit header\<close>

definition popcount :: "u64 \<Rightarrow> nat" where
  "popcount w = length (filter (bit w) [0..<64])"

definition countl_zero :: "u64 \<Rightarrow> nat" where
  "countl_zero w = length (takeWhile (\<lambda>j. \<not> bit w (63 - j)) [0..<64])"

definition countl_one :: "u64 \<Rightarrow> nat" where
  "countl_one w = length (takeWhile (\<lambda>j. bit w (63 - j)) [0..<64])"

definition uint64_max :: u64 where
  "uint64_max = - 1"

text \<open>\<open>std::uint64_t(1) << i\<close>.\<close>

definition one_at :: "nat \<Rightarrow> u64" where
  "one_at i = push_bit i 1"

section \<open>The state and its operations\<close>

record bitset =
  bitfield :: "u64 list"
  bit_length :: nat

definition words_length :: "nat \<Rightarrow> nat" where
  "words_length n = n div 64 + (if n mod 64 \<noteq> 0 then 1 else 0)"

definition bytes_length :: "nat \<Rightarrow> nat" where
  "bytes_length n = n div 8 + (if n mod 8 \<noteq> 0 then 1 else 0)"

definition get_index :: "nat \<Rightarrow> nat \<times> nat" where
  "get_index index = (index div 64, 63 - index mod 64)"

definition npos :: nat where
  "npos = sz_modulus - 1"

definition bitset_of_count :: "nat \<Rightarrow> bitset" where
  "bitset_of_count count = \<lparr>bitfield = replicate (words_length count) 0, bit_length = count\<rparr>"

definition bs_size :: "bitset \<Rightarrow> nat" where
  "bs_size s = bit_length s"

definition test :: "bitset \<Rightarrow> nat \<Rightarrow> bool" where
  "test s index =
     (if bit_length s \<le> index then False
      else case get_index index of (word_index, i) \<Rightarrow>
        bitfield s ! word_index AND one_at i \<noteq> 0)"

definition bs_set :: "nat \<Rightarrow> bitset \<Rightarrow> bitset" where
  "bs_set index s =
     (if bit_length s \<le> index then s
      else case get_index index of (word_index, i) \<Rightarrow>
        s\<lparr>bitfield := (bitfield s)[word_index := bitfield s ! word_index OR one_at i]\<rparr>)"

definition bs_reset :: "nat \<Rightarrow> bitset \<Rightarrow> bitset" where
  "bs_reset index s =
     (if bit_length s \<le> index then s
      else case get_index index of (word_index, i) \<Rightarrow>
        s\<lparr>bitfield := (bitfield s)[word_index := bitfield s ! word_index AND NOT (one_at i)]\<rparr>)"

definition clear :: "bitset \<Rightarrow> bitset" where
  "clear s = s\<lparr>bitfield := map (\<lambda>_. 0) (bitfield s)\<rparr>"

definition bs_count :: "bitset \<Rightarrow> nat" where
  "bs_count s = foldl (\<lambda>set_bits w. set_bits + popcount w) 0 (bitfield s)"

definition any :: "bitset \<Rightarrow> bool" where
  "any s = list_ex (\<lambda>w. w \<noteq> 0) (bitfield s)"

definition none :: "bitset \<Rightarrow> bool" where
  "none s = (\<not> any s)"

definition all :: "bitset \<Rightarrow> bool" where
  "all s =
     (if bit_length s = 0 then True
      else if \<not> list_all (\<lambda>w. w = uint64_max) (butlast (bitfield s)) then False
      else if bit_length s mod 64 \<noteq> 0 then countl_one (last (bitfield s)) = bit_length s mod 64
      else last (bitfield s) = uint64_max)"

definition or_assign :: "bitset \<Rightarrow> bitset \<Rightarrow> fault + bitset" where
  "or_assign s other =
     (if bit_length s \<noteq> bit_length other then Inl Assertion_failed
      else Inr (s\<lparr>bitfield := map (\<lambda>i. bitfield s ! i OR bitfield other ! i) [0..<length (bitfield s)]\<rparr>))"

definition and_assign :: "bitset \<Rightarrow> bitset \<Rightarrow> fault + bitset" where
  "and_assign s other =
     (if bit_length s \<noteq> bit_length other then Inl Assertion_failed
      else Inr (s\<lparr>bitfield := map (\<lambda>i. bitfield s ! i AND bitfield other ! i) [0..<length (bitfield s)]\<rparr>))"

definition bs_or :: "bitset \<Rightarrow> bitset \<Rightarrow> fault + bitset" where
  "bs_or s other = (let newset = s in or_assign newset other)"

definition bs_and :: "bitset \<Rightarrow> bitset \<Rightarrow> fault + bitset" where
  "bs_and s other = (let newset = s in and_assign newset other)"

definition print_lines :: "bitset \<Rightarrow> string list" where
  "print_lines s =
     map (\<lambda>w. map (\<lambda>j. if bit w (63 - j) then CHR ''1'' else CHR ''0'') [0..<64]) (bitfield s)"

section \<open>The iterator over the set bits\<close>

record iterator =
  word_index :: nat
  cached_reads :: u64

definition iter_deref :: "iterator \<Rightarrow> nat \<times> iterator" where
  "iter_deref it =
     (let set_bit_index = countl_zero (cached_reads it);
          it' = (if set_bit_index < 64
                 then it\<lparr>cached_reads := cached_reads it AND NOT (one_at (63 - set_bit_index))\<rparr>
                 else it)
      in (64 * word_index it + set_bit_index, it'))"

function iter_incr_loop :: "bitset \<Rightarrow> nat \<Rightarrow> iterator \<Rightarrow> iterator" where
  "iter_incr_loop s next it =
     (if next < length (bitfield s) then
        if cached_reads it \<noteq> 0 then it
        else iter_incr_loop s (next + 1) \<lparr>word_index = next, cached_reads = bitfield s ! next\<rparr>
      else it)"
  by pat_completeness auto
termination by (relation "measure (\<lambda>(s, next, it). length (bitfield s) - next)") auto

declare iter_incr_loop.simps [simp del]

definition iter_incr :: "bitset \<Rightarrow> iterator \<Rightarrow> iterator" where
  "iter_incr s it = iter_incr_loop s (word_index it + 1) it"

definition iter_end :: "bitset \<Rightarrow> iterator" where
  "iter_end s = \<lparr>word_index = sz_sub (length (bitfield s)) 1, cached_reads = 0\<rparr>"

definition iter_begin :: "bitset \<Rightarrow> iterator" where
  "iter_begin s =
     (if bit_length s = 0 then iter_end s
      else let start_iterator = \<lparr>word_index = 0, cached_reads = bitfield s ! 0\<rparr>
           in if test s 0 then start_iterator else iter_incr s start_iterator)"

definition find_first :: "bitset \<Rightarrow> nat" where
  "find_first s =
     (let first = iter_begin s in if first = iter_end s then npos else fst (iter_deref first))"

definition find_next :: "bitset \<Rightarrow> nat \<Rightarrow> nat" where
  "find_next s start =
     (if bit_length s \<le> start then npos
      else
        let current_bit_index = start mod 64;
            it = \<lparr>word_index = start div 64,
                  cached_reads = (if current_bit_index = 63 then 0
                    else bitfield s ! (start div 64) AND drop_bit (current_bit_index + 1) uint64_max)\<rparr>;
            it = iter_incr s it
        in if it = iter_end s then npos else fst (iter_deref it))"

text \<open>
  The range loop \<open>for (auto i : set.set_bits())\<close> that the clients run, with the indices it
  visits.  Not returning is \<open>None\<close>.
\<close>

partial_function (option) set_bits_from :: "bitset \<Rightarrow> iterator \<Rightarrow> nat list option" where
  "set_bits_from s it =
     (if it = iter_end s then Some []
      else case iter_deref it of (i, it') \<Rightarrow>
        Option.bind (set_bits_from s (iter_incr s it')) (\<lambda>rest. Some (i # rest)))"

definition set_bits :: "bitset \<Rightarrow> nat list option" where
  "set_bits s = set_bits_from s (iter_begin s)"

section \<open>The payload codecs\<close>

definition h_word_to_n_word :: "u64 \<Rightarrow> u64" where
  "h_word_to_n_word word =
     push_bit 56 (word AND 0x00000000000000FF) OR
     push_bit 40 (word AND 0x000000000000FF00) OR
     push_bit 24 (word AND 0x0000000000FF0000) OR
     push_bit 8 (word AND 0x00000000FF000000) OR
     drop_bit 8 (word AND 0x000000FF00000000) OR
     drop_bit 24 (word AND 0x0000FF0000000000) OR
     drop_bit 40 (word AND 0x00FF000000000000) OR
     drop_bit 56 (word AND 0xFF00000000000000)"

text \<open>The bytes of a word in the memory of a little-endian machine.\<close>

definition memory_bytes :: "u64 \<Rightarrow> byte list" where
  "memory_bytes w = map (\<lambda>i. ucast (drop_bit (8 * i) w)) [0..<8]"

fun decode_loop :: "byte list \<Rightarrow> nat \<Rightarrow> nat \<Rightarrow> u64 list \<Rightarrow> u64 list" where
  "decode_loop [] word_offset byte_offset bf = bf"
| "decode_loop (b # bytes) word_offset byte_offset bf =
     (let bf' = bf[word_offset := bf ! word_offset OR push_bit (8 * byte_offset) (ucast b)]
      in if byte_offset = 0 then decode_loop bytes (word_offset + 1) 7 bf'
         else decode_loop bytes word_offset (byte_offset - 1) bf')"

definition decode_as_payload :: "byte list \<Rightarrow> bitset \<Rightarrow> fault + (bool \<times> bitset)" where
  "decode_as_payload bytes_view s =
     (if length bytes_view \<noteq> bytes_length (bit_length s) then Inr (False, s)
      else
        let remains = bit_length s mod 8
        in if bytes_view = [] then Inl Out_of_bounds_access
           else
             let end_byte = last bytes_view
             in if remains \<noteq> 0 \<and> end_byte AND drop_bit remains 0xFF \<noteq> 0 then Inr (False, s)
                else Inr (True, s\<lparr>bitfield := decode_loop bytes_view 0 7 (bitfield s)\<rparr>))"

function encode_loop :: "bitset \<Rightarrow> nat \<Rightarrow> nat \<Rightarrow> nat \<Rightarrow> nat \<Rightarrow> nat \<Rightarrow> byte list \<Rightarrow> byte list \<times> nat" where
  "encode_loop s total_bytes start_word byte_offset encoded_bytes at target =
     (if start_word < length (bitfield s) then
        let current_word = h_word_to_n_word (bitfield s ! start_word);
            remaining_encode_bytes = total_bytes - encoded_bytes;
            current_word_remaining_bytes = 8 - byte_offset;
            n = min (length target - at) (min remaining_encode_bytes current_word_remaining_bytes);
            target' = write_at at (take n (drop byte_offset (memory_bytes current_word))) target;
            encoded_bytes' = encoded_bytes + n;
            at' = at + n;
            byte_offset' = (if byte_offset + n = 8 then 0 else byte_offset)
        in if length target - at' = 0 then (target', encoded_bytes')
           else encode_loop s total_bytes (start_word + 1) byte_offset' encoded_bytes' at' target'
      else (target, encoded_bytes))"
  by pat_completeness auto
termination
proof (relation "measure (\<lambda>(s, total_bytes, start_word, r). length (bitfield s) - start_word)", goal_cases)
  case 1
  show ?case by simp
next
  case (2 s total_bytes start_word)
  show ?case using 2(1) by (simp only: in_measure prod.case)
qed

declare encode_loop.simps [simp del]

definition encode_as_payload :: "bitset \<Rightarrow> byte list \<Rightarrow> nat \<Rightarrow> fault + (byte list \<times> nat)" where
  "encode_as_payload s target encoded_bytes =
     (let total_bytes = bytes_length (bit_length s);
          start_word = encoded_bytes div 8;
          byte_offset = encoded_bytes mod 8
      in if \<not> encoded_bytes \<le> total_bytes then Inl Assertion_failed
         else if target = [] \<or> total_bytes \<le> encoded_bytes then Inr (target, encoded_bytes)
         else Inr (encode_loop s total_bytes start_word byte_offset encoded_bytes 0 target))"

section \<open>The abstraction: the set of members\<close>

definition word_members :: "u64 \<Rightarrow> nat set" where
  "word_members w = {j. j < 64 \<and> bit w (63 - j)}"

definition members :: "bitset \<Rightarrow> nat set" where
  "members s = {i. i div 64 < length (bitfield s) \<and> bit (bitfield s ! (i div 64)) (63 - i mod 64)}"

definition valid :: "bitset \<Rightarrow> bool" where
  "valid s \<longleftrightarrow> length (bitfield s) = words_length (bit_length s) \<and> bit_length s < 2 ^ 63
     \<and> members s \<subseteq> {..<bit_length s}"

lemma words_length_covers: "i < n \<Longrightarrow> i div 64 < words_length n"
proof -
  assume "i < n"
  have "n = 64 * (n div 64) + n mod 64" "n mod 64 < 64" by simp_all
  moreover have "i = 64 * (i div 64) + i mod 64" by simp
  moreover have "words_length n = n div 64 + 1 \<or> (n mod 64 = 0 \<and> words_length n = n div 64)"
    by (simp add: words_length_def)
  ultimately show ?thesis using \<open>i < n\<close> by linarith
qed

lemma bit_one_at: "bit (one_at i) n \<longleftrightarrow> n = i \<and> i < 64"
  by (auto simp: one_at_def bit_push_bit_iff bit_1_iff simp del: push_bit_of_1)

lemma and_one_at: "w AND one_at i \<noteq> 0 \<longleftrightarrow> i < 64 \<and> bit w i"
proof -
  have "(w AND one_at i = 0) \<longleftrightarrow> (\<forall>n. \<not> bit (w AND one_at i) n)"
    by (metis bit_0_eq bit_eqI bot_apply bot_bool_def)
  also have "\<dots> \<longleftrightarrow> \<not> (i < 64 \<and> bit w i)"
    by (auto simp: bit_and_iff bit_one_at)
  finally show ?thesis by simp
qed

lemma test_iff:
  assumes "valid s"
  shows "test s i \<longleftrightarrow> i \<in> members s"
proof (cases "i < bit_length s")
  case True
  with assms show ?thesis
    using words_length_covers [OF True]
    by (auto simp: test_def get_index_def members_def valid_def and_one_at dest: bit_imp_le_length)
next
  case False
  with assms show ?thesis by (auto simp: test_def valid_def)
qed

lemma members_index: "i div 64 < length (bitfield s) \<Longrightarrow>
    i \<in> members s \<longleftrightarrow> bit (bitfield s ! (i div 64)) (63 - i mod 64)"
  by (simp add: members_def)

lemma members_update:
  "k < length (bitfield s) \<Longrightarrow>
     i \<in> members (s\<lparr>bitfield := (bitfield s)[k := w]\<rparr>) \<longleftrightarrow>
     (if i div 64 = k then bit w (63 - i mod 64) else i \<in> members s)"
  by (auto simp: members_def nth_list_update)

lemma index_eq_iff: "63 - i mod 64 = 63 - j mod 64 \<longleftrightarrow> i mod 64 = (j :: nat) mod 64"
proof -
  have "i mod 64 < 64" "j mod 64 < 64" by simp_all
  then show ?thesis by linarith
qed

lemma div_mod_eq_iff: "i div 64 = j div 64 \<and> i mod 64 = j mod 64 \<longleftrightarrow> i = (j :: nat)"
  by (metis div_mult_mod_eq)

lemma bit_single [simp]: "bit (one_at (63 - i mod 64)) (63 - j mod 64) \<longleftrightarrow> i mod 64 = j mod 64"
  by (auto simp: bit_one_at index_eq_iff)

lemma members_set_bit:
  assumes "valid s"
  shows "members (bs_set i s) = (if i < bit_length s then insert i (members s) else members s)"
proof (cases "i < bit_length s")
  case True
  then have len: "i div 64 < length (bitfield s)"
    using assms words_length_covers by (simp add: valid_def)
  have "x \<in> members (bs_set i s) \<longleftrightarrow> x = i \<or> x \<in> members s" for x
  proof (cases "x div 64 = i div 64")
    case eq: True
    then have "x mod 64 = i mod 64 \<longleftrightarrow> x = i" using div_mod_eq_iff [of x i] by simp
    with eq True len show ?thesis
      by (auto simp: bs_set_def get_index_def members_update bit_or_iff members_index)
  qed (use True len in \<open>auto simp: bs_set_def get_index_def members_update\<close>)
  with True show ?thesis by auto
qed (simp add: bs_set_def)

lemma members_reset_bit:
  assumes "valid s"
  shows "members (bs_reset i s) = members s - {i}"
proof (cases "i < bit_length s")
  case True
  then have len: "i div 64 < length (bitfield s)"
    using assms words_length_covers by (simp add: valid_def)
  have "x \<in> members (bs_reset i s) \<longleftrightarrow> x \<noteq> i \<and> x \<in> members s" for x
  proof (cases "x div 64 = i div 64")
    case eq: True
    then have "x mod 64 = i mod 64 \<longleftrightarrow> x = i" using div_mod_eq_iff [of x i] by simp
    with eq True len show ?thesis
      by (auto simp: bs_reset_def get_index_def members_update bit_and_iff bit_not_iff members_index
          dest: bit_imp_le_length)
  qed (use True len in \<open>auto simp: bs_reset_def get_index_def members_update\<close>)
  then show ?thesis by auto
next
  case False
  with assms show ?thesis by (auto simp: bs_reset_def valid_def)
qed

lemma members_clear [simp]: "members (clear s) = {}"
  by (auto simp: members_def clear_def)

lemma members_of_count [simp]: "members (bitset_of_count n) = {}"
  by (auto simp: members_def bitset_of_count_def)

lemma bit_length_ops [simp]:
  "bit_length (bs_set i s) = bit_length s"
  "bit_length (bs_reset i s) = bit_length s"
  "bit_length (clear s) = bit_length s"
  "length (bitfield (bs_set i s)) = length (bitfield s)"
  "length (bitfield (bs_reset i s)) = length (bitfield s)"
  "length (bitfield (clear s)) = length (bitfield s)"
  by (simp_all add: bs_set_def bs_reset_def clear_def get_index_def)

lemma valid_of_count: "n < 2 ^ 63 \<Longrightarrow> valid (bitset_of_count n)"
  by (simp add: valid_def) (simp add: bitset_of_count_def)

lemma valid_set_bit: "valid s \<Longrightarrow> valid (bs_set i s)"
  using members_set_bit [of s i] by (auto simp: valid_def)

lemma valid_reset_bit: "valid s \<Longrightarrow> valid (bs_reset i s)"
  using members_reset_bit [of s i] by (auto simp: valid_def)

lemma valid_clear: "valid s \<Longrightarrow> valid (clear s)"
  by (simp add: valid_def)

lemma finite_members [simp]: "valid s \<Longrightarrow> finite (members s)"
  unfolding valid_def by (metis finite_lessThan finite_subset)

text \<open>Two bitsets with the same length and members are the same value.\<close>

lemma members_inject:
  assumes "valid s" "valid t" "bit_length s = bit_length t" "members s = members t"
  shows "s = t"
proof -
  have len: "length (bitfield s) = length (bitfield t)" using assms by (simp add: valid_def)
  have "bitfield s = bitfield t"
  proof (rule nth_equalityI [OF len])
    fix k assume k: "k < length (bitfield s)"
    show "bitfield s ! k = bitfield t ! k"
    proof (rule bit_word_eqI)
      fix n assume n: "n < LENGTH(64)"
      define m where "m = 63 - n"
      then have m: "m < 64" "n = 63 - m" using n by simp_all
      let ?i = "64 * k + m"
      have "?i div 64 = k" "63 - ?i mod 64 = n" using m by simp_all
      moreover have "?i \<in> members s \<longleftrightarrow> ?i \<in> members t" using assms by simp
      ultimately show "bit (bitfield s ! k) n = bit (bitfield t ! k) n"
        using k len by (simp add: members_def)
    qed
  qed
  then show ?thesis using assms(3) by simp
qed

section \<open>Unions and intersections\<close>

lemma or_assign_members:
  assumes "valid s" "valid t" "bit_length s = bit_length t"
  shows "\<exists>r. or_assign s t = Inr r \<and> valid r \<and> bit_length r = bit_length s \<and> members r = members s \<union> members t"
proof -
  let ?r = "s\<lparr>bitfield := map (\<lambda>i. bitfield s ! i OR bitfield t ! i) [0..<length (bitfield s)]\<rparr>"
  have "length (bitfield s) = length (bitfield t)" using assms by (simp add: valid_def)
  then have m: "members ?r = members s \<union> members t" by (auto simp: members_def bit_or_iff)
  with assms have "valid ?r" by (simp add: valid_def)
  with m assms show ?thesis by (simp add: or_assign_def)
qed

lemma and_assign_members:
  assumes "valid s" "valid t" "bit_length s = bit_length t"
  shows "\<exists>r. and_assign s t = Inr r \<and> valid r \<and> bit_length r = bit_length s \<and> members r = members s \<inter> members t"
proof -
  let ?r = "s\<lparr>bitfield := map (\<lambda>i. bitfield s ! i AND bitfield t ! i) [0..<length (bitfield s)]\<rparr>"
  have "length (bitfield s) = length (bitfield t)" using assms by (simp add: valid_def)
  then have m: "members ?r = members s \<inter> members t" by (auto simp: members_def bit_and_iff)
  with assms have "valid ?r" by (auto simp: valid_def)
  with m assms show ?thesis by (simp add: and_assign_def)
qed

section \<open>Counting\<close>

lemma finite_word_members [simp]: "finite (word_members w)"
  by (simp add: word_members_def)

lemma word_members_less: "j \<in> word_members w \<Longrightarrow> j < 64"
  by (simp add: word_members_def)

lemma popcount_card: "popcount w = card (word_members w)"
proof -
  have "popcount w = card {i. i < 64 \<and> bit w i}"
    by (auto simp: popcount_def length_filter_conv_card intro!: arg_cong [of _ _ card])
  also have "{i. i < 64 \<and> bit w i} = (\<lambda>j. 63 - j) ` word_members w"
  proof (intro equalityI subsetI)
    fix i assume "i \<in> {i. i < 64 \<and> bit w i}"
    then show "i \<in> (\<lambda>j. 63 - j) ` word_members w"
      by (intro image_eqI [of _ _ "63 - i"]) (auto simp: word_members_def)
  qed (auto simp: word_members_def)
  also have "card \<dots> = card (word_members w)"
    by (intro card_image inj_onI) (auto simp: word_members_def)
  finally show ?thesis .
qed

lemma members_words:
  "members s = (\<Union>k<length (bitfield s). (\<lambda>j. 64 * k + j) ` word_members (bitfield s ! k))"
proof (intro equalityI subsetI)
  fix i assume "i \<in> members s"
  then show "i \<in> (\<Union>k<length (bitfield s). (\<lambda>j. 64 * k + j) ` word_members (bitfield s ! k))"
    by (intro UN_I [of "i div 64"] image_eqI [of _ _ "i mod 64"]) (auto simp: members_def word_members_def)
qed (auto simp: members_def word_members_def)

lemma card_members: "card (members s) = (\<Sum>k<length (bitfield s). card (word_members (bitfield s ! k)))"
proof -
  have disj: "(\<lambda>j. 64 * k + j) ` word_members v \<inter> (\<lambda>j. 64 * l + j) ` word_members w = {}"
    if "k \<noteq> l" for k l v w
    using that by (auto dest!: word_members_less)
  have "card (members s) = (\<Sum>k<length (bitfield s). card ((\<lambda>j. 64 * k + j) ` word_members (bitfield s ! k)))"
    unfolding members_words by (rule card_UN_disjoint) (use disj in auto)
  then show ?thesis by (simp add: card_image)
qed

lemma bs_count_card: "bs_count s = card (members s)"
proof -
  have "foldl (\<lambda>set_bits w. set_bits + popcount w) a ws = a + (\<Sum>w\<leftarrow>ws. card (word_members w))" for a ws
    by (induction ws arbitrary: a) (auto simp: popcount_card)
  then show ?thesis
    by (simp add: bs_count_def card_members sum_list_sum_nth atLeast0LessThan)
qed

lemma word_members_empty: "word_members w = {} \<longleftrightarrow> w = 0"
proof
  assume e: "word_members w = {}"
  show "w = 0"
  proof (rule bit_word_eqI)
    fix n assume "n < LENGTH(64)"
    with e show "bit w n = bit 0 n"
      by (auto simp: word_members_def dest: spec [of _ "63 - n"])
  qed
qed (simp add: word_members_def)

lemma any_members: "any s \<longleftrightarrow> members s \<noteq> {}"
  unfolding any_def members_words
  by (auto simp: list_ex_iff in_set_conv_nth word_members_empty) (metis nth_mem)

lemma length_takeWhile_upt:
  "length (takeWhile P [0..<n]) = r \<longleftrightarrow> r \<le> n \<and> (\<forall>j<r. P j) \<and> (r < n \<longrightarrow> \<not> P r)"
proof (induction n arbitrary: r)
  case (Suc n)
  have eq: "takeWhile P [0..<Suc n] =
      (if (\<forall>j<n. P j) then [0..<n] @ (if P n then [n] else []) else takeWhile P [0..<n])"
    by (auto simp: takeWhile_append)
  show ?case
  proof (cases "\<forall>j<n. P j")
    case True
    have "length (takeWhile P [0..<Suc n]) = (if P n then Suc n else n)" using True eq by simp
    moreover have "r \<le> Suc n \<and> (\<forall>j<r. P j) \<and> (r < Suc n \<longrightarrow> \<not> P r) \<longleftrightarrow> r = (if P n then Suc n else n)"
      using True by (auto simp: less_Suc_eq le_Suc_eq)
    ultimately show ?thesis by metis
  next
    case False
    then have "length (takeWhile P [0..<Suc n]) = length (takeWhile P [0..<n])" by (simp only: eq if_False)
    moreover obtain j where "j < n" "\<not> P j" using False by blast
    ultimately show ?thesis using Suc.IH [of r]
      by (auto simp: less_Suc_eq le_Suc_eq dest: less_trans)
  qed
qed auto

lemma all_members:
  assumes v: "valid s"
  shows "all s \<longleftrightarrow> members s = {..<bit_length s}"
proof (cases "bit_length s = 0")
  case True
  with v show ?thesis by (simp add: all_def valid_def)
next
  case False
  let ?n = "bit_length s" and ?bf = "bitfield s" and ?r = "bit_length s mod 64"
  have len: "length ?bf = words_length ?n" using v by (simp add: valid_def)
  have pos: "length ?bf = Suc (length ?bf - 1)" "?bf \<noteq> []"
    using words_length_covers [of 0 ?n] False len by (auto simp flip: length_greater_0_conv)
  define last_word where "last_word = length ?bf - 1"
  have lastw: "last ?bf = ?bf ! last_word" using pos by (simp add: last_conv_nth last_word_def)
  have ml: "i \<in> members s \<Longrightarrow> i < ?n" for i using v by (auto simp: valid_def)
  have full: "w = uint64_max \<longleftrightarrow> (\<forall>j<64. bit w (63 - j))" for w
  proof
    assume *: "\<forall>j<64. bit w (63 - j)"
    show "w = uint64_max"
    proof (rule bit_word_eqI)
      fix n assume "n < LENGTH(64)"
      with * [rule_format, of "63 - n"] show "bit w n = bit uint64_max n"
        by (simp add: uint64_max_def)
    qed
  qed (auto simp: uint64_max_def)
  have word: "(\<forall>j<64. 64 * k + j < ?n \<longrightarrow> bit (?bf ! k) (63 - j)) \<longleftrightarrow>
      (\<forall>i<?n. i div 64 = k \<longrightarrow> i \<in> members s)" if "k < length ?bf" for k
  proof
    assume *: "\<forall>j<64. 64 * k + j < ?n \<longrightarrow> bit (?bf ! k) (63 - j)"
    show "\<forall>i<?n. i div 64 = k \<longrightarrow> i \<in> members s"
    proof (intro allI impI)
      fix i assume "i < ?n" "i div 64 = k"
      with * [rule_format, of "i mod 64"] that show "i \<in> members s"
        by (auto simp: members_def)
    qed
  qed (use that in \<open>auto simp: members_def\<close>)
  have front: "list_all (\<lambda>w. w = uint64_max) (butlast ?bf) \<longleftrightarrow>
      (\<forall>k<last_word. \<forall>j<64. 64 * k + j < ?n \<longrightarrow> bit (?bf ! k) (63 - j))"
  proof -
    have "64 * k + j < ?n" if "k < last_word" "j < 64" for k j
      using that len unfolding last_word_def words_length_def by (auto split: if_splits)
    then show ?thesis
      by (auto simp: list_all_length full nth_butlast last_word_def)
  qed
  have tail: "(if ?r \<noteq> 0 then countl_one (last ?bf) = ?r else last ?bf = uint64_max) \<longleftrightarrow>
      (\<forall>j<64. 64 * last_word + j < ?n \<longrightarrow> bit (?bf ! last_word) (63 - j))"
  proof (cases "?r = 0")
    case True
    then have "64 * last_word + j < ?n" if "j < 64" for j
      using that len False unfolding last_word_def words_length_def by (auto elim!: dvdE)
    then show ?thesis using True by (simp add: full lastw)
  next
    case r: False
    then have n: "?n = 64 * last_word + ?r"
      using len unfolding last_word_def words_length_def by simp
    have "64 * last_word + ?r \<notin> members s" using ml n by (metis less_irrefl)
    then have "\<not> bit (?bf ! last_word) (63 - ?r)"
      using pos by (auto simp: members_def last_word_def)
    moreover have "64 * last_word + j < ?n \<longleftrightarrow> j < ?r" for j using n by linarith
    moreover have r64: "?r < 64" by simp
    moreover have "(\<forall>j<64. j < ?r \<longrightarrow> P j) \<longleftrightarrow> (\<forall>j<?r. P j)" for P
      using r64 by (meson less_trans)
    ultimately show ?thesis using r
      by (simp only: countl_one_def length_takeWhile_upt lastw) simp
  qed
  have "all s \<longleftrightarrow> (\<forall>k<length ?bf. \<forall>j<64. 64 * k + j < ?n \<longrightarrow> bit (?bf ! k) (63 - j))"
  proof -
    have "length ?bf = Suc last_word" using pos(1) by (simp only: last_word_def)
    then have sp: "(\<forall>k<length ?bf. P k) \<longleftrightarrow> (\<forall>k<last_word. P k) \<and> P last_word" for P
      by (simp add: All_less_Suc conj_commute)
    have al: "all s \<longleftrightarrow> list_all (\<lambda>w. w = uint64_max) (butlast ?bf) \<and>
        (if ?r \<noteq> 0 then countl_one (last ?bf) = ?r else last ?bf = uint64_max)"
      using False by (simp add: all_def)
    show ?thesis unfolding al front tail sp ..
  qed
  also have "\<dots> \<longleftrightarrow> (\<forall>k<length ?bf. \<forall>i<?n. i div 64 = k \<longrightarrow> i \<in> members s)" using word by auto
  also have "\<dots> \<longleftrightarrow> (\<forall>i<?n. i \<in> members s)" using len words_length_covers by auto
  also have "\<dots> \<longleftrightarrow> members s = {..<?n}" using ml by auto
  finally show ?thesis .
qed

section \<open>The iterator\<close>

definition remaining :: "bitset \<Rightarrow> iterator \<Rightarrow> nat set" where
  "remaining s it = (\<lambda>j. 64 * word_index it + j) ` word_members (cached_reads it)
     \<union> {i \<in> members s. 64 * (word_index it + 1) \<le> i}"

definition in_words :: "bitset \<Rightarrow> iterator \<Rightarrow> bool" where
  "in_words s it \<longleftrightarrow> word_index it < length (bitfield s)"

text \<open>What \<open>operator++\<close> establishes: a cached bit, or the last word.\<close>

definition settled :: "bitset \<Rightarrow> iterator \<Rightarrow> bool" where
  "settled s it \<longleftrightarrow> in_words s it \<and> (cached_reads it \<noteq> 0 \<or> word_index it + 1 = length (bitfield s))"

lemma members_from_word:
  assumes "k < length (bitfield s)"
  shows "{i \<in> members s. 64 * k \<le> i} =
    (\<lambda>j. 64 * k + j) ` word_members (bitfield s ! k) \<union> {i \<in> members s. 64 * (k + 1) \<le> i}"
proof (intro equalityI subsetI)
  fix i assume i: "i \<in> {i \<in> members s. 64 * k \<le> i}"
  show "i \<in> (\<lambda>j. 64 * k + j) ` word_members (bitfield s ! k) \<union> {i \<in> members s. 64 * (k + 1) \<le> i}"
  proof (cases "64 * (k + 1) \<le> i")
    case False
    with i have "i div 64 = k" by auto
    with i show ?thesis
      by (intro UnI1 image_eqI [of _ _ "i mod 64"]) (auto simp: members_def word_members_def)
  qed (use i in auto)
qed (use assms in \<open>auto simp: members_def word_members_def\<close>)

lemma iter_incr_loop_settles:
  "next = word_index it + 1 \<Longrightarrow> in_words s it \<Longrightarrow>
     settled s (iter_incr_loop s next it) \<and> remaining s (iter_incr_loop s next it) = remaining s it"
proof (induction s "next" it rule: iter_incr_loop.induct)
  case (1 s "next" it)
  show ?case
  proof (cases "next < length (bitfield s) \<and> cached_reads it = 0")
    case True
    let ?it = "\<lparr>word_index = next, cached_reads = bitfield s ! next\<rparr>"
    have "settled s (iter_incr_loop s (next + 1) ?it) \<and>
        remaining s (iter_incr_loop s (next + 1) ?it) = remaining s ?it"
      by (rule "1.IH") (use True in \<open>auto simp: in_words_def\<close>)
    moreover have "remaining s ?it = remaining s it"
      using members_from_word [of "next" s] True "1.prems" word_members_empty [of 0]
      by (simp add: remaining_def)
    ultimately show ?thesis using True by (simp add: iter_incr_loop.simps [of s "next" it])
  next
    case False
    then have "iter_incr_loop s next it = it" by (simp add: iter_incr_loop.simps [of s "next" it])
    with False "1.prems" show ?thesis by (auto simp: settled_def in_words_def)
  qed
qed

lemma iter_incr_settles:
  assumes "in_words s it"
  shows "settled s (iter_incr s it)" and "remaining s (iter_incr s it) = remaining s it"
  using iter_incr_loop_settles [OF refl assms] by (simp_all add: iter_incr_def)

lemma word_members_clear:
  "word_members (w AND NOT (one_at (63 - j))) = word_members w - {j}" if "j < 64"
  using that by (auto simp: word_members_def bit_and_iff bit_not_iff bit_one_at)

lemma countl_zero_Min:
  assumes "w \<noteq> 0"
  shows "countl_zero w = Min (word_members w)" and "countl_zero w \<in> word_members w"
proof -
  define m where "m = Min (word_members w)"
  have "word_members w \<noteq> {}" using assms word_members_empty by blast
  then have m: "m \<in> word_members w" unfolding m_def by (intro Min_in) simp_all
  have "\<not> bit w (63 - j)" if "j < m" for j
  proof
    assume "bit w (63 - j)"
    then have "j \<in> word_members w" using that m by (simp add: word_members_def)
    then have "m \<le> j" unfolding m_def by (intro Min_le) simp_all
    with that show False by simp
  qed
  with m have *: "countl_zero w = m"
    unfolding countl_zero_def length_takeWhile_upt by (simp add: word_members_def)
  then show "countl_zero w = Min (word_members w)" by (simp add: m_def)
  show "countl_zero w \<in> word_members w" unfolding * by (rule m)
qed

lemma finite_remaining: "valid s \<Longrightarrow> finite (remaining s it)"
  by (simp add: remaining_def)

lemma iter_deref_Min:
  assumes "valid s" and "cached_reads it \<noteq> 0" and "iter_deref it = (i, it')"
  shows "i = Min (remaining s it) \<and> i \<in> remaining s it \<and> remaining s it' = remaining s it - {i}
    \<and> word_index it' = word_index it"
proof -
  let ?j = "countl_zero (cached_reads it)"
  have j: "?j \<in> word_members (cached_reads it)" and Min: "?j = Min (word_members (cached_reads it))"
    using countl_zero_Min assms(2) by auto
  have j64: "?j < 64" using j by (rule word_members_less)
  have i: "i = 64 * word_index it + ?j"
    and it': "it' = it\<lparr>cached_reads := cached_reads it AND NOT (one_at (63 - ?j))\<rparr>"
    using assms(3) j64 by (simp_all add: iter_deref_def Let_def)
  have mem: "i \<in> remaining s it" using j i by (simp add: remaining_def)
  have le: "i \<le> x" if "x \<in> remaining s it" for x
    using that j64 Min Min_le [OF finite_word_members] by (auto simp: remaining_def i)
  have "i = Min (remaining s it)"
    using mem le assms(1) by (intro Min_eqI [symmetric]) (auto simp: finite_remaining)
  moreover have "remaining s it' = remaining s it - {i}"
    using j64 by (auto simp: remaining_def it' i word_members_clear)
  ultimately show ?thesis using mem it' by simp
qed

lemma words_bound: "valid s \<Longrightarrow> length (bitfield s) < sz_modulus"
proof -
  assume "valid s"
  then have "length (bitfield s) \<le> bit_length s div 64 + 1" "bit_length s < 2 ^ 63"
    by (simp_all add: valid_def words_length_def)
  then show ?thesis by (simp add: sz_modulus_def)
qed

lemma settled_end:
  assumes "valid s" and "settled s it"
  shows "it = iter_end s \<longleftrightarrow> remaining s it = {}" and "cached_reads it = 0 \<longleftrightarrow> remaining s it = {}"
proof -
  have len: "0 < length (bitfield s)" using assms(2) by (auto simp: settled_def in_words_def)
  have "sz_sub (length (bitfield s)) 1 = length (bitfield s) - 1"
    using len words_bound [OF assms(1)] by (intro sz_sub_id) (simp_all add: Suc_le_eq)
  then have "it = iter_end s \<longleftrightarrow> cached_reads it = 0"
    using assms(2) len by (cases it) (auto simp: iter_end_def settled_def in_words_def)
  moreover show "cached_reads it = 0 \<longleftrightarrow> remaining s it = {}"
  proof
    assume z: "cached_reads it = 0"
    then have "word_index it + 1 = length (bitfield s)" using assms(2) by (simp add: settled_def)
    moreover have "i < 64 * length (bitfield s)" if "i \<in> members s" for i
      using that by (auto simp: members_def)
    ultimately show "remaining s it = {}"
      using z word_members_empty [of 0] by (fastforce simp: remaining_def)
  next
    assume "remaining s it = {}"
    then show "cached_reads it = 0" using word_members_empty by (auto simp: remaining_def)
  qed
  ultimately show "it = iter_end s \<longleftrightarrow> remaining s it = {}" by simp
qed

lemma set_bits_from_settled:
  assumes v: "valid s" and "settled s it"
  shows "set_bits_from s it = Some (sorted_list_of_set (remaining s it))"
  using assms(2)
proof (induction "card (remaining s it)" arbitrary: it rule: less_induct)
  case less
  show ?case
  proof (cases "remaining s it = {}")
    case True
    then show ?thesis using settled_end [OF v less.prems] by (simp add: set_bits_from.simps)
  next
    case False
    obtain i it' where d: "iter_deref it = (i, it')" by fastforce
    have ne: "cached_reads it \<noteq> 0" "it \<noteq> iter_end s" using settled_end [OF v less.prems] False by auto
    have i: "i = Min (remaining s it)" "i \<in> remaining s it" "remaining s it' = remaining s it - {i}"
      "word_index it' = word_index it" using iter_deref_Min [OF v ne(1) d] by auto
    have "in_words s it'" using less.prems i(4) by (simp add: settled_def in_words_def)
    note incr = iter_incr_settles [OF this]
    have fin: "finite (remaining s it)" using v by (rule finite_remaining)
    then have "card (remaining s (iter_incr s it')) < card (remaining s it)"
      unfolding incr i(3) using i(2) by (intro card_Diff1_less)
    then have "set_bits_from s (iter_incr s it') = Some (sorted_list_of_set (remaining s it - {i}))"
      using less.hyps [OF _ incr(1)] unfolding incr(2) i(3) by simp
    then show ?thesis
      using ne(2) d i(1) sorted_list_of_set_nonempty [OF fin False]
      by (simp add: set_bits_from.simps)
  qed
qed

lemma iter_begin_settled:
  assumes "valid s" and "bit_length s \<noteq> 0"
  shows "settled s (iter_begin s)" and "remaining s (iter_begin s) = members s"
proof -
  let ?it = "\<lparr>word_index = 0, cached_reads = bitfield s ! 0\<rparr>"
  have len: "0 < length (bitfield s)"
    using assms words_length_covers [of 0 "bit_length s"] by (simp add: valid_def)
  then have iw: "in_words s ?it" by (simp add: in_words_def)
  have rem: "remaining s ?it = members s" using members_from_word [OF len] by (simp add: remaining_def)
  have "settled s ?it" if "test s 0"
  proof -
    have "0 \<in> members s" using that assms(1) by (simp add: test_iff)
    then have "bitfield s ! 0 \<noteq> 0" by (auto simp: members_def)
    with iw show ?thesis by (simp add: settled_def)
  qed
  then show "settled s (iter_begin s)" and "remaining s (iter_begin s) = members s"
    using assms(2) iter_incr_settles [OF iw] rem by (simp_all add: iter_begin_def Let_def)
qed

lemma set_bits_sorted:
  assumes "valid s"
  shows "set_bits s = Some (sorted_list_of_set (members s))"
proof (cases "bit_length s = 0")
  case True
  then have "members s = {}" using assms by (simp add: valid_def)
  with True show ?thesis by (simp add: set_bits_def iter_begin_def set_bits_from.simps)
next
  case False
  with iter_begin_settled [OF assms False] assms show ?thesis
    by (simp add: set_bits_def set_bits_from_settled)
qed

lemma settled_first:
  assumes "valid s" and "settled s it"
  shows "(if it = iter_end s then npos else fst (iter_deref it)) =
    (if remaining s it = {} then npos else Min (remaining s it))"
  using settled_end [OF assms] iter_deref_Min [OF assms(1), of it] by (cases "iter_deref it") auto

lemma find_first_Min:
  assumes "valid s"
  shows "find_first s = (if members s = {} then npos else Min (members s))"
proof (cases "bit_length s = 0")
  case True
  then have "members s = {}" using assms by (simp add: valid_def)
  with True show ?thesis by (simp add: find_first_def iter_begin_def)
next
  case False
  with iter_begin_settled [OF assms False] settled_first [OF assms] show ?thesis
    by (simp add: find_first_def)
qed

lemma find_next_Min:
  assumes "valid s"
  shows "find_next s i =
    (if {j \<in> members s. i < j} = {} then npos else Min {j \<in> members s. i < j})"
proof (cases "i < bit_length s")
  case False
  then have "{j \<in> members s. i < j} = {}" using assms by (auto simp: valid_def)
  with False show ?thesis by (simp add: find_next_def)
next
  case True
  let ?r = "i mod 64" and ?k = "i div 64"
  let ?it = "\<lparr>word_index = ?k, cached_reads = (if ?r = 63 then 0
     else bitfield s ! ?k AND drop_bit (?r + 1) uint64_max)\<rparr>"
  have k: "?k < length (bitfield s)" using assms True words_length_covers by (simp add: valid_def)
  have less_iff: "i < 64 * ?k + j \<longleftrightarrow> ?r < j" for j
    using mult_div_mod_eq [of 64 i] by linarith
  have "word_members (cached_reads ?it) = {j \<in> word_members (bitfield s ! ?k). ?r < j}"
    by (auto simp: word_members_def uint64_max_def bit_and_iff bit_mask_iff)
  then have "remaining s ?it = {j \<in> (\<lambda>j. 64 * ?k + j) ` word_members (bitfield s ! ?k). i < j}
      \<union> {j \<in> members s. 64 * (?k + 1) \<le> j}"
    unfolding remaining_def using less_iff by auto
  also have "\<dots> = {j \<in> {j \<in> members s. 64 * ?k \<le> j}. i < j}"
    unfolding members_from_word [OF k] by auto
  also have "\<dots> = {j \<in> members s. i < j}"
    by auto
  finally have rem: "remaining s ?it = {j \<in> members s. i < j}" .
  have "in_words s ?it" using k by (simp add: in_words_def)
  note incr = iter_incr_settles [OF this]
  show ?thesis using True settled_first [OF assms incr(1)] unfolding incr(2) rem
    by (simp add: find_next_def Let_def)
qed

section \<open>The payload\<close>

lemma byte_masks:
  "(0x00000000000000FF :: u64) = push_bit 0 (mask 8)" "(0x000000000000FF00 :: u64) = push_bit 8 (mask 8)"
  "(0x0000000000FF0000 :: u64) = push_bit 16 (mask 8)" "(0x00000000FF000000 :: u64) = push_bit 24 (mask 8)"
  "(0x000000FF00000000 :: u64) = push_bit 32 (mask 8)" "(0x0000FF0000000000 :: u64) = push_bit 40 (mask 8)"
  "(0x00FF000000000000 :: u64) = push_bit 48 (mask 8)" "(0xFF00000000000000 :: u64) = push_bit 56 (mask 8)"
  by (simp_all add: mask_eq_exp_minus_1 push_bit_eq_mult)

lemma lane_up: "bit (push_bit a (w AND push_bit b (mask 8)) :: u64) m \<longleftrightarrow>
    a + b \<le> m \<and> m < a + b + 8 \<and> m < 64 \<and> bit w (m - a)"
  by (auto simp: bit_push_bit_iff bit_and_iff bit_mask_iff)

lemma lane_down: "bit (drop_bit a (w AND push_bit b (mask 8)) :: u64) m \<longleftrightarrow>
    b \<le> m + a \<and> m + a < b + 8 \<and> bit w (m + a)"
  by (auto simp: bit_push_bit_iff bit_and_iff bit_mask_iff bit_drop_bit_eq ac_simps dest: bit_imp_le_length)

lemma memory_bytes_network:
  assumes "i < 8"
  shows "memory_bytes (h_word_to_n_word w) ! i = ucast (drop_bit (8 * (7 - i)) w)"
proof (rule bit_word_eqI)
  fix n assume n: "n < LENGTH(8)"
  have "i \<in> {0, 1, 2, 3, 4, 5, 6, 7}" using assms by auto
  then have "bit (h_word_to_n_word w) (n + 8 * i) \<longleftrightarrow> bit w (n + 8 * (7 - i))"
    unfolding h_word_to_n_word_def byte_masks bit_or_iff lane_up lane_down using n
    by (elim insertE) (simp_all add: add.commute)
  then show "bit (memory_bytes (h_word_to_n_word w) ! i) n =
      bit (ucast (drop_bit (8 * (7 - i)) w) :: byte) n"
    using assms n by (simp add: memory_bytes_def bit_ucast_iff bit_drop_bit_eq ac_simps)
qed

definition payload_byte :: "bitset \<Rightarrow> nat \<Rightarrow> byte" where
  "payload_byte s k = ucast (drop_bit (8 * (7 - k mod 8)) (bitfield s ! (k div 8)))"

text \<open>The wire form of a bitset: bit \<open>i\<close> is bit \<open>7 - i mod 8\<close> of byte \<open>i div 8\<close>.\<close>

definition payload :: "bitset \<Rightarrow> byte list" where
  "payload s = map (payload_byte s) [0..<bytes_length (bit_length s)]"

definition payload_members :: "byte list \<Rightarrow> nat set" where
  "payload_members bytes = {i. i div 8 < length bytes \<and> bit (bytes ! (i div 8)) (7 - i mod 8)}"

lemma length_payload [simp]: "length (payload s) = bytes_length (bit_length s)"
  by (simp add: payload_def)

lemma split_64: "i mod 64 = 8 * ((i div 8) mod 8) + i mod (8 :: nat)" "i div 64 = i div 8 div 8"
  by (simp_all add: div_mult2_eq [symmetric] mod_mult2_eq [of i 8 8, simplified])

lemma bytes_words: "bytes_length n \<le> 8 * m \<longleftrightarrow> words_length n \<le> m"
proof -
  have "n = 64 * (n div 64) + n mod 64" "n mod 64 < 64"
    "n = 8 * (n div 8) + n mod 8" "n mod 8 < 8" by simp_all
  then show ?thesis unfolding bytes_length_def words_length_def
    by (cases "n mod 8 = 0"; cases "n mod 64 = 0") (simp only: if_True if_False simp_thms; linarith)+
qed

lemma bytes_length_less: "i < n \<Longrightarrow> i div 8 < bytes_length n"
proof -
  assume "i < n"
  have "n = 8 * (n div 8) + n mod 8" "n mod 8 < 8" "i = 8 * (i div 8) + i mod 8" by simp_all
  with \<open>i < n\<close> show ?thesis unfolding bytes_length_def
    by (cases "n mod 8 = 0") (simp only: if_True if_False simp_thms; linarith)+
qed

lemma bit_payload_byte:
  assumes "j < 8"
  shows "bit (payload_byte s k) (7 - j) \<longleftrightarrow> bit (bitfield s ! (k div 8)) (63 - (8 * (k mod 8) + j))"
proof -
  have "k mod 8 < 8" by simp
  then have "8 * (7 - k mod 8) + (7 - j) = 63 - (8 * (k mod 8) + j)" using assms by linarith
  moreover have "7 - j < 8" by simp
  ultimately show ?thesis
    by (simp only: payload_byte_def bit_ucast_iff bit_drop_bit_eq comp_apply add.commute) simp
qed

lemma payload_members_payload:
  assumes "valid s"
  shows "payload_members (payload s) = members s"
proof -
  have *: "bit (payload_byte s (i div 8)) (7 - i mod 8) \<longleftrightarrow>
      bit (bitfield s ! (i div 64)) (63 - i mod 64)" for i
    using bit_payload_byte [of "i mod 8" s "i div 8"] by (simp add: split_64)
  show ?thesis
  proof (intro equalityI subsetI)
    fix i assume "i \<in> payload_members (payload s)"
    then have i: "i div 8 < bytes_length (bit_length s)" "bit (payload_byte s (i div 8)) (7 - i mod 8)"
      by (auto simp: payload_members_def payload_def)
    have "bytes_length (bit_length s) \<le> 8 * length (bitfield s)"
      using assms by (simp add: bytes_words valid_def)
    then have "i div 64 < length (bitfield s)" using i(1) by (simp add: split_64)
    then show "i \<in> members s" using i(2) * by (simp add: members_def)
  next
    fix i assume i: "i \<in> members s"
    then have "i div 8 < bytes_length (bit_length s)"
      using assms by (intro bytes_length_less) (auto simp: valid_def)
    then show "i \<in> payload_members (payload s)"
      using i * by (simp add: payload_members_def payload_def members_def)
  qed
qed

lemma write_at_write_at:
  "i + length xs + length ys \<le> length t \<Longrightarrow>
     write_at (i + length xs) ys (write_at i xs t) = write_at i (xs @ ys) t"
proof -
  assume a: "i + length xs + length ys \<le> length t"
  have "take (i + length xs) (take i t @ xs @ drop (i + length xs) t) = take i t @ xs"
    using a by simp
  moreover have "drop (i + length xs + length ys) (take i t @ xs @ drop (i + length xs) t) =
      drop (i + length xs + length ys) t"
    using a by (simp add: ac_simps)
  ultimately show ?thesis by (simp only: write_at_def append_assoc length_append add.assoc)
qed

lemma same_block:
  assumes "e mod 8 + i < (8 :: nat)"
  shows "(e + i) div 8 = e div 8" and "(e + i) mod 8 = e mod 8 + i"
proof -
  obtain q r where qr: "q = e div 8" "r = e mod 8" by simp
  then have e: "e + i = 8 * q + (r + i)" using mult_div_mod_eq [of 8 e] by linarith
  have "r + i < 8" using assms qr by simp
  then have "(e + i) div 8 = q" "(e + i) mod 8 = r + i" unfolding e by simp_all
  then show "(e + i) div 8 = e div 8" "(e + i) mod 8 = e mod 8 + i" by (simp_all add: qr)
qed

lemma encode_chunk_of_word:
  assumes "valid s" and "e < bytes_length (bit_length s)"
    and "n \<le> 8 - e mod 8" and "n \<le> bytes_length (bit_length s) - e"
  shows "take n (drop (e mod 8) (memory_bytes (h_word_to_n_word (bitfield s ! (e div 8))))) =
    take n (drop e (payload s))"
proof (rule nth_equalityI)
  have len: "length (memory_bytes w) = 8" for w by (simp add: memory_bytes_def)
  then show "length (take n (drop (e mod 8) (memory_bytes (h_word_to_n_word (bitfield s ! (e div 8)))))) =
    length (take n (drop e (payload s)))" using assms by simp
  fix i assume "i < length (take n (drop (e mod 8) (memory_bytes (h_word_to_n_word (bitfield s ! (e div 8))))))"
  then have i: "i < n" "e mod 8 + i < 8" using assms len by auto
  note same_block [OF i(2)]
  with i assms len show "take n (drop (e mod 8) (memory_bytes (h_word_to_n_word (bitfield s ! (e div 8))))) ! i =
    take n (drop e (payload s)) ! i"
    by (simp add: memory_bytes_network payload_def payload_byte_def)
qed

lemma encode_loop_payload:
  assumes v: "valid s"
  shows "tb = bytes_length (bit_length s) \<Longrightarrow> at < length target \<Longrightarrow>
    (e < tb \<and> start_word = e div 8 \<and> byte_offset = e mod 8) \<or> (e = tb \<and> length (bitfield s) \<le> start_word) \<Longrightarrow>
    encode_loop s tb start_word byte_offset e at target =
      (write_at at (take (length target - at) (drop e (payload s))) target,
       e + min (length target - at) (tb - e))"
proof (induction "length (bitfield s) - start_word" arbitrary: start_word byte_offset e at target
    rule: less_induct)
  case less
  show ?case
  proof (cases "e < tb")
    case False
    with less.prems show ?thesis by (simp add: encode_loop.simps)
  next
    case True
    with less.prems have sw: "start_word = e div 8" "byte_offset = e mod 8" by auto
    define n where "n = min (length target - at) (min (tb - e) (8 - byte_offset))"
    define target' where "target' = write_at at (take n (drop e (payload s))) target"
    have tb8: "tb \<le> 8 * length (bitfield s)" using v less.prems(1) by (simp add: bytes_words valid_def)
    with True have in_range: "start_word < length (bitfield s)" unfolding sw by (simp add: div_less_iff_less_mult)
    have "byte_offset < 8" using sw by simp
    then have n: "0 < n" "n \<le> tb - e" "n \<le> 8 - byte_offset" "n \<le> length target - at"
      using True less.prems(2) by (auto simp: n_def)
    have len: "length (take n (drop e (payload s))) = n" using n less.prems(1) by simp
    then have len': "length target' = length target"
      using n less.prems(2) unfolding target'_def by (intro length_write_at) simp
    have "take n (drop byte_offset (memory_bytes (h_word_to_n_word (bitfield s ! start_word)))) =
        take n (drop e (payload s))"
      using encode_chunk_of_word [OF v, of e n] True n less.prems(1) sw by simp
    note chunk = this
    have step: "encode_loop s tb start_word byte_offset e at target =
        (if length target - (at + n) = 0 then (target', e + n)
         else encode_loop s tb (start_word + 1) (if byte_offset + n = 8 then 0 else byte_offset) (e + n) (at + n) target')"
      by (subst encode_loop.simps)
         (simp only: Let_def in_range if_True n_def [symmetric] chunk target'_def [symmetric] len')
    show ?thesis
    proof (cases "length target - (at + n) = 0")
      case True
      then have "n = length target - at" using n by simp
      with step True show ?thesis using n by (simp add: target'_def)
    next
      case more: False
      have n_eq: "n = min (tb - e) (8 - byte_offset)" using more by (auto simp: n_def min_def split: if_splits)
      have e8: "e = 8 * start_word + byte_offset" using sw by simp
      have next_ok: "(e + n < tb \<and> start_word + 1 = (e + n) div 8 \<and>
          (if byte_offset + n = 8 then 0 else byte_offset) = (e + n) mod 8) \<or>
          (e + n = tb \<and> length (bitfield s) \<le> start_word + 1)"
      proof (cases "e + n = tb")
        case True
        have "tb \<le> 8 * (start_word + 1)" using True e8 n(3) \<open>byte_offset < 8\<close> by simp
        then have "length (bitfield s) \<le> start_word + 1"
          using v less.prems(1) by (simp only: bytes_words valid_def)
        with True show ?thesis by simp
      next
        case False
        then have "byte_offset + n = 8" "e + n < tb" using n_eq n by auto
        then have "e + n = 8 * (start_word + 1)" using e8 by simp
        then have "(e + n) div 8 = start_word + 1" "(e + n) mod 8 = 0"
          by (simp_all only: nonzero_mult_div_cancel_left mod_mult_self1_is_0)
        with \<open>byte_offset + n = 8\<close> \<open>e + n < tb\<close> show ?thesis by simp
      qed
      have "encode_loop s tb (start_word + 1) (if byte_offset + n = 8 then 0 else byte_offset) (e + n) (at + n) target' =
        (write_at (at + n) (take (length target' - (at + n)) (drop (e + n) (payload s))) target',
         e + n + min (length target' - (at + n)) (tb - (e + n)))"
        using more len' in_range by (intro less.hyps less.prems(1) next_ok) auto
      moreover have "write_at (at + n) (take (length target' - (at + n)) (drop (e + n) (payload s))) target' =
          write_at at (take (length target - at) (drop e (payload s))) target"
      proof -
        have "take (length target - at) (drop e (payload s)) =
            take n (drop e (payload s)) @ take (length target - (at + n)) (drop (e + n) (payload s))"
          using n by (metis add.commute diff_diff_left drop_drop le_add_diff_inverse take_add)
        moreover have "at + n + length (take (length target - (at + n)) (drop (e + n) (payload s))) \<le> length target"
          using more by simp
        ultimately show ?thesis
          using write_at_write_at [of at "take n (drop e (payload s))"] len len'
          unfolding target'_def by simp
      qed
      ultimately show ?thesis using step more len' n by auto
    qed
  qed
qed

text \<open>Writing a payload in pieces, as the message encoder resumes it.\<close>

lemma encode_as_payload_chunk:
  assumes "valid s" and "e \<le> bytes_length (bit_length s)"
  shows "encode_as_payload s target e =
    Inr (write_at 0 (take (length target) (drop e (payload s))) target,
         e + min (length target) (bytes_length (bit_length s) - e))"
proof (cases "target = [] \<or> e = bytes_length (bit_length s)")
  case True
  then show ?thesis using assms(2) by (auto simp: encode_as_payload_def Let_def)
next
  case False
  then have "e < bytes_length (bit_length s)" "0 < length target" using assms(2) by auto
  then show ?thesis
    using encode_loop_payload [OF assms(1) refl, of 0 target e "e div 8" "e mod 8"]
    by (simp add: encode_as_payload_def Let_def)
qed

text \<open>A sequence of calls, each with the next free region of the send buffer.\<close>

fun encode_regions :: "bitset \<Rightarrow> nat \<Rightarrow> byte list list \<Rightarrow> fault + (byte list \<times> nat)" where
  "encode_regions s e [] = Inr ([], e)"
| "encode_regions s e (region # regions) =
     (case encode_as_payload s region e of
        Inl f \<Rightarrow> Inl f
      | Inr (region', e') \<Rightarrow>
          (case encode_regions s e' regions of
             Inl f \<Rightarrow> Inl f
           | Inr (bytes, e'') \<Rightarrow> Inr (take (e' - e) region' @ bytes, e'')))"

lemma encode_regions_payload:
  assumes "valid s"
  shows "e \<le> bytes_length (bit_length s) \<Longrightarrow> encode_regions s e regions =
    Inr (take (length (concat regions)) (drop e (payload s)),
         min (e + length (concat regions)) (bytes_length (bit_length s)))"
proof (induction regions arbitrary: e)
  case (Cons r regions)
  let ?n = "min (length r) (bytes_length (bit_length s) - e)"
  have "take ?n (write_at 0 (take (length r) (drop e (payload s))) r) = take (length r) (drop e (payload s))"
  proof -
    have "take (length r) (drop e (payload s)) = take ?n (drop e (payload s))"
      by (cases "length r \<le> bytes_length (bit_length s) - e") (simp_all add: min_def)
    then show ?thesis unfolding write_at_def by simp
  qed
  moreover have "take (length r + l) (drop e (payload s)) =
      take (length r) (drop e (payload s)) @ take l (drop (e + ?n) (payload s))" for l
  proof (cases "length r \<le> bytes_length (bit_length s) - e")
    case True
    then show ?thesis by (simp only: take_add [of "length r" l] min_def if_True drop_drop add.commute [of "length r" e])
  next
    case False
    then show ?thesis by simp
  qed
  moreover have "encode_regions s (e + ?n) regions =
      Inr (take (length (concat regions)) (drop (e + ?n) (payload s)),
           min (e + ?n + length (concat regions)) (bytes_length (bit_length s)))"
    by (rule Cons.IH) (use Cons.prems in simp)
  moreover have "min (e + ?n + l) (bytes_length (bit_length s)) = min (e + (length r + l)) (bytes_length (bit_length s))" for l
    using Cons.prems by (auto simp: min_def)
  ultimately show ?case
    using encode_as_payload_chunk [OF assms Cons.prems, of r] by simp
qed simp

section \<open>Reading a payload\<close>

lemma split_64_less: "i mod (8 :: nat) < 8" "(i div 8) mod (8 :: nat) < 8"
  by simp_all

lemma bit_placed_byte:
  assumes "i div 64 = k div 8"
  shows "bit (push_bit (8 * (7 - k mod 8)) (ucast (b :: byte)) :: u64) (63 - i mod 64) \<longleftrightarrow>
    i div 8 = k \<and> bit b (7 - i mod 8)"
proof -
  define c j m where "c = (i div 8) mod 8" and "j = i mod 8" and "m = k mod 8"
  have b: "c < 8" "j < 8" "m < 8" by (simp_all add: c_def j_def m_def)
  have "i mod 64 = 8 * c + j" by (simp add: c_def j_def split_64)
  then have pos: "63 - i mod 64 = 8 * (7 - c) + (7 - j)" using b by simp
  have "i div 8 = k \<longleftrightarrow> c = m"
    using assms div_mult_mod_eq [of "i div 8" 8] div_mult_mod_eq [of k 8]
    by (auto simp: c_def m_def split_64)
  moreover have "bit (push_bit (8 * (7 - m)) (ucast b) :: u64) (8 * (7 - c) + (7 - j)) \<longleftrightarrow>
      c = m \<and> bit b (7 - j)"
  proof (cases "c = m")
    case True
    have "8 * (7 - m) + (7 - j) < 64" using b by simp
    with True show ?thesis by (simp add: bit_push_bit_iff bit_ucast_iff)
  next
    case False
    show ?thesis
    proof (cases "c < m")
      case True
      then have "8 \<le> 8 * (7 - c) + (7 - j) - 8 * (7 - m)" using b by simp
      with False show ?thesis by (auto simp: bit_push_bit_iff bit_ucast_iff dest: bit_imp_le_length)
    next
      case False
      with \<open>c \<noteq> m\<close> have "8 * (7 - c) + (7 - j) < 8 * (7 - m)" using b by simp
      with \<open>c \<noteq> m\<close> show ?thesis by (auto simp: bit_push_bit_iff)
    qed
  qed
  ultimately show ?thesis by (simp add: pos j_def m_def)
qed

lemma bit_decode_loop:
  "k + length bytes \<le> 8 * length bf \<Longrightarrow> wo = k div 8 \<Longrightarrow> bo = 7 - k mod 8 \<Longrightarrow>
     i div 64 < length bf \<Longrightarrow>
     bit (decode_loop bytes wo bo bf ! (i div 64)) (63 - i mod 64) \<longleftrightarrow>
       bit (bf ! (i div 64)) (63 - i mod 64) \<or>
       (k \<le> i div 8 \<and> i div 8 < k + length bytes \<and> bit (bytes ! (i div 8 - k)) (7 - i mod 8))"
proof (induction bytes arbitrary: k wo bo bf)
  case (Cons b bytes)
  let ?bf = "bf[wo := bf ! wo OR push_bit (8 * bo) (ucast b)]"
  have step: "decode_loop (b # bytes) wo bo bf =
      decode_loop bytes (Suc k div 8) (7 - Suc k mod 8) ?bf"
  proof (cases "bo = 0")
    case True
    then have "k mod 8 = 7" using Cons.prems(3) mod_less_divisor [of 8 k] by linarith
    then have "Suc k div 8 = Suc (k div 8)" "Suc k mod 8 = 0" by (simp_all add: div_Suc mod_Suc)
    with True Cons.prems show ?thesis by simp
  next
    case False
    then have "k mod 8 \<noteq> 7" using Cons.prems(3) by simp
    then have "Suc k div 8 = k div 8" "Suc k mod 8 = Suc (k mod 8)"
      using mod_less_divisor [of 8 k] by (simp_all add: div_Suc mod_Suc)
    with False Cons.prems show ?thesis by simp
  qed
  have wo: "wo < length bf" using Cons.prems by (simp add: div_less_iff_less_mult)
  have bf: "bit (?bf ! (i div 64)) (63 - i mod 64) \<longleftrightarrow>
      bit (bf ! (i div 64)) (63 - i mod 64) \<or> (i div 8 = k \<and> bit b (7 - i mod 8))"
  proof (cases "i div 64 = wo")
    case True
    then show ?thesis
      using bit_placed_byte [of i k b] wo Cons.prems by (simp add: bit_or_iff)
  next
    case False
    then have "i div 8 \<noteq> k" using Cons.prems(2) by (auto simp: split_64)
    with False show ?thesis by simp
  qed
  have "bit (decode_loop bytes (Suc k div 8) (7 - Suc k mod 8) ?bf ! (i div 64)) (63 - i mod 64) \<longleftrightarrow>
      bit (?bf ! (i div 64)) (63 - i mod 64) \<or>
      (Suc k \<le> i div 8 \<and> i div 8 < Suc k + length bytes \<and> bit (bytes ! (i div 8 - Suc k)) (7 - i mod 8))"
    using Cons.prems by (intro Cons.IH) auto
  also have "\<dots> \<longleftrightarrow> bit (bf ! (i div 64)) (63 - i mod 64) \<or>
       (k \<le> i div 8 \<and> i div 8 < k + length (b # bytes) \<and> bit ((b # bytes) ! (i div 8 - k)) (7 - i mod 8))"
  proof (cases "Suc k \<le> i div 8")
    case True
    then have "i div 8 - k = Suc (i div 8 - Suc k)" by simp
    with True show ?thesis unfolding bf by simp
  qed (auto simp: bf)
  finally show ?case unfolding step .
qed auto

lemma length_decode_loop [simp]: "length (decode_loop bytes wo bo bf) = length bf"
  by (induction bytes wo bo bf rule: decode_loop.induct) (simp_all add: Let_def)

lemma members_decode_loop:
  assumes "length bytes \<le> 8 * length (bitfield s)"
  shows "members (s\<lparr>bitfield := decode_loop bytes 0 7 (bitfield s)\<rparr>) = members s \<union> payload_members bytes"
proof -
  have "i div 64 < length (bitfield s)" if "i div 8 < length bytes" for i
    using that assms by (simp add: split_64)
  then show ?thesis
    using bit_decode_loop [of 0 bytes "bitfield s" 0 7] assms
    by (auto simp: members_def payload_members_def)
qed

text \<open>The test on the last byte rejects exactly the payloads with a padding bit set.\<close>

lemma padding_clear:
  assumes "length bytes = bytes_length n" and "bytes \<noteq> []"
  shows "(n mod 8 \<noteq> 0 \<and> last bytes AND drop_bit (n mod 8) 0xFF \<noteq> 0) \<longleftrightarrow>
    \<not> payload_members bytes \<subseteq> {..<n}"
proof -
  let ?r = "n mod 8" and ?k = "length bytes - 1"
  have mask: "(0xFF :: byte) = - 1" by (simp add: word_eq_iff_unsigned)
  have low: "(w AND drop_bit ?r 0xFF \<noteq> 0) \<longleftrightarrow> (\<exists>j. ?r \<le> j \<and> j < 8 \<and> bit w (7 - j))" for w :: byte
  proof -
    have "(w AND drop_bit ?r 0xFF = 0) \<longleftrightarrow> (\<forall>m. \<not> bit (w AND drop_bit ?r 0xFF) m)"
      by (metis bit_0_eq bit_eqI bot_apply bot_bool_def)
    also have "\<dots> \<longleftrightarrow> (\<forall>m. bit w m \<longrightarrow> \<not> ?r + m < 8)"
    proof -
      have "bit (drop_bit ?r (0xFF :: byte)) m \<longleftrightarrow> ?r + m < 8" for m
        unfolding mask by (auto simp: bit_mask_iff)
      then show ?thesis by (simp only: bit_and_iff) blast
    qed
    also have "\<dots> \<longleftrightarrow> \<not> (\<exists>j. ?r \<le> j \<and> j < 8 \<and> bit w (7 - j))"
    proof safe
      fix m assume *: "\<nexists>j. ?r \<le> j \<and> j < 8 \<and> bit w (7 - j)" "bit w m" "?r + m < 8"
      from *(1) have "\<not> (?r \<le> 7 - m \<and> 7 - m < 8 \<and> bit w (7 - (7 - m)))" by blast
      moreover have "?r \<le> 7 - m" "7 - m < 8" "7 - (7 - m) = m" using *(3) by simp_all
      ultimately show False using *(2) by simp
    qed auto
    finally show ?thesis by blast
  qed
  have lastk: "last bytes = bytes ! ?k" using assms(2) by (simp add: last_conv_nth)
  show ?thesis
  proof (cases "?r = 0")
    case True
    then have "8 * length bytes = n" using assms(1) by (auto simp: bytes_length_def)
    then have "payload_members bytes \<subseteq> {..<n}" by (auto simp: payload_members_def)
    with True show ?thesis by simp
  next
    case False
    then have k: "n = 8 * ?k + ?r" "length bytes = Suc ?k"
      using assms by (simp_all add: bytes_length_def)
    have "(\<exists>j. ?r \<le> j \<and> j < 8 \<and> bit (last bytes) (7 - j)) \<longleftrightarrow> (\<exists>i \<in> payload_members bytes. n \<le> i)"
    proof safe
      fix j assume j: "?r \<le> j" "j < 8" "bit (last bytes) (7 - j)"
      then have "8 * ?k + j \<in> payload_members bytes" "n \<le> 8 * ?k + j"
        using k lastk by (simp_all add: payload_members_def) 
      then show "\<exists>i \<in> payload_members bytes. n \<le> i" by blast
    next
      fix i assume i: "i \<in> payload_members bytes" "n \<le> i"
      have kle: "i div 8 \<le> ?k" using i(1) k(2) by (simp add: payload_members_def)
      have "8 * ?k \<le> i" using k(1) i(2) by linarith
      then have "?k \<le> i div 8" by simp
      with kle have ik: "i div 8 = ?k" by simp
      have "?r \<le> i mod 8" using k(1) i(2) mult_div_mod_eq [of 8 i] unfolding ik by linarith
      note this ik
      with i show "\<exists>j. ?r \<le> j \<and> j < 8 \<and> bit (last bytes) (7 - j)"
        by (intro exI [of _ "i mod 8"]) (simp add: payload_members_def lastk)
    qed
    with False low show ?thesis by (auto simp: not_less)
  qed
qed

lemma decode_as_payload_spec:
  assumes "valid s" and "0 < bit_length s"
  shows "\<exists>ok s'. decode_as_payload bytes s = Inr (ok, s') \<and>
    (ok \<longleftrightarrow> length bytes = bytes_length (bit_length s) \<and> payload_members bytes \<subseteq> {..<bit_length s}) \<and>
    (if ok then valid s' \<and> bit_length s' = bit_length s \<and> members s' = members s \<union> payload_members bytes
     else s' = s)"
proof (cases "length bytes = bytes_length (bit_length s)")
  case True
  have "0 div 8 < bytes_length (bit_length s)" using assms(2) by (rule bytes_length_less)
  then have ne: "bytes \<noteq> []" using True by auto
  have "length bytes \<le> 8 * length (bitfield s)" using assms(1) by (simp add: True bytes_words valid_def)
  note m = members_decode_loop [OF this]
  show ?thesis using padding_clear [OF True ne] True ne m assms(1)
    by (auto simp: decode_as_payload_def Let_def valid_def)
next
  case False
  then have "decode_as_payload bytes s = Inr (False, s)" by (simp add: decode_as_payload_def)
  with False show ?thesis by (intro exI [of _ False] exI [of _ s]) simp
qed

lemma decode_payload:
  assumes "valid s" and "0 < bit_length s"
  shows "decode_as_payload (payload s) (bitset_of_count (bit_length s)) = Inr (True, s)"
proof -
  let ?t = "bitset_of_count (bit_length s)"
  have t: "valid ?t" "bit_length ?t = bit_length s"
    using assms valid_of_count by (simp_all add: valid_def bitset_of_count_def)
  have sub: "payload_members (payload s) \<subseteq> {..<bit_length s}"
    using assms payload_members_payload by (simp add: valid_def)
  obtain s' where s': "decode_as_payload (payload s) ?t = Inr (True, s')" "valid s'"
    "bit_length s' = bit_length s" "members s' = payload_members (payload s)"
    using decode_as_payload_spec [OF t(1), of "payload s"] t(2) assms(2) sub by auto
  with members_inject [OF s'(2) assms(1)] payload_members_payload [OF assms(1)] show ?thesis by simp
qed

section \<open>Properties\<close>

text \<open>C30: the operations on one index and on the whole bitset act on the set of members as
  they should, and keep the representation valid (word count and cleared padding).\<close>

theorem bitset_operations:
  assumes "valid s"
  shows "(test s i \<longleftrightarrow> i \<in> members s)
    \<and> valid (bs_set i s) \<and> members (bs_set i s) = (if i < bit_length s then insert i (members s) else members s)
    \<and> valid (bs_reset i s) \<and> members (bs_reset i s) = members s - {i}
    \<and> valid (clear s) \<and> members (clear s) = {}"
  using assms by (simp add: test_iff valid_set_bit members_set_bit valid_reset_bit
      members_reset_bit valid_clear)

theorem bitset_operations_witness:
  "test (bs_set 70 (bitset_of_count 75)) 70 \<longleftrightarrow> 70 \<in> members (bs_set 70 (bitset_of_count 75))"
  using bitset_operations [OF valid_set_bit [OF valid_of_count], of 75 70 70] by simp

text \<open>\<open>count\<close>, \<open>any\<close>, \<open>none\<close> and \<open>all\<close> are the size of the set, and its comparison with the
  empty and the full set, although they work on whole words.\<close>

lemma bitset_queries:
  assumes "valid s"
  shows "bs_count s = card (members s) \<and> (any s \<longleftrightarrow> members s \<noteq> {}) \<and> (none s \<longleftrightarrow> members s = {})
    \<and> (all s \<longleftrightarrow> members s = {..<bit_length s})"
  using assms by (simp add: bs_count_card any_members none_def all_members)

text \<open>\<open>|=\<close> and \<open>&=\<close> on bitsets of one length are union and intersection; on different
  lengths the assertion fails.\<close>

lemma bitset_union_intersection:
  assumes "valid s" and "valid t"
  shows "if bit_length s = bit_length t
    then \<exists>u i. or_assign s t = Inr u \<and> valid u \<and> members u = members s \<union> members t
      \<and> and_assign s t = Inr i \<and> valid i \<and> members i = members s \<inter> members t
    else or_assign s t = Inl Assertion_failed \<and> and_assign s t = Inl Assertion_failed"
  using or_assign_members [OF assms] and_assign_members [OF assms]
  by (auto simp: or_assign_def and_assign_def)

text \<open>The range loop over \<open>set_bits()\<close> ends and visits the members in ascending order,
  each once, although dereferencing the iterator consumes its cached bits.\<close>

lemma set_bits_enumerates:
  assumes "valid s"
  shows "set_bits s = Some (sorted_list_of_set (members s))"
  using assms by (rule set_bits_sorted)

text \<open>C22: \<open>find_first\<close> and \<open>find_next\<close> return the least member, and the least member after
  an index, or \<open>npos\<close> when there is none.\<close>

theorem bitset_find:
  assumes "valid s"
  shows "find_first s = (if members s = {} then npos else Min (members s)) \<and>
    find_next s i = (if {j \<in> members s. i < j} = {} then npos else Min {j \<in> members s. i < j})"
  using find_first_Min [OF assms] find_next_Min [OF assms] by simp

theorem bitset_find_witness:
  "let s = bs_set 3 (bs_set 66 (bitset_of_count 70)) in
     find_first s = (if members s = {} then npos else Min (members s)) \<and>
     find_next s 3 = (if {j \<in> members s. 3 < j} = {} then npos else Min {j \<in> members s. 3 < j})"
  unfolding Let_def by (intro bitset_find valid_set_bit valid_of_count) simp

text \<open>C31: a bitfield payload from the wire is accepted exactly when it has the right number
  of bytes and no padding bit is set; its bits are then added to the set, and the value stays
  valid; a rejected payload changes nothing.\<close>

theorem decode_payload_exact:
  assumes "valid s" and "0 < bit_length s"
  shows "\<exists>ok s'. decode_as_payload bytes s = Inr (ok, s') \<and>
    (ok \<longleftrightarrow> length bytes = bytes_length (bit_length s) \<and> payload_members bytes \<subseteq> {..<bit_length s}) \<and>
    (if ok then valid s' \<and> bit_length s' = bit_length s \<and> members s' = members s \<union> payload_members bytes
     else s' = s)"
  using assms by (rule decode_as_payload_spec)

theorem decode_payload_exact_witness:
  "\<exists>ok s'. decode_as_payload [0xA0, 0x80] (bitset_of_count 9) = Inr (ok, s') \<and>
    (ok \<longleftrightarrow> length [0xA0, 0x80 :: byte] = bytes_length (bit_length (bitset_of_count 9)) \<and>
      payload_members [0xA0, 0x80] \<subseteq> {..<bit_length (bitset_of_count 9)}) \<and>
    (if ok then valid s' \<and> bit_length s' = bit_length (bitset_of_count 9) \<and>
        members s' = members (bitset_of_count 9) \<union> payload_members [0xA0, 0x80]
     else s' = bitset_of_count 9)"
  by (intro decode_payload_exact valid_of_count) (simp_all add: bitset_of_count_def)

text \<open>Encoding into any sequence of buffer regions, resuming where the last call stopped,
  writes consecutive parts of one payload, and decoding that payload into an empty bitset of
  the same length gives the bitset back.\<close>

lemma encode_regions_roundtrip:
  assumes "valid s" and "0 < bit_length s"
    and "bytes_length (bit_length s) \<le> length (concat regions)"
  shows "\<exists>bytes. encode_regions s 0 regions = Inr (bytes, bytes_length (bit_length s)) \<and>
    decode_as_payload bytes (bitset_of_count (bit_length s)) = Inr (True, s)"
  using encode_regions_payload [OF assms(1), of 0 regions] decode_payload [OF assms(1,2)] assms(3)
  by simp

end
