(* ===== verification/RingBuffer.thy ===== *)
theory RingBuffer
  imports Interfaces
begin

text \<open>
  \<^verbatim>\<open>src/Client/io_ring_buffer.hpp\<close>: the byte buffer of a socket.  A prepared region is an offset
  into the array and a length, in place of an \<open>iovec\<close>; the kernel's \<open>readv\<close> and \<open>writev\<close> are the
  functions \<open>scatter\<close> and \<open>gather\<close> over the prepared regions.  The buffer is shown to be a FIFO of
  bytes (\<open>contents\<close>), and an instance of \<open>fifo_channel\<close>.
\<close>

section \<open>Prepared regions\<close>

record prepare_t =
  prepared_iovecs :: nat
  iovec_array :: "(nat \<times> nat) list"

definition make_prepare :: "nat \<Rightarrow> nat \<Rightarrow> nat \<Rightarrow> nat \<Rightarrow> nat \<Rightarrow> prepare_t" where
  "make_prepare valid_size iovec1 iovec1_len iovec2 iovec2_len =
     \<lparr>prepared_iovecs = valid_size, iovec_array = [(iovec1, iovec1_len), (iovec2, iovec2_len)]\<rparr>"

definition prepared_bytes :: "prepare_t \<Rightarrow> nat" where
  "prepared_bytes p = snd (iovec_array p ! 0) + snd (iovec_array p ! 1)"

definition prepare_empty :: "prepare_t \<Rightarrow> bool" where
  "prepare_empty p \<longleftrightarrow> prepared_iovecs p = 0"

section \<open>The buffer\<close>

record io_ring_buffer =
  read_pos :: nat
  write_pos :: nat
  readable :: nat
  buffer :: "byte list"

abbreviation capacity :: "io_ring_buffer \<Rightarrow> nat" where
  "capacity b \<equiv> length (buffer b)"

definition has_single_bit :: "nat \<Rightarrow> bool" where
  "has_single_bit n \<longleftrightarrow> list_ex (\<lambda>k. n = 2 ^ k) [0..<64]"

definition ring_mask :: "nat \<Rightarrow> nat \<Rightarrow> nat" where
  "ring_mask N idx = (if has_single_bit N then idx AND (N - 1) else idx mod N)"

definition new_ring :: "byte list \<Rightarrow> io_ring_buffer" where
  "new_ring bytes = \<lparr>read_pos = 0, write_pos = 0, readable = 0, buffer = bytes\<rparr>"

definition ring_empty :: "io_ring_buffer \<Rightarrow> bool" where
  "ring_empty b \<longleftrightarrow> readable b = 0"

definition ring_full :: "io_ring_buffer \<Rightarrow> bool" where
  "ring_full b \<longleftrightarrow> readable b = capacity b"

definition r_available :: "io_ring_buffer \<Rightarrow> nat" where
  "r_available b = readable b"

definition w_available :: "io_ring_buffer \<Rightarrow> nat" where
  "w_available b = capacity b - readable b"

definition prepare_read :: "io_ring_buffer \<Rightarrow> prepare_t" where
  "prepare_read b =
     (if ring_empty b then make_prepare 0 0 0 0 0
      else if read_pos b < write_pos b \<or> ring_full b \<and> read_pos b = 0
      then make_prepare 1 (read_pos b) (readable b) 0 0
      else make_prepare 2 (read_pos b) (capacity b - read_pos b) 0 (write_pos b))"

definition prepare_write :: "io_ring_buffer \<Rightarrow> prepare_t" where
  "prepare_write b =
     (if ring_full b then make_prepare 0 0 0 0 0
      else if write_pos b < read_pos b \<or> ring_empty b \<and> write_pos b = 0
      then make_prepare 1 (write_pos b) (w_available b) 0 0
      else make_prepare 2 (write_pos b) (capacity b - write_pos b) 0 (read_pos b))"

definition commit_read :: "nat \<Rightarrow> io_ring_buffer \<Rightarrow> fault + io_ring_buffer" where
  "commit_read bytes b =
     (if bytes = 0 then Inr b
      else if \<not> bytes \<le> r_available b then Inl Assertion_failed
      else Inr (b\<lparr>read_pos := ring_mask (capacity b) (read_pos b + bytes), readable := readable b - bytes\<rparr>))"

definition commit_write :: "nat \<Rightarrow> io_ring_buffer \<Rightarrow> fault + io_ring_buffer" where
  "commit_write bytes b =
     (if bytes = 0 then Inr b
      else if \<not> bytes \<le> w_available b then Inl Assertion_failed
      else Inr (b\<lparr>write_pos := ring_mask (capacity b) (write_pos b + bytes), readable := readable b + bytes\<rparr>))"

definition ring_reset :: "io_ring_buffer \<Rightarrow> io_ring_buffer" where
  "ring_reset b = b\<lparr>read_pos := 0, write_pos := 0, readable := 0\<rparr>"

section \<open>Vectored input and output\<close>

text \<open>\<open>readv\<close>: the data fills the regions in order; \<open>writev\<close>: the regions' bytes in order.\<close>

fun scatter :: "(nat \<times> nat) list \<Rightarrow> byte list \<Rightarrow> byte list \<Rightarrow> byte list" where
  "scatter [] bytes buf = buf"
| "scatter ((base, len) # iovs) bytes buf =
     scatter iovs (drop len bytes) (write_at base (take len bytes) buf)"

definition gather :: "(nat \<times> nat) list \<Rightarrow> byte list \<Rightarrow> byte list" where
  "gather iovs buf = concat (map (\<lambda>(base, len). subspan base len buf) iovs)"

definition ring_receive :: "byte list \<Rightarrow> io_ring_buffer \<Rightarrow> fault + io_ring_buffer" where
  "ring_receive bytes b =
     commit_write (length bytes) (b\<lparr>buffer := scatter (iovec_array (prepare_write b)) bytes (buffer b)\<rparr>)"

section \<open>The buffer as a FIFO of bytes\<close>

definition contents :: "io_ring_buffer \<Rightarrow> byte list" where
  "contents b = ring_slice (buffer b) (read_pos b) (readable b)"

definition ring_valid :: "io_ring_buffer \<Rightarrow> bool" where
  "ring_valid b \<longleftrightarrow> read_pos b < capacity b \<and> readable b \<le> capacity b
     \<and> write_pos b = (read_pos b + readable b) mod capacity b"

lemma ring_mask_mod: "ring_mask N idx = idx mod N"
proof (cases "has_single_bit N")
  case True
  then obtain k where "N = 2 ^ k" by (auto simp: has_single_bit_def list_ex_iff)
  then have "idx AND (N - 1) = idx mod N"
    by (metis mask_eq_exp_minus_1 take_bit_eq_mask take_bit_eq_mod)
  with True show ?thesis by (simp add: ring_mask_def)
qed (simp add: ring_mask_def)

lemma length_contents [simp]: "length (contents b) = readable b"
  by (simp add: contents_def)

lemma write_cases:
  assumes "ring_valid b"
  shows "if read_pos b + readable b < capacity b then write_pos b = read_pos b + readable b
    else capacity b \<le> read_pos b + readable b \<and> write_pos b = read_pos b + readable b - capacity b \<and> write_pos b \<le> read_pos b"
proof -
  have v: "read_pos b < capacity b" "readable b \<le> capacity b" "write_pos b = (read_pos b + readable b) mod capacity b"
    using assms by (simp_all add: ring_valid_def)
  show ?thesis
  proof (cases "read_pos b + readable b < capacity b")
    case False
    then have "(read_pos b + readable b) mod capacity b = read_pos b + readable b - capacity b"
      using v(1,2) by (simp add: le_mod_geq)
    with False v show ?thesis by simp
  qed (use v in simp)
qed

lemma write_at_end: "write_pos b < capacity b" if "ring_valid b"
  using that by (auto simp: ring_valid_def intro: mod_less_divisor)

lemma fits:
  assumes "ring_valid b" and "length bytes \<le> w_available b"
  shows "readable b + length bytes \<le> capacity b"
proof -
  have "readable b \<le> capacity b" using assms(1) by (simp add: ring_valid_def)
  with assms(2) show ?thesis unfolding w_available_def by linarith
qed

lemma prepare_read_cases:
  assumes v: "ring_valid b"
  shows "iovec_array (prepare_read b) =
    (if readable b = 0 then [(0, 0), (0, 0)]
     else if read_pos b + readable b < capacity b \<or> read_pos b = 0 then [(read_pos b, readable b), (0, 0)]
     else [(read_pos b, capacity b - read_pos b), (0, read_pos b + readable b - capacity b)])"
  using write_cases [OF v] v [unfolded ring_valid_def, THEN conjunct1] v [unfolded ring_valid_def, THEN conjunct2, THEN conjunct1]
  by (auto simp: prepare_read_def make_prepare_def ring_empty_def ring_full_def split: if_splits)

lemma prepare_write_cases:
  assumes v: "ring_valid b"
  shows "iovec_array (prepare_write b) =
    (if readable b = capacity b then [(0, 0), (0, 0)]
     else if capacity b \<le> read_pos b + readable b \<or> readable b = 0 \<and> read_pos b = 0
     then [(write_pos b, capacity b - readable b), (0, 0)]
     else [(write_pos b, capacity b - write_pos b), (0, read_pos b)])"
  using write_cases [OF v] v [unfolded ring_valid_def, THEN conjunct1] v [unfolded ring_valid_def, THEN conjunct2, THEN conjunct1]
  by (auto simp: prepare_write_def make_prepare_def ring_empty_def ring_full_def
      w_available_def split: if_splits)

lemma gather_contents:
  assumes v: "ring_valid b"
  shows "gather (iovec_array (prepare_read b)) (buffer b) = contents b"
proof -
  have "readable b \<le> capacity b" "read_pos b < capacity b" using v by (auto simp: ring_valid_def)
  then show ?thesis
    unfolding prepare_read_cases [OF v]
    by (auto simp: gather_def contents_def subspan_def ring_slice_linear ring_slice_wrapped)
qed

lemma prepared_bytes_read:
  assumes v: "ring_valid b"
  shows "prepared_bytes (prepare_read b) = readable b"
proof -
  have "read_pos b < capacity b" using v by (simp add: ring_valid_def)
  then show ?thesis by (simp add: prepared_bytes_def prepare_read_cases [OF v])
qed

lemma prepared_bytes_write:
  assumes v: "ring_valid b"
  shows "prepared_bytes (prepare_write b) = w_available b"
proof -
  have "read_pos b < capacity b" "readable b \<le> capacity b" using v by (simp_all add: ring_valid_def)
  with write_cases [OF v] show ?thesis
    by (simp add: prepared_bytes_def prepare_write_cases [OF v] w_available_def split: if_splits)
qed

lemma ring_store_split:
  assumes "s < length buf" and "length ys \<le> length buf"
  shows "ring_store buf s ys =
    write_at 0 (drop (length buf - s) ys) (write_at s (take (length buf - s) ys) buf)"
proof (cases "length ys \<le> length buf - s")
  case True
  with assms show ?thesis by (simp add: ring_store_linear)
next
  case False
  let ?k = "length buf - s"
  have "ring_store buf s ys = ring_store (ring_store buf s (take ?k ys)) (s + ?k) (drop ?k ys)"
    using ring_store_append [of buf s "take ?k ys" "drop ?k ys"] False by (simp add: min_def)
  also have "ring_store buf s (take ?k ys) = write_at s (take ?k ys) buf"
    using assms by (intro ring_store_linear) simp
  also have "s + ?k = length buf" using assms by simp
  also have "ring_store (write_at s (take ?k ys) buf) (length buf) (drop ?k ys) =
      ring_store (write_at s (take ?k ys) buf) 0 (drop ?k ys)"
    using ring_store_mod [of "write_at s (take ?k ys) buf" "length buf" "drop ?k ys"] assms by simp
  also have "\<dots> = write_at 0 (drop ?k ys) (write_at s (take ?k ys) buf)"
    using assms by (intro ring_store_linear) simp
  finally show ?thesis .
qed

lemma scatter_store:
  assumes v: "ring_valid b" and fit: "length bytes \<le> w_available b"
  shows "scatter (iovec_array (prepare_write b)) bytes (buffer b) = ring_store (buffer b) (write_pos b) bytes"
proof -
  have b: "readable b \<le> capacity b" "read_pos b < capacity b" using v by (auto simp: ring_valid_def)
  have w: "write_pos b < capacity b" using v b by (auto simp: ring_valid_def intro: mod_less_divisor)
  consider (full) "readable b = capacity b"
    | (one) "readable b \<noteq> capacity b" "capacity b \<le> read_pos b + readable b \<or> readable b = 0 \<and> read_pos b = 0"
    | (two) "readable b \<noteq> capacity b" "\<not> (capacity b \<le> read_pos b + readable b \<or> readable b = 0 \<and> read_pos b = 0)"
    by blast
  then show ?thesis
  proof cases
    case full
    then show ?thesis using fit by (simp add: w_available_def prepare_write_cases [OF v])
  next
    case one
    then have "write_pos b + length bytes \<le> capacity b"
      using write_cases [OF v] fit b by (auto simp: w_available_def split: if_splits)
    then show ?thesis
      using one fit by (simp add: prepare_write_cases [OF v] ring_store_linear w_available_def)
  next
    case two
    then have "length bytes \<le> capacity b - write_pos b + read_pos b"
      using write_cases [OF v] fit by (auto simp: w_available_def split: if_splits)
    moreover have "length bytes \<le> capacity b" using fit by (simp add: w_available_def)
    moreover have "iovec_array (prepare_write b) = [(write_pos b, capacity b - write_pos b), (0, read_pos b)]"
      using two by (simp only: prepare_write_cases [OF v] if_False)
    ultimately show ?thesis using w by (simp add: ring_store_split)
  qed
qed

lemma contents_store:
  assumes v: "ring_valid b" and fit: "length bytes \<le> w_available b"
  shows "ring_slice (ring_store (buffer b) (write_pos b) bytes) (read_pos b) (readable b + length bytes) = contents b @ bytes"
proof -
  have "ring_store (buffer b) (write_pos b) bytes = ring_store (buffer b) (read_pos b + readable b) bytes"
    using v ring_store_mod [of "buffer b" "read_pos b + readable b"] by (simp add: ring_valid_def)
  moreover have "readable b + length bytes \<le> capacity b" using v fit by (rule fits)
  ultimately show ?thesis unfolding contents_def by (simp only: ring_slice_store)
qed

lemma ring_receive_contents:
  assumes v: "ring_valid b" and fit: "length bytes \<le> w_available b"
  shows "\<exists>b'. ring_receive bytes b = Inr b' \<and> ring_valid b' \<and> contents b' = contents b @ bytes
    \<and> capacity b' = capacity b"
proof (cases "bytes = []")
  case True
  have "buffer b = scatter (iovec_array (prepare_write b)) [] (buffer b)"
    using scatter_store [OF v, of "[]"] by simp
  then have "b\<lparr>buffer := scatter (iovec_array (prepare_write b)) [] (buffer b)\<rparr> = b" by (cases b) simp
  with True v show ?thesis by (simp add: ring_receive_def commit_write_def)
next
  case False
  let ?b = "b\<lparr>buffer := ring_store (buffer b) (write_pos b) bytes,
    write_pos := (write_pos b + length bytes) mod capacity b, readable := readable b + length bytes\<rparr>"
  have "ring_receive bytes b = Inr ?b"
    using False fit by (simp add: ring_receive_def commit_write_def scatter_store [OF v fit]
        w_available_def ring_mask_mod)
  moreover have "ring_valid ?b"
    using v fits [OF v fit] by (simp add: ring_valid_def mod_add_left_eq add.assoc)
  moreover have "contents ?b = contents b @ bytes"
    using contents_store [OF v fit] by (simp add: contents_def)
  ultimately show ?thesis by simp
qed

lemma commit_read_contents:
  assumes v: "ring_valid b" and le: "n \<le> r_available b"
  shows "\<exists>b'. commit_read n b = Inr b' \<and> ring_valid b' \<and> contents b' = drop n (contents b)
    \<and> capacity b' = capacity b"
proof (cases "n = 0")
  case False
  let ?b = "b\<lparr>read_pos := (read_pos b + n) mod capacity b, readable := readable b - n\<rparr>"
  have nr: "n \<le> readable b" using le by (simp add: r_available_def)
  have "commit_read n b = Inr ?b" using False le by (simp add: commit_read_def ring_mask_mod)
  moreover have "ring_valid ?b"
  proof -
    have "((read_pos b + n) mod capacity b + (readable b - n)) mod capacity b =
        (read_pos b + n + (readable b - n)) mod capacity b" by (rule mod_add_left_eq)
    then show ?thesis using v nr by (auto simp: ring_valid_def intro!: mod_less_divisor)
  qed
  moreover have "contents ?b = drop n (contents b)"
    using nr by (simp add: contents_def ring_slice_mod ring_slice_drop)
  ultimately show ?thesis by simp
qed (use v in \<open>simp add: commit_read_def\<close>)

lemma new_ring_valid: "bytes \<noteq> [] \<Longrightarrow> ring_valid (new_ring bytes) \<and> contents (new_ring bytes) = []"
  by (simp add: ring_valid_def new_ring_def contents_def)

lemma reset_valid: "ring_valid b \<Longrightarrow> ring_valid (ring_reset b) \<and> contents (ring_reset b) = []"
  by (auto simp: ring_valid_def ring_reset_def contents_def)

interpretation ring: fifo_channel ring_valid contents w_available ring_receive commit_read
  using ring_receive_contents commit_read_contents
  by unfold_locales (fastforce simp: r_available_def)+

section \<open>Properties\<close>

text \<open>The regions prepared for reading hold the buffered bytes in order, those prepared
  for writing have exactly the free room, and data received into them and committed is
  appended to the buffered bytes, wherever the window wraps around.\<close>

lemma ring_regions:
  assumes "ring_valid b"
  shows "gather (iovec_array (prepare_read b)) (buffer b) = contents b
    \<and> prepared_bytes (prepare_read b) = readable b
    \<and> prepared_bytes (prepare_write b) = w_available b
    \<and> (length bytes \<le> w_available b \<longrightarrow>
        (\<exists>b'. ring_receive bytes b = Inr b' \<and> ring_valid b' \<and> contents b' = contents b @ bytes))
    \<and> (n \<le> r_available b \<longrightarrow>
        (\<exists>b'. commit_read n b = Inr b' \<and> ring_valid b' \<and> contents b' = drop n (contents b)))"
  using gather_contents prepared_bytes_read prepared_bytes_write ring_receive_contents
    commit_read_contents assms by blast

text \<open>Committing more bytes than were available fails the assertion, for reads and for
  writes; nothing wraps silently.\<close>

lemma ring_overcommit:
  "(r_available b < n \<longrightarrow> commit_read n b = Inl Assertion_failed)
   \<and> (w_available b < n \<longrightarrow> commit_write n b = Inl Assertion_failed)"
  by (auto simp: commit_read_def commit_write_def)




end
