(* ===== verification/Messages.thy ===== *)
theory Messages
  imports RingBuffer
begin

text \<open>
  \<^verbatim>\<open>src/Client/bittorrent_messages.hpp\<close>: the handshake of the peer wire protocol.  The encoder
  copies a prepared handshake into a ring buffer of any size, resuming at the frame cursor; the
  decoder reads a full 68-byte ring buffer in place, part by part, over the one or two regions
  the window occupies.  An iteration of the decoder's loop is the composition of one stage per
  part; a stage falls through to the next one, continues with the second region, or stops.
\<close>

section \<open>Lengths and parts\<close>

definition length_handshake :: nat where
  "length_handshake = 68"

datatype handshake_offset = Pstrlen | Pstr | Reserved | Info_hash | Peer_id

definition protocol_string_length :: byte where
  "protocol_string_length = 19"

definition protocol_string :: string where
  "protocol_string = ''BitTorrent protocol''"

record decode_result =
  complete :: bool
  is_valid :: bool

definition saturating_sub :: "nat \<Rightarrow> nat \<Rightarrow> nat" where
  "saturating_sub a b = (if b \<le> a then a - b else 0)"

section \<open>Encoding\<close>

fun encode_iovecs :: "byte list \<Rightarrow> (nat \<times> nat) list \<Rightarrow> nat \<Rightarrow> io_ring_buffer \<Rightarrow>
    fault + (bool \<times> nat \<times> io_ring_buffer)" where
  "encode_iovecs handshake [] encode_cursor b = Inr (False, encode_cursor, b)"
| "encode_iovecs handshake ((iov_base, iov_len) # iovs) encode_cursor b =
     (if iov_len = 0 then Inr (False, encode_cursor, b)
      else
        let io_length = min (length_handshake - encode_cursor) iov_len;
            b = b\<lparr>buffer := write_at iov_base (subspan encode_cursor io_length handshake) (buffer b)\<rparr>;
            encode_cursor = encode_cursor + io_length
        in case commit_write io_length b of
             Inl f \<Rightarrow> Inl f
           | Inr b \<Rightarrow>
               if encode_cursor = length_handshake then Inr (True, encode_cursor, b)
               else encode_iovecs handshake iovs encode_cursor b)"

definition handshake_encode :: "byte list \<Rightarrow> io_ring_buffer \<Rightarrow> nat \<Rightarrow>
    fault + (bool \<times> nat \<times> io_ring_buffer)" where
  "handshake_encode handshake b frame =
     (if length_handshake \<le> frame then Inr (True, frame, b)
      else
        let prepare = prepare_write b
        in if prepare_empty prepare then Inr (False, frame, b)
           else encode_iovecs handshake (take (prepared_iovecs prepare) (iovec_array prepare)) frame b)"

section \<open>Decoding\<close>

text \<open>The state of one iteration; \<open>io_view\<close> is a region of the buffer.\<close>

record decode_state =
  range :: handshake_offset
  prepared :: prepare_t
  io_view :: "nat \<times> nat"
  valid_so_far :: bool
  peer_id_ref :: "byte list option"

datatype 'a flow = Fall 'a | Continue 'a | Break 'a

fun bind_flow :: "'a flow \<Rightarrow> ('a \<Rightarrow> 'a flow) \<Rightarrow> 'a flow" where
  "bind_flow (Fall x) f = f x"
| "bind_flow (Continue x) f = Continue x"
| "bind_flow (Break x) f = Break x"

definition wraparound_steal :: "prepare_t \<Rightarrow> nat \<Rightarrow> (nat \<times> nat) \<times> prepare_t" where
  "wraparound_steal p n =
     (let (iov_base, iov_len) = iovec_array p ! 1
      in ((iov_base, n), p\<lparr>iovec_array := (iovec_array p)[1 := (iov_base + n, iov_len - n)]\<rparr>))"

definition drop_view :: "nat \<Rightarrow> nat \<times> nat \<Rightarrow> nat \<times> nat" where
  "drop_view n v = (fst v + n, snd v - n)"

definition bytes_of :: "byte list \<Rightarrow> nat \<times> nat \<Rightarrow> byte list" where
  "bytes_of buf v = subspan (fst v) (snd v) buf"

definition stage_pstrlen :: "byte list \<Rightarrow> decode_state \<Rightarrow> decode_state flow" where
  "stage_pstrlen buf st =
     (if range st \<noteq> Pstrlen then Fall st
      else if snd (io_view st) < 1 then Continue st
      else
        let ok = (buf ! fst (io_view st) = 0x13);
            st = st\<lparr>valid_so_far := ok, io_view := drop_view 1 (io_view st)\<rparr>
        in if \<not> ok then Break st else Fall (st\<lparr>range := Pstr\<rparr>))"

definition stage_pstr :: "decode_state \<Rightarrow> decode_state flow" where
  "stage_pstr st =
     (if range st \<noteq> Pstr then Fall st
      else if snd (io_view st) < 19 then
        let (remaining, prepare') = wraparound_steal (prepared st) (19 - snd (io_view st))
        in Continue (st\<lparr>prepared := prepare', valid_so_far := True, range := Reserved\<rparr>)
      else Fall (st\<lparr>valid_so_far := True, io_view := drop_view 19 (io_view st), range := Reserved\<rparr>))"

definition stage_reserved :: "decode_state \<Rightarrow> decode_state flow" where
  "stage_reserved st =
     (if range st \<noteq> Reserved then Fall st
      else if snd (io_view st) < 8 then
        let (remaining, prepare') = wraparound_steal (prepared st) (8 - snd (io_view st))
        in Continue (st\<lparr>prepared := prepare', valid_so_far := True, range := Info_hash\<rparr>)
      else Fall (st\<lparr>valid_so_far := True, io_view := drop_view 8 (io_view st), range := Info_hash\<rparr>))"

definition stage_info_hash :: "byte list \<Rightarrow> byte list \<Rightarrow> decode_state \<Rightarrow> decode_state flow" where
  "stage_info_hash info_hash_seq buf st =
     (if range st \<noteq> Info_hash then Fall st
      else if snd (io_view st) < 20 then
        let (remaining, prepare') = wraparound_steal (prepared st) (20 - snd (io_view st));
            ok = (take (snd (io_view st)) info_hash_seq = bytes_of buf (io_view st)
              \<and> drop (snd (io_view st)) info_hash_seq = bytes_of buf remaining);
            st = st\<lparr>prepared := prepare', valid_so_far := ok\<rparr>
        in if \<not> ok then Break st else Continue (st\<lparr>range := Peer_id\<rparr>)
      else
        let ok = (info_hash_seq = take 20 (bytes_of buf (io_view st)));
            st = st\<lparr>valid_so_far := ok, io_view := drop_view 20 (io_view st)\<rparr>
        in if \<not> ok then Break st else Fall (st\<lparr>range := Peer_id\<rparr>))"

definition stage_peer_id :: "byte list \<Rightarrow> decode_state \<Rightarrow> decode_state flow" where
  "stage_peer_id buf st =
     (if range st \<noteq> Peer_id then Fall st
      else
        let peer_id = (case peer_id_ref st of None \<Rightarrow> replicate 20 0 | Some p \<Rightarrow> p)
        in if snd (io_view st) < 20 then
             let (remaining, prepare') = wraparound_steal (prepared st) (20 - snd (io_view st));
                 peer_id = write_at 0 (bytes_of buf (io_view st)) peer_id;
                 peer_id = write_at (snd (io_view st)) (bytes_of buf remaining) peer_id
             in Break (st\<lparr>prepared := prepare', peer_id_ref := Some peer_id\<rparr>)
           else
             let peer_id = write_at 0 (take 20 (bytes_of buf (io_view st))) peer_id
             in Break (st\<lparr>io_view := drop_view 20 (io_view st), peer_id_ref := Some peer_id\<rparr>))"

definition decode_iteration :: "byte list \<Rightarrow> byte list \<Rightarrow> nat \<Rightarrow> decode_state \<Rightarrow> decode_state flow" where
  "decode_iteration info_hash_seq buf index st =
     (let st = st\<lparr>io_view := iovec_array (prepared st) ! index\<rparr>
      in bind_flow (bind_flow (bind_flow (bind_flow
           (stage_pstrlen buf st) stage_pstr) stage_reserved)
           (stage_info_hash info_hash_seq buf)) (stage_peer_id buf))"

fun decode_indices :: "byte list \<Rightarrow> byte list \<Rightarrow> nat list \<Rightarrow> decode_state \<Rightarrow> decode_state" where
  "decode_indices info_hash_seq buf [] st = st"
| "decode_indices info_hash_seq buf (index # indices) st =
     (case decode_iteration info_hash_seq buf index st of
        Break st \<Rightarrow> st
      | Continue st \<Rightarrow> decode_indices info_hash_seq buf indices st
      | Fall st \<Rightarrow> decode_indices info_hash_seq buf indices st)"

definition handshake_decode :: "io_ring_buffer \<Rightarrow> byte list \<Rightarrow> byte list option \<Rightarrow>
    fault + (decode_result \<times> byte list option \<times> io_ring_buffer)" where
  "handshake_decode b info_hash_seq peer_id =
     (let p = prepare_read b
      in if prepared_bytes p < length_handshake
         then Inr (\<lparr>complete = False, is_valid = False\<rparr>, peer_id, b)
         else if \<not> (prepared_iovecs p = 2 \<or> prepared_iovecs p = 1) then Inl Assertion_failed
         else
           let st = decode_indices info_hash_seq (buffer b) [0..<prepared_iovecs p]
                 \<lparr>range = Pstrlen, prepared = p, io_view = (0, 0), valid_so_far = False, peer_id_ref = peer_id\<rparr>
           in case commit_read length_handshake b of
                Inl f \<Rightarrow> Inl f
              | Inr b \<Rightarrow> Inr (\<lparr>complete = True, is_valid = valid_so_far st\<rparr>, peer_id_ref st, b))"

section \<open>The encoder resumes\<close>

lemma commit_region:
  assumes v: "ring_valid b" and fit: "length bytes \<le> w_available b" "write_pos b + length bytes \<le> capacity b"
  shows "\<exists>b'. commit_write (length bytes) (b\<lparr>buffer := write_at (write_pos b) bytes (buffer b)\<rparr>) = Inr b'
    \<and> ring_valid b' \<and> contents b' = contents b @ bytes \<and> capacity b' = capacity b
    \<and> write_pos b' = (write_pos b + length bytes) mod capacity b \<and> read_pos b' = read_pos b"
proof -
  have "write_at (write_pos b) bytes (buffer b) = ring_store (buffer b) (write_pos b) bytes"
    using fit(2) by (simp add: ring_store_linear)
  also have "\<dots> = scatter (iovec_array (prepare_write b)) bytes (buffer b)"
    using scatter_store [OF v fit(1)] by simp
  finally have eq: "commit_write (length bytes) (b\<lparr>buffer := write_at (write_pos b) bytes (buffer b)\<rparr>) =
      ring_receive bytes b" by (simp add: ring_receive_def)
  obtain b' where b': "ring_receive bytes b = Inr b'" "ring_valid b'" "contents b' = contents b @ bytes"
    "capacity b' = capacity b" using ring_receive_contents [OF v fit(1)] by blast
  moreover have "write_pos b' = (write_pos b + length bytes) mod capacity b \<and> read_pos b' = read_pos b"
    using b'(1) write_at_end [OF v] fit(2)
    by (auto simp: ring_receive_def commit_write_def ring_mask_mod scatter_store [OF v fit(1)] split: if_splits)
  ultimately show ?thesis unfolding eq by blast
qed

lemma available_after:
  assumes "ring_valid b" "ring_valid b'" "contents b' = contents b @ xs" "capacity b' = capacity b"
  shows "w_available b' = w_available b - length xs"
proof -
  have "readable b' = readable b + length xs" using assms(3) by (metis length_append length_contents)
  with assms(4) show ?thesis by (simp add: w_available_def)
qed

lemma prepare_write_regions:
  assumes v: "ring_valid b"
  shows "take (prepared_iovecs (prepare_write b)) (iovec_array (prepare_write b)) =
    (if readable b = capacity b then []
     else if capacity b \<le> read_pos b + readable b \<or> readable b = 0 \<and> read_pos b = 0
     then [(write_pos b, capacity b - readable b)]
     else [(write_pos b, capacity b - write_pos b), (0, read_pos b)])"
    and "prepared_iovecs (prepare_write b) =
    (if readable b = capacity b then 0
     else if capacity b \<le> read_pos b + readable b \<or> readable b = 0 \<and> read_pos b = 0 then 1 else 2)"
  using write_cases [OF v] v [unfolded ring_valid_def, THEN conjunct1]
    v [unfolded ring_valid_def, THEN conjunct2, THEN conjunct1]
  by (auto simp: prepare_write_def make_prepare_def ring_empty_def ring_full_def w_available_def split: if_splits)

text \<open>What one call must achieve.\<close>

definition encoded_some :: "byte list \<Rightarrow> io_ring_buffer \<Rightarrow> nat \<Rightarrow> fault + (bool \<times> nat \<times> io_ring_buffer) \<Rightarrow> bool" where
  "encoded_some handshake b cursor r \<longleftrightarrow>
     (let n = min (length_handshake - cursor) (w_available b) in
      \<exists>b'. r = Inr (cursor + n = length_handshake, cursor + n, b') \<and> ring_valid b' \<and>
        contents b' = contents b @ subspan cursor n handshake \<and> capacity b' = capacity b)"

lemma encode_one_region:
  assumes v: "ring_valid b" and h: "length handshake = length_handshake" and c: "cursor < length_handshake"
    and len: "0 < len" "len \<le> w_available b" "write_pos b + len \<le> capacity b"
  shows "\<exists>b'. commit_write (min (length_handshake - cursor) len)
      (b\<lparr>buffer := write_at (write_pos b) (subspan cursor (min (length_handshake - cursor) len) handshake) (buffer b)\<rparr>) = Inr b'
    \<and> ring_valid b' \<and> contents b' = contents b @ subspan cursor (min (length_handshake - cursor) len) handshake
    \<and> capacity b' = capacity b \<and> read_pos b' = read_pos b
    \<and> write_pos b' = (write_pos b + min (length_handshake - cursor) len) mod capacity b"
proof -
  let ?xs = "subspan cursor (min (length_handshake - cursor) len) handshake"
  have l: "length ?xs = min (length_handshake - cursor) len" using h c by (intro length_subspan) simp
  have "length ?xs \<le> w_available b" "write_pos b + length ?xs \<le> capacity b" unfolding l using len by simp_all
  from commit_region [OF v this] show ?thesis unfolding l by blast
qed

lemma subspan_add: "subspan c (m + n) xs = subspan c m xs @ subspan (c + m) n xs"
  by (simp add: subspan_def take_add add.commute)

lemma handshake_encode_some:
  assumes v: "ring_valid b" and h: "length handshake = length_handshake" and c: "cursor \<le> length_handshake"
  shows "encoded_some handshake b cursor (handshake_encode handshake b cursor)"
proof (cases "cursor = length_handshake")
  case True
  then show ?thesis using v by (simp add: encoded_some_def handshake_encode_def subspan_def)
next
  case False
  then have c': "cursor < length_handshake" using c by simp
  have b: "read_pos b < capacity b" "readable b \<le> capacity b" using v by (auto simp: ring_valid_def)
  have w: "write_pos b < capacity b" using v by (rule write_at_end)
  consider (full) "readable b = capacity b"
    | (one) "readable b \<noteq> capacity b" "capacity b \<le> read_pos b + readable b \<or> readable b = 0 \<and> read_pos b = 0"
    | (two) "readable b \<noteq> capacity b" "\<not> (capacity b \<le> read_pos b + readable b \<or> readable b = 0 \<and> read_pos b = 0)"
    by blast
  then show ?thesis
  proof cases
    case full
    then show ?thesis using c' v
      by (simp add: handshake_encode_def prepare_empty_def prepare_write_def ring_full_def make_prepare_def
          encoded_some_def w_available_def subspan_def)
  next
    case one
    have regions: "take (prepared_iovecs (prepare_write b)) (iovec_array (prepare_write b)) =
        [(write_pos b, w_available b)]" "prepared_iovecs (prepare_write b) = 1"
      using one prepare_write_regions [OF v] by (simp_all add: w_available_def)
    have len: "0 < w_available b" "w_available b \<le> w_available b" "write_pos b + w_available b \<le> capacity b"
      using one b write_cases [OF v] by (auto simp: w_available_def split: if_splits)
    obtain b' where "commit_write (min (length_handshake - cursor) (w_available b))
        (b\<lparr>buffer := write_at (write_pos b) (subspan cursor (min (length_handshake - cursor) (w_available b)) handshake) (buffer b)\<rparr>) = Inr b'"
      "ring_valid b'" "contents b' = contents b @ subspan cursor (min (length_handshake - cursor) (w_available b)) handshake"
      "capacity b' = capacity b"
      using encode_one_region [OF v h c' len] by blast
    moreover have "handshake_encode handshake b cursor = encode_iovecs handshake [(write_pos b, w_available b)] cursor b"
      unfolding regions(1) [symmetric] using c' regions(2)
      by (simp add: handshake_encode_def prepare_empty_def Let_def)
    ultimately show ?thesis using len by (auto simp: encoded_some_def Let_def)
  next
    case two
    define l1 where "l1 = capacity b - write_pos b"
    define n1 where "n1 = min (length_handshake - cursor) l1"
    have regions: "take (prepared_iovecs (prepare_write b)) (iovec_array (prepare_write b)) =
        [(write_pos b, l1), (0, read_pos b)]" "prepared_iovecs (prepare_write b) = 2"
      using two prepare_write_regions [OF v] by (simp_all add: l1_def)
    have avail: "w_available b = l1 + read_pos b" "write_pos b + l1 = capacity b" "0 < l1"
      using two b w write_cases [OF v] by (auto simp: w_available_def l1_def split: if_splits)
    have len: "0 < l1" "l1 \<le> w_available b" "write_pos b + l1 \<le> capacity b" using avail by simp_all
    obtain b1 where b1: "commit_write n1 (b\<lparr>buffer := write_at (write_pos b) (subspan cursor n1 handshake) (buffer b)\<rparr>) = Inr b1"
      "ring_valid b1" "contents b1 = contents b @ subspan cursor n1 handshake" "capacity b1 = capacity b"
      "read_pos b1 = read_pos b" "write_pos b1 = (write_pos b + n1) mod capacity b"
      using encode_one_region [OF v h c' len] unfolding n1_def by blast
    have enc: "handshake_encode handshake b cursor =
        (if cursor + n1 = length_handshake then Inr (True, cursor + n1, b1)
         else encode_iovecs handshake [(0, read_pos b)] (cursor + n1) b1)"
    proof -
      have "handshake_encode handshake b cursor = encode_iovecs handshake [(write_pos b, l1), (0, read_pos b)] cursor b"
        unfolding regions(1) [symmetric] using c' regions(2)
        by (simp add: handshake_encode_def prepare_empty_def Let_def)
      then show ?thesis using avail(3) b1(1) by (simp add: Let_def n1_def)
    qed
    show ?thesis
    proof (cases "cursor + n1 = length_handshake \<or> read_pos b = 0")
      case True
      then have "n1 = min (length_handshake - cursor) (w_available b)"
        using avail c' by (auto simp: n1_def min_def)
      then show ?thesis using True b1(1-3) b1(4) unfolding enc encoded_some_def Let_def by auto
    next
      case False
      then have n1: "n1 = l1" using c' by (auto simp: n1_def min_def split: if_splits)
      then have w1: "write_pos b1 = 0" using b1(6) avail(2) by simp
      have "length (subspan cursor n1 handshake) = n1" using h c' by (intro length_subspan) (simp add: n1_def)
      then have a1: "w_available b1 = read_pos b"
        using available_after [OF v b1(2,3,4)] avail(1) n1 by simp
      have c1: "cursor + n1 < length_handshake" using False c' by (auto simp: n1_def min_def split: if_splits)
      have len2: "0 < read_pos b" "read_pos b \<le> w_available b1" "write_pos b1 + read_pos b \<le> capacity b1"
        using False a1 w1 b b1(4) by simp_all
      obtain b2 where b2: "commit_write (min (length_handshake - (cursor + n1)) (read_pos b))
        (b1\<lparr>buffer := write_at (write_pos b1) (subspan (cursor + n1) (min (length_handshake - (cursor + n1)) (read_pos b)) handshake) (buffer b1)\<rparr>) = Inr b2"
        "ring_valid b2" "contents b2 = contents b1 @ subspan (cursor + n1) (min (length_handshake - (cursor + n1)) (read_pos b)) handshake"
        "capacity b2 = capacity b1"
        using encode_one_region [OF b1(2) h c1 len2] by blast
      define n2 where "n2 = min (length_handshake - (cursor + n1)) (read_pos b)"
      have "min (length_handshake - cursor) (w_available b) = n1 + n2"
        using c1 unfolding avail(1) n1 n2_def by (auto simp: min_def)
      moreover have "handshake_encode handshake b cursor =
          Inr (cursor + n1 + n2 = length_handshake, cursor + n1 + n2, b2)"
        using False b2(1) w1 unfolding enc n2_def by (simp add: Let_def)
      moreover have "contents b2 = contents b @ subspan cursor (n1 + n2) handshake"
        using b2(3) b1(3) by (simp add: subspan_add n2_def)
      ultimately show ?thesis using b2(2,4) b1(4) unfolding encoded_some_def Let_def by (auto simp: add.assoc)
    qed
  qed
qed


section \<open>The decoder reads the window\<close>

lemma subspan_left: "i + n \<le> length A \<Longrightarrow> subspan i n (A @ B) = subspan i n A"
  by (simp add: subspan_def)

lemma subspan_right: "length A \<le> i \<Longrightarrow> subspan i n (A @ B) = subspan (i - length A) n B"
  by (simp add: subspan_def)

lemma subspan_across:
  "i \<le> length A \<Longrightarrow> length A \<le> i + n \<Longrightarrow> subspan i n (A @ B) = drop i A @ take (i + n - length A) B"
  by (simp add: subspan_def add.commute)

lemma append_eq_split: "length xs = k + l \<Longrightarrow> take k xs = a \<and> drop k xs = b \<longleftrightarrow> xs = a @ b" if "length a = k"
  using that by (metis append_eq_conv_conj append_take_drop_id)

text \<open>The window of a full buffer: the bytes from the read position, then those before it.\<close>

lemma contents_rotated:
  assumes "ring_valid b" and "readable b = capacity b"
  shows "contents b = drop (read_pos b) (buffer b) @ take (read_pos b) (buffer b)"
  using assms by (simp add: contents_def ring_slice_wrapped ring_valid_def)

definition verdict :: "byte list \<Rightarrow> byte list \<Rightarrow> bool" where
  "verdict info_hash_seq c \<longleftrightarrow> c ! 0 = 0x13 \<and> subspan 28 20 c = info_hash_seq"

definition decoded_well :: "byte list \<Rightarrow> byte list \<Rightarrow> byte list option \<Rightarrow> decode_state \<Rightarrow> bool" where
  "decoded_well info_hash_seq c peer_id st \<longleftrightarrow> valid_so_far st = verdict info_hash_seq c
     \<and> peer_id_ref st = (if verdict info_hash_seq c then Some (subspan 48 20 c) else peer_id)"

lemmas stages = decode_iteration_def stage_pstrlen_def stage_pstr_def stage_reserved_def
  stage_info_hash_def stage_peer_id_def drop_view_def bytes_of_def wraparound_steal_def Let_def

lemma write_at_all: "length ys = length xs \<Longrightarrow> write_at 0 ys xs = ys"
  by (simp add: write_at_def)

lemma write_at_two:
  "length ys + length zs = length xs \<Longrightarrow> write_at (length ys) zs (write_at 0 ys xs) = ys @ zs"
  by (simp add: write_at_def)

lemma decode_one_region:
  assumes len: "length buf = 68" and info: "length info_hash_seq = 20"
    and peer: "\<And>p. peer_id = Some p \<Longrightarrow> length p = 20"
  shows "decoded_well info_hash_seq buf peer_id
    (decode_indices info_hash_seq buf [0..<1]
      \<lparr>range = Pstrlen, prepared = \<lparr>prepared_iovecs = 1, iovec_array = [(0, 68), (0, 0)]\<rparr>,
       io_view = (0, 0), valid_so_far = False, peer_id_ref = peer_id\<rparr>)"
  using assms
  by (cases peer_id) (auto simp: stages decoded_well_def verdict_def subspan_def write_at_all)

lemma rotated_slices:
  assumes len: "length buf = 68" and r: "0 < r" "r < (68 :: nat)"
  defines "C \<equiv> drop r buf @ take r buf"
  shows "i + n \<le> 68 - r \<Longrightarrow> subspan i n C = subspan (r + i) n buf"
    and "68 - r \<le> i \<Longrightarrow> i + n \<le> 68 \<Longrightarrow> subspan i n C = subspan (i + r - 68) n buf"
    and "i \<le> 68 - r \<Longrightarrow> 68 - r \<le> i + n \<Longrightarrow> i + n \<le> 68 \<Longrightarrow>
      subspan i n C = subspan (r + i) (68 - r - i) buf @ subspan 0 (i + n + r - 68) buf"
proof -
  assume "i + n \<le> 68 - r"
  then show "subspan i n C = subspan (r + i) n buf"
    using len by (simp add: C_def subspan_left) (simp add: subspan_def add.commute)
next
  assume "68 - r \<le> i" "i + n \<le> 68"
  moreover then have "i - (68 - r) = i + r - 68" "n + (i + r - 68) \<le> r" using r by simp_all
  ultimately show "subspan i n C = subspan (i + r - 68) n buf"
    using len by (simp add: C_def subspan_right) (simp add: subspan_def drop_take)
next
  assume *: "i \<le> 68 - r" "68 - r \<le> i + n" "i + n \<le> 68"
  then have "subspan i n C = drop i (drop r buf) @ take (i + n - (68 - r)) (take r buf)"
    using len unfolding C_def by (simp add: subspan_across)
  moreover have "i + n - (68 - r) = i + n + r - 68" "i + n + r - 68 \<le> r" using * r by simp_all
  ultimately show "subspan i n C = subspan (r + i) (68 - r - i) buf @ subspan 0 (i + n + r - 68) buf"
    using len * by (simp add: subspan_def add.commute)
qed

lemma rotated_first: "length buf = 68 \<Longrightarrow> r < (68 :: nat) \<Longrightarrow> (drop r buf @ take r buf) ! 0 = buf ! r"
  by (simp add: nth_append)

lemma take_subspan: "m \<le> n \<Longrightarrow> take m (subspan i n xs) = subspan i m xs"
  by (simp add: subspan_def)

lemma decode_two_regions:
  assumes len: "length buf = 68" and info: "length info_hash_seq = 20"
    and peer: "\<And>p. peer_id = Some p \<Longrightarrow> length p = 20" and r: "0 < r" "r < 68"
  shows "decoded_well info_hash_seq (drop r buf @ take r buf) peer_id
    (decode_indices info_hash_seq buf [0, 1]
      \<lparr>range = Pstrlen, prepared = \<lparr>prepared_iovecs = 2, iovec_array = [(r, 68 - r), (0, r)]\<rparr>,
       io_view = (0, 0), valid_so_far = False, peer_id_ref = peer_id\<rparr>)"
proof -
  let ?C = "drop r buf @ take r buf"
  have first: "?C ! 0 = buf ! r" by (rule rotated_first [OF len r(2)])
  define p where "p = (case peer_id of None \<Rightarrow> replicate 20 0 | Some p \<Rightarrow> p)"
  have p: "length p = 20" "(case peer_id of None \<Rightarrow> replicate 20 0 | Some p \<Rightarrow> p) = p"
    using peer by (cases peer_id; simp add: p_def)+
  note sl = rotated_slices [OF len r]
  consider "49 \<le> r" | "41 \<le> r" "r \<le> 48" | "21 \<le> r" "r \<le> 40" | "r \<le> 20" using r by linarith
  then show ?thesis
  proof cases
    case 1
    have "subspan 28 20 ?C = subspan (r - 40) 20 buf" "subspan 48 20 ?C = subspan (r - 20) 20 buf"
      using sl(2) [of 28 20] sl(2) [of 48 20] 1 r by simp_all
    moreover have "67 - r < 19" "19 - (67 - r) = r - 48" "r - (r - 48) = 48" "r - 48 + 8 = r - 40"
      "r - 40 + 20 = r - 20" using 1 r by linarith+
    ultimately show ?thesis using r first p info len
      by (simp add: stages decoded_well_def verdict_def take_subspan write_at_all) 
  next
    case 2
    have "subspan 28 20 ?C = subspan (r - 40) 20 buf" "subspan 48 20 ?C = subspan (r - 20) 20 buf"
      using sl(2) [of 28 20] sl(2) [of 48 20] 2 r by simp_all
    moreover have "\<not> 67 - r < 19" "48 - r < 8" "8 - (48 - r) = r - 40" "r - (r - 40) = 40"
      "r - 40 + 20 = r - 20" using 2 r by linarith+
    ultimately show ?thesis using r first p info len
      by (simp add: stages decoded_well_def verdict_def take_subspan write_at_all) 
  next
    case 3
    have C: "subspan 28 20 ?C = subspan (r + 28) (40 - r) buf @ subspan 0 (r - 20) buf"
      "subspan 48 20 ?C = subspan (r - 20) 20 buf"
      using sl(3) [of 28 20] sl(2) [of 48 20] 3 r by simp_all
    have l: "length (subspan (r + 28) (40 - r) buf) = 40 - r" using len 3 by (intro length_subspan) simp
    have "subspan 28 20 ?C = info_hash_seq \<longleftrightarrow>
        take (40 - r) info_hash_seq = subspan (28 + r) (40 - r) buf \<and>
        drop (40 - r) info_hash_seq = subspan 0 (r - 20) buf"
      unfolding C using append_eq_split [OF l, of info_hash_seq "20 - (40 - r)"] info 3 r
      by (auto simp: add.commute)
    moreover have "\<not> 67 - r < 19" "\<not> 48 - r < 8" "40 - r < 20" "20 - (40 - r) = r - 20" "r - (r - 20) = 20"
      using 3 r by linarith+
    ultimately show ?thesis using r first p info len C(2)
      by (simp add: stages decoded_well_def verdict_def take_subspan write_at_all) 
  next
    case 4
    have C: "subspan 28 20 ?C = subspan (28 + r) 20 buf"
      "subspan 48 20 ?C = subspan (48 + r) (20 - r) buf @ subspan 0 r buf"
      using sl(1) [of 28 20] sl(3) [of 48 20] 4 r by (simp_all add: add.commute)
    have l: "length (subspan (48 + r) (20 - r) buf) = 20 - r" "length (subspan 0 r buf) = r"
      using len 4 by (intro length_subspan; simp)+
    have "write_at (20 - r) (subspan 0 r buf) (write_at 0 (subspan (48 + r) (20 - r) buf) p) =
        subspan 48 20 ?C"
      unfolding C(2) using write_at_two [of "subspan (48 + r) (20 - r) buf" "subspan 0 r buf" p] l p 4 by simp
    moreover have "\<not> 67 - r < 19" "\<not> 48 - r < 8" "\<not> 40 - r < 20" "20 - r < 20" "20 - (20 - r) = r"
      using 4 r by linarith+
    ultimately show ?thesis using r first p info len C(1)
      by (simp add: stages decoded_well_def verdict_def take_subspan write_at_all) 
  qed
qed

lemma decode_regions:
  assumes v: "ring_valid b" and cap: "capacity b = 68" and full: "readable b = 68"
  shows "prepare_read b = (if read_pos b = 0
     then \<lparr>prepared_iovecs = 1, iovec_array = [(0, 68), (0, 0)]\<rparr>
     else \<lparr>prepared_iovecs = 2, iovec_array = [(read_pos b, 68 - read_pos b), (0, read_pos b)]\<rparr>)"
  using write_cases [OF v] cap full
  by (auto simp: prepare_read_def make_prepare_def ring_empty_def ring_full_def)

lemma handshake_decode_full:
  assumes v: "ring_valid b" and cap: "capacity b = 68" and full: "readable b = 68"
    and info: "length info_hash_seq = 20" and peer: "\<And>p. peer_id = Some p \<Longrightarrow> length p = 20"
  shows "\<exists>b'. handshake_decode b info_hash_seq peer_id =
      Inr (\<lparr>complete = True, is_valid = verdict info_hash_seq (contents b)\<rparr>,
        if verdict info_hash_seq (contents b) then Some (subspan 48 20 (contents b)) else peer_id, b')
    \<and> ring_valid b' \<and> contents b' = [] \<and> capacity b' = capacity b"
proof -
  obtain b' where b': "commit_read length_handshake b = Inr b'" "ring_valid b'" "contents b' = []" "capacity b' = capacity b"
    using commit_read_contents [OF v, of length_handshake] full
    by (auto simp: length_handshake_def r_available_def)
  let ?st = "decode_indices info_hash_seq (buffer b) [0..<prepared_iovecs (prepare_read b)]
     \<lparr>range = Pstrlen, prepared = prepare_read b, io_view = (0, 0), valid_so_far = False, peer_id_ref = peer_id\<rparr>"
  have C: "contents b = drop (read_pos b) (buffer b) @ take (read_pos b) (buffer b)"
    using contents_rotated [OF v] cap full by simp
  have "decoded_well info_hash_seq (contents b) peer_id ?st"
  proof (cases "read_pos b = 0")
    case True
    then show ?thesis
      using decode_one_region [OF cap info peer] C by (simp add: decode_regions [OF v cap full])
  next
    case False
    moreover have "read_pos b < 68" using v cap by (simp add: ring_valid_def)
    moreover have "[0..<2] = [0, Suc 0]" by (simp add: upt_rec)
    ultimately show ?thesis
      using decode_two_regions [OF cap info peer, of peer_id "read_pos b"] unfolding C
      by (simp add: decode_regions [OF v cap full])
  qed
  moreover have "prepared_iovecs (prepare_read b) = 2 \<or> prepared_iovecs (prepare_read b) = 1"
    by (simp add: decode_regions [OF v cap full])
  ultimately show ?thesis using b' full
    by (simp add: handshake_decode_def Let_def prepared_bytes_read [OF v] length_handshake_def decoded_well_def)
qed

lemma handshake_decode_short:
  assumes "ring_valid b" and "readable b < 68"
  shows "handshake_decode b info_hash_seq peer_id =
    Inr (\<lparr>complete = False, is_valid = False\<rparr>, peer_id, b)"
  using assms by (simp add: handshake_decode_def Let_def prepared_bytes_read length_handshake_def)

section \<open>Properties\<close>

text \<open>One call of the handshake encoder appends to the send buffer the next bytes of the
  handshake, as many as fit, over both free regions; it reports completion exactly when the
  cursor has reached the end, and the cursor it leaves is where the next call resumes.\<close>

lemma handshake_encode_resumes:
  assumes "ring_valid b" and "length handshake = length_handshake" and "cursor \<le> length_handshake"
  shows "let n = min (length_handshake - cursor) (w_available b) in
    \<exists>b'. handshake_encode handshake b cursor = Inr (cursor + n = length_handshake, cursor + n, b')
      \<and> ring_valid b' \<and> contents b' = contents b @ subspan cursor n handshake"
  using handshake_encode_some [OF assms] unfolding encoded_some_def Let_def by blast

text \<open>C32: the handshake decoder's verdict depends only on the 68 buffered bytes, not on where
  the window wraps: it waits for all of them, then accepts exactly when the first byte is 19
  and bytes 28 to 47 are the info hash, takes the peer id from bytes 48 to 67 only when it
  accepts, and consumes the message.\<close>

theorem handshake_decode_window:
  assumes "ring_valid b" and "capacity b = 68" and "length info_hash_seq = 20"
    and "\<And>p. peer_id = Some p \<Longrightarrow> length p = 20"
  shows "if readable b < 68
    then handshake_decode b info_hash_seq peer_id = Inr (\<lparr>complete = False, is_valid = False\<rparr>, peer_id, b)
    else \<exists>b'. handshake_decode b info_hash_seq peer_id =
        Inr (\<lparr>complete = True, is_valid = (contents b ! 0 = 0x13 \<and> subspan 28 20 (contents b) = info_hash_seq)\<rparr>,
          if contents b ! 0 = 0x13 \<and> subspan 28 20 (contents b) = info_hash_seq
          then Some (subspan 48 20 (contents b)) else peer_id, b')
      \<and> ring_valid b' \<and> contents b' = []"
proof (cases "readable b < 68")
  case False
  then have "readable b = 68" using assms(1,2) by (simp add: ring_valid_def)
  from handshake_decode_full [OF assms(1,2) this assms(3), of peer_id] assms(4)
  show ?thesis unfolding verdict_def if_not_P [OF False] by blast
qed (simp add: handshake_decode_short assms)

theorem handshake_decode_window_witness:
  "\<exists>b'. handshake_decode \<lparr>read_pos = 30, write_pos = 30, readable = 68,
        buffer = replicate 30 7 @ [0x13] @ replicate 37 7\<rparr> (replicate 20 7) None =
      Inr (\<lparr>complete = True, is_valid = True\<rparr>, Some (replicate 20 7), b') \<and> ring_valid b' \<and> contents b' = []"
proof -
  let ?buf = "replicate 30 7 @ [0x13] @ replicate 37 (7 :: byte)"
  let ?b = "\<lparr>read_pos = 30, write_pos = 30, readable = 68, buffer = ?buf\<rparr>"
  have v: "ring_valid ?b" by (simp add: ring_valid_def)
  have c: "contents ?b = [0x13] @ replicate 67 7"
    using contents_rotated [OF v] by (simp flip: replicate_add)
  show ?thesis
    using handshake_decode_window [OF v, of "replicate 20 7" None] unfolding c
    by (simp add: subspan_def drop_Cons')
qed

text \<open>C33: a handshake encoded into the buffer of the other side, wherever its window starts, is
  decoded as valid with the peer id it carries.\<close>

theorem handshake_roundtrip:
  assumes "ring_valid b" and "capacity b = 68" and "contents b = []" and "length handshake = 68"
    and "handshake ! 0 = 0x13"
  shows "\<exists>b1 b2. handshake_encode handshake b 0 = Inr (True, 68, b1) \<and>
    handshake_decode b1 (subspan 28 20 handshake) None =
      Inr (\<lparr>complete = True, is_valid = True\<rparr>, Some (subspan 48 20 handshake), b2) \<and> contents b2 = []"
proof -
  have r: "readable b = 0" using assms(3) by (metis length_contents list.size(3))
  then have "w_available b = 68" using assms(2) by (simp add: w_available_def)
  then obtain b1 where b1: "handshake_encode handshake b 0 = Inr (True, 68, b1)" "ring_valid b1"
    "contents b1 = handshake" "capacity b1 = 68"
    using handshake_encode_some [OF assms(1), of handshake 0] assms(2,3,4)
    by (auto simp: encoded_some_def Let_def length_handshake_def subspan_def)
  have "readable b1 = 68" using b1(3) assms(4) by (metis length_contents)
  moreover have "verdict (subspan 28 20 handshake) handshake" using assms(5) by (simp add: verdict_def)
  ultimately show ?thesis
    using handshake_decode_full [OF b1(2), of "subspan 28 20 handshake" None] assms(4) b1 by auto
qed

theorem handshake_roundtrip_witness:
  "\<exists>b1 b2. handshake_encode ([0x13] @ replicate 67 5) (new_ring (replicate 68 0)) 0 = Inr (True, 68, b1) \<and>
    handshake_decode b1 (subspan 28 20 ([0x13] @ replicate 67 5)) None =
      Inr (\<lparr>complete = True, is_valid = True\<rparr>, Some (subspan 48 20 ([0x13] @ replicate 67 5)), b2) \<and> contents b2 = []"
  using new_ring_valid [of "replicate 68 0"]
  by (intro handshake_roundtrip) (simp_all add: new_ring_def)

end
