(* ===== verification/SlotPool.thy ===== *)
theory SlotPool
  imports Interfaces
begin

text \<open>
  \<^verbatim>\<open>src/Client/slot_pool.hpp\<close>: the fixed pool that recycles connection objects.  A pointer into
  the pool is the index of its slot.  The free list is a stack; every release increments the
  slot's generation, which wraps around at the width of \<open>size_t\<close>.
\<close>

section \<open>The pool\<close>

record 'a pool_slot =
  object :: 'a
  generation :: nat

record 'a slot_recycling_pool =
  pool :: "'a pool_slot list"
  available_slots :: "nat list"
  occupied :: "bool list"

definition new_pool :: "nat \<Rightarrow> 'a \<Rightarrow> 'a slot_recycling_pool" where
  "new_pool N x =
     \<lparr>pool = replicate N \<lparr>object = x, generation = 0\<rparr>,
      available_slots = [0..<N],
      occupied = replicate N False\<rparr>"

definition acquire :: "'a slot_recycling_pool \<Rightarrow> nat option \<times> 'a slot_recycling_pool" where
  "acquire p =
     (if available_slots p = [] then (None, p)
      else
        let slot = last (available_slots p)
        in (Some slot,
            p\<lparr>available_slots := butlast (available_slots p), occupied := (occupied p)[slot := True]\<rparr>))"

definition release :: "nat \<Rightarrow> 'a slot_recycling_pool \<Rightarrow> fault + 'a slot_recycling_pool" where
  "release slot_index p =
     (if \<not> slot_index < length (pool p) then Inl Assertion_failed
      else if \<not> occupied p ! slot_index then Inl Assertion_failed
      else
        let s = pool p ! slot_index
        in Inr (p\<lparr>pool := (pool p)[slot_index := s\<lparr>generation := sz_add (generation s) 1\<rparr>],
                  available_slots := available_slots p @ [slot_index],
                  occupied := (occupied p)[slot_index := False]\<rparr>))"

definition available :: "'a slot_recycling_pool \<Rightarrow> nat" where
  "available p = length (available_slots p)"

definition active :: "'a slot_recycling_pool \<Rightarrow> nat" where
  "active p = length (pool p) - available p"

section \<open>Free and live slots\<close>

definition live_slots :: "'a slot_recycling_pool \<Rightarrow> nat set" where
  "live_slots p = {i. i < length (pool p) \<and> occupied p ! i}"

definition pool_valid :: "'a slot_recycling_pool \<Rightarrow> bool" where
  "pool_valid p \<longleftrightarrow> length (occupied p) = length (pool p) \<and> distinct (available_slots p)
     \<and> set (available_slots p) = {..<length (pool p)} - live_slots p"

lemma finite_live [simp]: "finite (live_slots p)"
  by (simp add: live_slots_def)

lemma new_pool_valid: "pool_valid (new_pool N x) \<and> live_slots (new_pool N x) = {}"
  by (auto simp: pool_valid_def new_pool_def live_slots_def)

lemma acquire_some_pool:
  assumes v: "pool_valid p" and a: "acquire p = (Some i, p')"
  shows "pool_valid p' \<and> i < length (pool p) \<and> i \<notin> live_slots p \<and> live_slots p' = insert i (live_slots p)
    \<and> pool p' = pool p"
proof -
  have ne: "available_slots p \<noteq> []" and i: "i = last (available_slots p)"
    and p': "p' = p\<lparr>available_slots := butlast (available_slots p), occupied := (occupied p)[i := True]\<rparr>"
    using a by (auto simp: acquire_def Let_def split: if_splits)
  have "i \<in> set (available_slots p)" using ne i by simp
  then have free: "i < length (pool p)" "i \<notin> live_slots p" using v by (auto simp: pool_valid_def)
  moreover have live: "live_slots p' = insert i (live_slots p)"
    using free v by (auto simp: p' live_slots_def pool_valid_def nth_list_update)
  moreover have "available_slots p = butlast (available_slots p) @ [i]" using ne i by simp
  then have "distinct (butlast (available_slots p) @ [i])"
    "set (butlast (available_slots p) @ [i]) = {..<length (pool p)} - live_slots p"
    using v by (simp_all add: pool_valid_def)
  then have "distinct (butlast (available_slots p))"
    "set (butlast (available_slots p)) = {..<length (pool p)} - insert i (live_slots p)" by auto
  then have "pool_valid p'" using v unfolding pool_valid_def live by (simp add: p' pool_valid_def)
  ultimately show ?thesis by (simp add: p')
qed

lemma acquire_none_pool:
  assumes v: "pool_valid p" and a: "acquire p = (None, p')"
  shows "p' = p \<and> live_slots p = {..<length (pool p)}"
  using assms by (auto simp: acquire_def Let_def pool_valid_def live_slots_def split: if_splits)

lemma release_live_pool:
  assumes v: "pool_valid p" and i: "i \<in> live_slots p"
  shows "\<exists>p'. release i p = Inr p' \<and> pool_valid p' \<and> live_slots p' = live_slots p - {i}
    \<and> length (pool p') = length (pool p)
    \<and> map generation (pool p') = (map generation (pool p))[i := sz_add (generation (pool p ! i)) 1]
    \<and> map object (pool p') = map object (pool p)
    \<and> available_slots p' = available_slots p @ [i]"
proof -
  let ?s = "(pool p ! i)\<lparr>generation := sz_add (generation (pool p ! i)) 1\<rparr>"
  let ?p = "p\<lparr>pool := (pool p)[i := ?s], available_slots := available_slots p @ [i],
    occupied := (occupied p)[i := False]\<rparr>"
  have iN: "i < length (pool p)" "occupied p ! i" using i by (auto simp: live_slots_def)
  then have "release i p = Inr ?p" by (simp add: release_def Let_def)
  moreover have live: "live_slots ?p = live_slots p - {i}"
    using iN v by (auto simp: live_slots_def pool_valid_def nth_list_update)
  moreover have "pool_valid ?p"
    using v i iN unfolding pool_valid_def live by auto
  moreover have "map object (pool ?p) = map object (pool p)"
    using iN by (simp add: map_update) (metis length_map list_update_id nth_map)
  ultimately show ?thesis using iN by (simp add: map_update)
qed

lemma release_free_pool: "i \<notin> live_slots p \<Longrightarrow> release i p = Inl Assertion_failed"
  by (simp add: release_def live_slots_def)

interpretation slots: slot_allocator pool_valid live_slots "\<lambda>p. length (pool p)" acquire release
proof (unfold_locales, goal_cases)
  case (1 p)
  show ?case by (auto simp: live_slots_def)
next
  case (2 p p')
  then show ?case by (rule acquire_none_pool)
next
  case (3 p i p')
  then show ?case using acquire_some_pool [of p i p'] by simp
next
  case (4 p i)
  then show ?case using release_live_pool by blast
next
  case (5 p i)
  then show ?case using release_free_pool by blast
qed

lemma available_live:
  assumes "pool_valid p"
  shows "available p = length (pool p) - card (live_slots p) \<and> active p = card (live_slots p)"
proof -
  have sub: "live_slots p \<subseteq> {..<length (pool p)}" by (auto simp: live_slots_def)
  have "available p = card (set (available_slots p))"
    using assms distinct_card [of "available_slots p"] by (simp only: available_def pool_valid_def)
  also have "\<dots> = length (pool p) - card (live_slots p)"
    using assms sub by (simp add: pool_valid_def card_Diff_subset)
  moreover have "card (live_slots p) \<le> length (pool p)" using card_mono [OF _ sub] by simp
  ultimately show ?thesis by (simp add: active_def)
qed

section \<open>Generations\<close>

text \<open>
  A handle is a slot with its generation at the time it was acquired.  A history is a list of
  calls; the model runs it and collects the handles handed out.
\<close>

datatype pool_call = Acquire | Release nat

fun run_pool :: "pool_call list \<Rightarrow> 'a slot_recycling_pool \<Rightarrow> fault + ((nat \<times> nat) list \<times> 'a slot_recycling_pool)" where
  "run_pool [] p = Inr ([], p)"
| "run_pool (Acquire # calls) p =
     (case acquire p of
        (None, p') \<Rightarrow> run_pool calls p'
      | (Some i, p') \<Rightarrow> map_sum id (\<lambda>(handles, p''). ((i, generation (pool p' ! i)) # handles, p''))
          (run_pool calls p'))"
| "run_pool (Release i # calls) p =
     (case release i p of Inl f \<Rightarrow> Inl f | Inr p' \<Rightarrow> run_pool calls p')"

text \<open>A handle is older than a state when no later acquisition from that state returns it.\<close>

definition spent :: "'a slot_recycling_pool \<Rightarrow> nat \<times> nat \<Rightarrow> bool" where
  "spent p h \<longleftrightarrow> snd h < generation (pool p ! fst h) \<or>
     (snd h = generation (pool p ! fst h) \<and> fst h \<in> live_slots p)"

lemma run_pool_fresh:
  assumes "run_pool calls p = Inr (handles, p')" and "pool_valid p"
    and "\<And>h. h \<in> set old \<Longrightarrow> fst h < length (pool p) \<and> spent p h"
    and "\<And>s. s \<in> set (pool p) \<Longrightarrow> generation s + length calls < sz_modulus"
  shows "set old \<inter> set handles = {} \<and> distinct handles"
  using assms
proof (induction calls arbitrary: p old handles)
  case (Cons c calls)
  show ?case
  proof (cases c)
    case Acquire
    obtain r p1 where r: "acquire p = (r, p1)" by fastforce
    show ?thesis
    proof (cases r)
      case None
      then have "p1 = p" using r acquire_none_pool [OF Cons.prems(2)] by blast
      then have run: "run_pool calls p = Inr (handles, p')" using Cons.prems(1) Acquire r None by simp
      show ?thesis
      proof (rule Cons.IH [OF run Cons.prems(2) Cons.prems(3)])
        fix s assume "s \<in> set (pool p)"
        from Cons.prems(4) [OF this] show "generation s + length calls < sz_modulus" by simp
      qed
    next
      case (Some i)
      have p1: "pool_valid p1" "i < length (pool p)" "i \<notin> live_slots p"
        "live_slots p1 = insert i (live_slots p)" "pool p1 = pool p"
        using acquire_some_pool [OF Cons.prems(2)] r Some by auto
      let ?h = "(i, generation (pool p ! i))"
      obtain hs where run: "run_pool calls p1 = Inr (hs, p')" "handles = ?h # hs"
        using Cons.prems(1) Acquire r Some p1(5) by (cases "run_pool calls p1") auto
      have new: "?h \<notin> set old" using Cons.prems(3) [of ?h] p1(3) by (auto simp: spent_def)
      have "set (?h # old) \<inter> set hs = {} \<and> distinct hs"
      proof (rule Cons.IH [OF run(1) p1(1)])
        fix h assume "h \<in> set (?h # old)"
        then consider "h = ?h" | "h \<in> set old" by auto
        then show "fst h < length (pool p1) \<and> spent p1 h"
          using Cons.prems(3) [of h] p1 by cases (auto simp: spent_def)
      next
        fix s assume "s \<in> set (pool p1)"
        with Cons.prems(4) p1(5) have "generation s + length (c # calls) < sz_modulus" by metis
        then show "generation s + length calls < sz_modulus" by simp
      qed
      with new run(2) show ?thesis by auto
    qed
  next
    case (Release i)
    then obtain p1 where rel: "release i p = Inr p1" and run: "run_pool calls p1 = Inr (handles, p')"
      using Cons.prems(1) by (auto split: sum.splits)
    have i: "i \<in> live_slots p" using rel release_free_pool [of i p] by fastforce
    obtain p1: "pool_valid p1" "live_slots p1 = live_slots p - {i}" "length (pool p1) = length (pool p)"
      "map generation (pool p1) = (map generation (pool p))[i := sz_add (generation (pool p ! i)) 1]"
      using release_live_pool [OF Cons.prems(2) i] rel by auto
    have iN: "i < length (pool p)" using i by (simp add: live_slots_def)
    have g: "generation (pool p ! i) + length (c # calls) < sz_modulus" using Cons.prems(4) iN by simp
    have gen: "generation (pool p1 ! j) = (if j = i then generation (pool p ! i) + 1 else generation (pool p ! j))"
      if "j < length (pool p)" for j
      using arg_cong [OF p1(4), of "\<lambda>xs. xs ! j"] that p1(3) g
      by (auto simp: nth_list_update sz_add_id)
    show ?thesis
    proof (rule Cons.IH [OF run p1(1)])
      fix h assume "h \<in> set old"
      then show "fst h < length (pool p1) \<and> spent p1 h"
        using Cons.prems(3) [of h] gen p1(2,3) by (auto simp: spent_def)
    next
      fix s assume "s \<in> set (pool p1)"
      then obtain j where j: "j < length (pool p)" "s = pool p1 ! j" using p1(3) by (auto simp: in_set_conv_nth)
      have "generation (pool p ! j) + length (c # calls) < sz_modulus" using Cons.prems(4) j(1) by simp
      then show "generation s + length calls < sz_modulus" using gen [OF j(1)] j(2) by auto
    qed
  qed
qed simp

section \<open>Properties\<close>

text \<open>C34: acquiring \<open>n\<close> times from a pool hands out distinct slots that were not in use, as
  many as there were free ones; the pool then counts them as active, and a slot goes back
  exactly when it is in use (the assertion fails otherwise).\<close>

theorem pool_hands_out_free_slots:
  assumes "pool_valid p" and "acquire_many acquire n p = (is, p')"
  shows "pool_valid p' \<and> distinct is \<and> set is \<inter> live_slots p = {} \<and> live_slots p' = live_slots p \<union> set is
    \<and> length is = min n (available p) \<and> active p' = card (live_slots p')
    \<and> (i \<in> live_slots p' \<longleftrightarrow> (\<exists>p''. release i p' = Inr p''))"
  using slots.acquire_many_fresh [OF assms] available_live [OF assms(1)] available_live [of p']
    release_live_pool [of p' i] release_free_pool [of i p'] by fastforce

theorem pool_hands_out_free_slots_witness:
  "active (snd (acquire_many acquire 2 (new_pool 3 ()))) = 2"
proof -
  have "acquire_many acquire 2 (new_pool 3 ()) = ([2, 1], snd (acquire_many acquire 2 (new_pool 3 ())))"
    by code_simp
  from pool_hands_out_free_slots [OF new_pool_valid [THEN conjunct1] this] new_pool_valid [of 3 "()"]
  have "active (snd (acquire_many acquire 2 (new_pool 3 ()))) = card ({} \<union> set [2, 1 :: nat])" by metis
  then show ?thesis by simp
qed

text \<open>Over any history of fewer than \<open>2 ^ 64\<close> calls, no two acquisitions return the same
  slot with the same generation: a handle kept from an earlier use can be told from the
  current one.\<close>

lemma pool_handles_unique:
  assumes "run_pool calls (new_pool N x) = Inr (handles, p)" and "length calls < sz_modulus"
  shows "distinct handles"
proof -
  have "set [] \<inter> set handles = {} \<and> distinct handles"
  proof (rule run_pool_fresh [OF assms(1)])
    show "pool_valid (new_pool N x)" by (rule new_pool_valid [THEN conjunct1])
  qed (use assms(2) in \<open>auto simp: new_pool_def\<close>)
  then show ?thesis by simp
qed

end
