(* ===== verification/OverwritableCache.thy ===== *)
theory OverwritableCache
  imports Interfaces
begin

text \<open>
  \<^verbatim>\<open>src/Client/overwritable_cache.hpp\<close>: a bounded queue whose \<open>push\<close> overwrites the oldest
  element when it is full, with removal from either end.  It is refined to the list of its
  elements, oldest first, of at most \<open>N\<close> elements.
\<close>

section \<open>The cache\<close>

record 'a overwritable_cache =
  cache :: "'a list"
  cache_write :: nat
  cache_read :: nat
  cache_size :: nat

definition new_cache :: "nat \<Rightarrow> 'a \<Rightarrow> 'a overwritable_cache" where
  "new_cache N x = \<lparr>cache = replicate N x, cache_write = 0, cache_read = 0, cache_size = 0\<rparr>"

definition plus_mask :: "nat \<Rightarrow> nat \<Rightarrow> nat" where
  "plus_mask N num = (if num + 1 = N then 0 else num + 1)"

definition minus_mask :: "nat \<Rightarrow> nat \<Rightarrow> nat" where
  "minus_mask N num = (if num = 0 then N - 1 else num - 1)"

definition isempty :: "'a overwritable_cache \<Rightarrow> bool" where
  "isempty c \<longleftrightarrow> cache_size c = 0"

definition push :: "'a \<Rightarrow> 'a overwritable_cache \<Rightarrow> 'a overwritable_cache" where
  "push val c =
     (let N = length (cache c);
          c = c\<lparr>cache := (cache c)[cache_write c := val], cache_write := plus_mask N (cache_write c)\<rparr>
      in if cache_size c < N then c\<lparr>cache_size := cache_size c + 1\<rparr>
         else c\<lparr>cache_read := plus_mask N (cache_read c)\<rparr>)"

definition stale_pop :: "'a overwritable_cache \<Rightarrow> 'a option \<times> 'a overwritable_cache" where
  "stale_pop c =
     (if isempty c then (None, c)
      else (Some (cache c ! cache_read c),
            c\<lparr>cache_size := cache_size c - 1, cache_read := plus_mask (length (cache c)) (cache_read c)\<rparr>))"

definition fresh_pop :: "'a overwritable_cache \<Rightarrow> 'a option \<times> 'a overwritable_cache" where
  "fresh_pop c =
     (if isempty c then (None, c)
      else
        let c = c\<lparr>cache_write := minus_mask (length (cache c)) (cache_write c)\<rparr>
        in (Some (cache c ! cache_write c), c\<lparr>cache_size := cache_size c - 1\<rparr>))"

section \<open>Refinement to a bounded list\<close>

definition elements :: "'a overwritable_cache \<Rightarrow> 'a list" where
  "elements c = ring_slice (cache c) (cache_read c) (cache_size c)"

definition cache_valid :: "'a overwritable_cache \<Rightarrow> bool" where
  "cache_valid c \<longleftrightarrow> cache_read c < length (cache c) \<and> cache_size c \<le> length (cache c)
     \<and> cache_write c = (cache_read c + cache_size c) mod length (cache c)"

lemma plus_mask_mod: "n < N \<Longrightarrow> plus_mask N n = Suc n mod N"
  by (auto simp: plus_mask_def)

lemma minus_mask_mod: "0 < N \<Longrightarrow> minus_mask N (Suc m mod N) = m mod N"
  by (auto simp: minus_mask_def mod_Suc)

lemma length_elements [simp]: "length (elements c) = cache_size c"
  by (simp add: elements_def)

lemma new_cache_valid: "0 < N \<Longrightarrow> cache_valid (new_cache N x) \<and> elements (new_cache N x) = []"
  by (simp add: cache_valid_def new_cache_def elements_def)

lemma push_room:
  assumes v: "cache_valid c" and room: "cache_size c < length (cache c)"
  shows "cache_valid (push val c) \<and> elements (push val c) = elements c @ [val]"
proof -
  let ?N = "length (cache c)" and ?w = "(cache_read c + cache_size c) mod length (cache c)"
  have N: "0 < ?N" using room by linarith
  then have "plus_mask ?N ?w = (cache_read c + Suc (cache_size c)) mod ?N"
    by (simp add: plus_mask_mod mod_Suc_eq)
  then have eq: "push val c = c\<lparr>cache := (cache c)[?w := val],
      cache_write := (cache_read c + Suc (cache_size c)) mod ?N, cache_size := Suc (cache_size c)\<rparr>"
    using v room by (simp add: push_def cache_valid_def Let_def)
  show ?thesis
    using v room ring_slice_push [OF room, of "cache_read c" val]
    unfolding eq by (simp add: cache_valid_def elements_def)
qed

lemma push_full:
  assumes v: "cache_valid c" and full: "\<not> cache_size c < length (cache c)"
  shows "cache_valid (push val c) \<and> elements (push val c) = tl (elements c) @ [val]"
proof -
  let ?N = "length (cache c)" and ?r = "cache_read c"
  have size: "cache_size c = ?N" and r: "?r < ?N" using v full by (auto simp: cache_valid_def)
  then have N: "0 < ?N" by linarith
  then obtain m where m: "?N = Suc m" using not0_implies_Suc by blast
  have w: "cache_write c = ?r" using v size r by (simp add: cache_valid_def)
  have eq: "push val c = c\<lparr>cache := (cache c)[?r := val], cache_write := Suc ?r mod ?N,
      cache_read := Suc ?r mod ?N\<rparr>"
    using w r full by (simp add: push_def plus_mask_mod Let_def)
  have "elements (push val c) = ring_slice ((cache c)[?r := val]) (Suc ?r) ?N"
    unfolding eq by (simp add: elements_def size ring_slice_mod [of "(cache c)[?r := val]", simplified])
  also have "\<dots> = ring_slice ((cache c)[(Suc ?r + m) mod ?N := val]) (Suc ?r) (Suc m)"
    using m r by (simp add: mod_if)
  also have "\<dots> = ring_slice (cache c) (Suc ?r) m @ [val]"
    using m by (intro ring_slice_push) simp
  also have "ring_slice (cache c) (Suc ?r) m = tl (elements c)"
    using m r by (simp add: elements_def size ring_slice_Cons)
  finally show ?thesis using N by (simp add: eq cache_valid_def size)
qed

lemma stale_pop_elements:
  assumes v: "cache_valid c"
  shows "fst (stale_pop c) = (case elements c of [] \<Rightarrow> None | x # _ \<Rightarrow> Some x)
    \<and> cache_valid (snd (stale_pop c)) \<and> elements (snd (stale_pop c)) = tl (elements c)"
proof (cases "cache_size c")
  case 0
  then show ?thesis using v by (simp add: stale_pop_def isempty_def elements_def)
next
  case (Suc n)
  have r: "cache_read c < length (cache c)" using v by (simp add: cache_valid_def)
  then have el: "elements c = cache c ! cache_read c # ring_slice (cache c) (Suc (cache_read c)) n"
    by (simp add: elements_def Suc ring_slice_Cons)
  have pop: "stale_pop c = (Some (cache c ! cache_read c),
      c\<lparr>cache_size := n, cache_read := Suc (cache_read c) mod length (cache c)\<rparr>)"
    using Suc r by (simp add: stale_pop_def isempty_def plus_mask_mod)
  have "(Suc (cache_read c) mod length (cache c) + n) mod length (cache c) = cache_write c"
    using v Suc by (simp add: cache_valid_def mod_add_left_eq)
  moreover have "Suc (cache_read c) mod length (cache c) < length (cache c)"
    using r by (intro mod_less_divisor) linarith
  ultimately show ?thesis using v Suc unfolding pop el
    by (simp add: cache_valid_def elements_def ring_slice_mod)
qed

lemma fresh_pop_elements:
  assumes v: "cache_valid c"
  shows "fst (fresh_pop c) = (if elements c = [] then None else Some (last (elements c)))
    \<and> cache_valid (snd (fresh_pop c)) \<and> elements (snd (fresh_pop c)) = butlast (elements c)"
proof (cases "cache_size c")
  case 0
  then show ?thesis using v by (simp add: fresh_pop_def isempty_def elements_def)
next
  case (Suc n)
  have r: "cache_read c < length (cache c)" using v by (simp add: cache_valid_def)
  then have N: "0 < length (cache c)" by linarith
  have el: "elements c = ring_slice (cache c) (cache_read c) n @ [cache c ! ((cache_read c + n) mod length (cache c))]"
    by (simp add: elements_def Suc ring_slice_Suc)
  have "minus_mask (length (cache c)) (cache_write c) = (cache_read c + n) mod length (cache c)"
    using v Suc minus_mask_mod [OF N, of "cache_read c + n"] by (simp add: cache_valid_def)
  then have pop: "fresh_pop c = (Some (cache c ! ((cache_read c + n) mod length (cache c))),
      c\<lparr>cache_write := (cache_read c + n) mod length (cache c), cache_size := n\<rparr>)"
    using Suc by (simp add: fresh_pop_def isempty_def Let_def)
  show ?thesis using v Suc unfolding pop el by (simp add: cache_valid_def elements_def)
qed

lemma length_cache_push [simp]: "length (cache (push x c)) = length (cache c)"
  by (simp add: push_def Let_def)

interpretation cache: drop_oldest_queue cache_valid elements "\<lambda>c. length (cache c)" push stale_pop fresh_pop
proof (unfold_locales, goal_cases)
  case (1 c x)
  then show ?case using push_room [of c x] push_full [of c x] by (simp add: length_cache_push)
next
  case (2 c)
  then show ?case using stale_pop_elements [of c]
    by (simp add: stale_pop_def)
next
  case (3 c)
  then show ?case using fresh_pop_elements [of c]
    by (simp add: fresh_pop_def Let_def)
next
  case (4 c)
  then show ?case by (auto simp: cache_valid_def)
qed

section \<open>Properties\<close>

text \<open>C18: the cache is a bounded list, oldest first: \<open>push\<close> appends and drops the oldest
  element only when the cache is full, \<open>stale_pop\<close> takes the oldest and \<open>fresh_pop\<close> the newest
  element, both report failure exactly on the empty cache, and every operation keeps the
  window valid.\<close>

theorem cache_refines_list:
  assumes "cache_valid c"
  shows "cache_valid (push x c)
    \<and> elements (push x c) = (if length (elements c) < length (cache c) then elements c else tl (elements c)) @ [x]
    \<and> fst (stale_pop c) = (case elements c of [] \<Rightarrow> None | y # _ \<Rightarrow> Some y)
    \<and> cache_valid (snd (stale_pop c)) \<and> elements (snd (stale_pop c)) = tl (elements c)
    \<and> fst (fresh_pop c) = (if elements c = [] then None else Some (last (elements c)))
    \<and> cache_valid (snd (fresh_pop c)) \<and> elements (snd (fresh_pop c)) = butlast (elements c)"
  using push_room [OF assms] push_full [OF assms] stale_pop_elements [OF assms] fresh_pop_elements [OF assms]
  by simp

theorem cache_refines_list_witness:
  "elements (push 9 \<lparr>cache = [3, 1, 2 :: nat], cache_write = 1, cache_read = 1, cache_size = 3\<rparr>) = [2, 3, 9]"
  using cache_refines_list [of "\<lparr>cache = [3, 1, 2 :: nat], cache_write = 1, cache_read = 1, cache_size = 3\<rparr>" 9]
  by (simp add: cache_valid_def elements_def ring_slice_def upt_rec)

text \<open>Whatever is pushed, in whatever number, taking the oldest element until none is left
  returns the most recently pushed elements, at most as many as the capacity, in the order in
  which they were pushed.\<close>

lemma cache_keeps_latest:
  assumes "0 < N"
  shows "drain stale_pop N (fold push xs (new_cache N x)) = drop (length xs - N) xs"
  using cache.drain_latest [of "new_cache N x" xs] new_cache_valid [OF assms, of x]
  by (simp add: new_cache_def)


end
