(* ===== verification/SpscQueue.thy ===== *)
theory SpscQueue
  imports Interfaces
begin

text \<open>
  \<^verbatim>\<open>src/Client/spsc_queue.hpp\<close>: the lock-free queue between one producer and one consumer
  thread, the channel between the managers (\<^verbatim>\<open>ThreadMessageTypes.hpp\<close>).  \<open>push\<close> and \<open>pop\<close> are the
  functions as written; the step relation splits them at every access to shared memory (the
  two atomic indices and the elements) and interleaves the two threads, each with its cached
  copy of the other's index.  Atomic accesses interleave in one order, and a release store
  makes the element written before it visible to the acquire load that reads it.  The ghost
  history records, at the access that decides it, the outcome of every call.
\<close>

section \<open>The queue and its operations\<close>

record 'a spsc_queue =
  queue :: "'a list"
  read_idx :: nat
  cached_read_idx :: nat
  write_idx :: nat
  cached_write_idx :: nat

definition new_spsc :: "nat \<Rightarrow> 'a \<Rightarrow> 'a spsc_queue" where
  "new_spsc Size x =
     \<lparr>queue = replicate (Size + 1) x, read_idx = 0, cached_read_idx = 0, write_idx = 0, cached_write_idx = 0\<rparr>"

definition next_index :: "'a spsc_queue \<Rightarrow> nat \<Rightarrow> nat" where
  "next_index q i = (if i + 1 = length (queue q) then 0 else i + 1)"

lemma next_index_update [simp]:
  "next_index (q\<lparr>read_idx := j\<rparr>) i = next_index q i"
  "next_index (q\<lparr>cached_read_idx := j\<rparr>) i = next_index q i"
  "next_index (q\<lparr>write_idx := j\<rparr>) i = next_index q i"
  "next_index (q\<lparr>cached_write_idx := j\<rparr>) i = next_index q i"
  "next_index (q\<lparr>queue := (queue q)[k := v]\<rparr>) i = next_index q i"
  by (simp_all add: next_index_def)

definition spsc_push :: "'a \<Rightarrow> 'a spsc_queue \<Rightarrow> bool \<times> 'a spsc_queue" where
  "spsc_push val q =
     (let write_index = write_idx q;
          next_write_index = next_index q write_index;
          (full, q) = (if next_write_index = cached_read_idx q
            then let q = q\<lparr>cached_read_idx := read_idx q\<rparr> in (next_write_index = cached_read_idx q, q)
            else (False, q))
      in if full then (False, q)
         else (True, q\<lparr>queue := (queue q)[write_index := val], write_idx := next_write_index\<rparr>))"

definition spsc_pop :: "'a spsc_queue \<Rightarrow> 'a option \<times> 'a spsc_queue" where
  "spsc_pop q =
     (let read_index = read_idx q;
          (empty, q) = (if read_index = cached_write_idx q
            then let q = q\<lparr>cached_write_idx := write_idx q\<rparr> in (read_index = cached_write_idx q, q)
            else (False, q))
      in if empty then (None, q)
         else (Some (queue q ! read_index), q\<lparr>read_idx := next_index q read_index\<rparr>))"

section \<open>The two threads\<close>

datatype 'a producer_pc =
    P_idle
  | P_compare 'a nat nat
  | P_load 'a nat nat
  | P_element 'a nat nat
  | P_publish 'a nat nat

datatype 'a consumer_pc =
    C_idle
  | C_compare nat
  | C_load nat
  | C_element nat
  | C_publish 'a nat

datatype 'a event = Pushed 'a | Push_refused 'a | Popped 'a | Pop_refused

record 'a spsc_state =
  shared :: "'a spsc_queue"
  producer :: "'a producer_pc"
  consumer :: "'a consumer_pc"
  history :: "'a event list"

inductive spsc_step :: "'a spsc_state \<Rightarrow> 'a spsc_state \<Rightarrow> bool" where
  p_start: "producer s = P_idle \<Longrightarrow>
     spsc_step s (s\<lparr>producer := P_compare v (write_idx (shared s)) (next_index (shared s) (write_idx (shared s)))\<rparr>)"
| p_compare: "producer s = P_compare v w n \<Longrightarrow>
     spsc_step s (s\<lparr>producer := if n = cached_read_idx (shared s) then P_load v w n else P_element v w n\<rparr>)"
| p_load: "producer s = P_load v w n \<Longrightarrow> r = read_idx (shared s) \<Longrightarrow>
     spsc_step s (s\<lparr>shared := (shared s)\<lparr>cached_read_idx := r\<rparr>,
       producer := if n = r then P_idle else P_element v w n,
       history := if n = r then history s @ [Push_refused v] else history s\<rparr>)"
| p_element: "producer s = P_element v w n \<Longrightarrow>
     spsc_step s (s\<lparr>shared := (shared s)\<lparr>queue := (queue (shared s))[w := v]\<rparr>, producer := P_publish v w n\<rparr>)"
| p_publish: "producer s = P_publish v w n \<Longrightarrow>
     spsc_step s (s\<lparr>shared := (shared s)\<lparr>write_idx := n\<rparr>, producer := P_idle,
       history := history s @ [Pushed v]\<rparr>)"
| c_start: "consumer s = C_idle \<Longrightarrow> spsc_step s (s\<lparr>consumer := C_compare (read_idx (shared s))\<rparr>)"
| c_compare: "consumer s = C_compare r \<Longrightarrow>
     spsc_step s (s\<lparr>consumer := if r = cached_write_idx (shared s) then C_load r else C_element r\<rparr>)"
| c_load: "consumer s = C_load r \<Longrightarrow> w = write_idx (shared s) \<Longrightarrow>
     spsc_step s (s\<lparr>shared := (shared s)\<lparr>cached_write_idx := w\<rparr>,
       consumer := if r = w then C_idle else C_element r,
       history := if r = w then history s @ [Pop_refused] else history s\<rparr>)"
| c_element: "consumer s = C_element r \<Longrightarrow>
     spsc_step s (s\<lparr>consumer := C_publish (queue (shared s) ! r) r\<rparr>)"
| c_publish: "consumer s = C_publish v r \<Longrightarrow>
     spsc_step s (s\<lparr>shared := (shared s)\<lparr>read_idx := next_index (shared s) r\<rparr>, consumer := C_idle,
       history := history s @ [Popped v]\<rparr>)"

definition spsc_start :: "nat \<Rightarrow> 'a \<Rightarrow> 'a spsc_state" where
  "spsc_start Size x = \<lparr>shared = new_spsc Size x, producer = P_idle, consumer = C_idle, history = []\<rparr>"

text \<open>A call of one thread with no step of the other in between is the function of the source.\<close>

lemma push_runs:
  assumes "producer s = P_idle"
  shows "spsc_step\<^sup>*\<^sup>* s (s\<lparr>shared := snd (spsc_push v (shared s)),
    history := history s @ [if fst (spsc_push v (shared s)) then Pushed v else Push_refused v]\<rparr>)"
proof -
  let ?w = "write_idx (shared s)" and ?n = "next_index (shared s) (write_idx (shared s))"
  let ?s1 = "s\<lparr>producer := P_compare v ?w ?n\<rparr>"
  have 1: "spsc_step s ?s1" using assms by (rule p_start)
  have fin: "spsc_step\<^sup>*\<^sup>* t (t\<lparr>shared := (shared t)\<lparr>queue := (queue (shared t))[w := v], write_idx := n\<rparr>,
      producer := P_idle, history := history t @ [Pushed v]\<rparr>)" if "producer t = P_element v w n" for t w n
    using p_element [OF that] p_publish [of "t\<lparr>shared := (shared t)\<lparr>queue := (queue (shared t))[w := v]\<rparr>, producer := P_publish v w n\<rparr>" v w n]
    by (simp add: converse_rtranclp_into_rtranclp r_into_rtranclp)
  show ?thesis
  proof (cases "?n = cached_read_idx (shared s)")
    case False
    let ?s2 = "s\<lparr>producer := P_element v ?w ?n\<rparr>"
    have 2: "spsc_step ?s1 ?s2" using p_compare [of ?s1 v ?w ?n] False by simp
    note converse_rtranclp_into_rtranclp [OF 1 converse_rtranclp_into_rtranclp [OF 2 fin [of ?s2 ?w ?n]]]
    with assms False show ?thesis by (cases s) (simp add: spsc_push_def Let_def next_index_def)
  next
    case True
    let ?s2 = "s\<lparr>producer := P_load v ?w ?n\<rparr>" and ?r = "read_idx (shared s)"
    have 2: "spsc_step ?s1 ?s2" using p_compare [of ?s1 v ?w ?n] True by simp
    let ?s3 = "s\<lparr>shared := (shared s)\<lparr>cached_read_idx := ?r\<rparr>,
      producer := if ?n = ?r then P_idle else P_element v ?w ?n,
      history := if ?n = ?r then history s @ [Push_refused v] else history s\<rparr>"
    have 3: "spsc_step ?s2 ?s3" using p_load [of ?s2 v ?w ?n ?r] by (simp split del: if_split cong: if_cong)
    show ?thesis
    proof (cases "?n = ?r")
      case refused: True
      note converse_rtranclp_into_rtranclp [OF 1 converse_rtranclp_into_rtranclp [OF 2 r_into_rtranclp [of spsc_step, OF 3]]]
      with assms True refused show ?thesis by (cases s) (simp add: spsc_push_def Let_def next_index_def)
    next
      case accepted: False
      note converse_rtranclp_into_rtranclp [OF 1 converse_rtranclp_into_rtranclp [OF 2 converse_rtranclp_into_rtranclp [OF 3 fin [of ?s3 ?w ?n]]]]
      with assms True accepted show ?thesis by (cases s) (simp add: spsc_push_def Let_def next_index_def)
    qed
  qed
qed

lemma pop_runs:
  assumes "consumer s = C_idle"
  shows "spsc_step\<^sup>*\<^sup>* s (s\<lparr>shared := snd (spsc_pop (shared s)),
    history := history s @ [case fst (spsc_pop (shared s)) of Some v \<Rightarrow> Popped v | None \<Rightarrow> Pop_refused]\<rparr>)"
proof -
  let ?r = "read_idx (shared s)"
  let ?s1 = "s\<lparr>consumer := C_compare ?r\<rparr>"
  have 1: "spsc_step s ?s1" using assms by (rule c_start)
  have fin: "spsc_step\<^sup>*\<^sup>* t (t\<lparr>shared := (shared t)\<lparr>read_idx := next_index (shared t) r\<rparr>,
      consumer := C_idle, history := history t @ [Popped (queue (shared t) ! r)]\<rparr>)"
    if "consumer t = C_element r" for t r
    using c_element [OF that] c_publish [of "t\<lparr>consumer := C_publish (queue (shared t) ! r) r\<rparr>" "queue (shared t) ! r" r]
    by (simp add: converse_rtranclp_into_rtranclp r_into_rtranclp)
  show ?thesis
  proof (cases "?r = cached_write_idx (shared s)")
    case False
    let ?s2 = "s\<lparr>consumer := C_element ?r\<rparr>"
    have 2: "spsc_step ?s1 ?s2" using c_compare [of ?s1 ?r] False by simp
    note converse_rtranclp_into_rtranclp [OF 1 converse_rtranclp_into_rtranclp [OF 2 fin [of ?s2 ?r]]]
    with assms False show ?thesis by (cases s) (simp add: spsc_pop_def Let_def next_index_def)
  next
    case True
    let ?s2 = "s\<lparr>consumer := C_load ?r\<rparr>" and ?w = "write_idx (shared s)"
    have 2: "spsc_step ?s1 ?s2" using c_compare [of ?s1 ?r] True by simp
    let ?s3 = "s\<lparr>shared := (shared s)\<lparr>cached_write_idx := ?w\<rparr>,
      consumer := if ?r = ?w then C_idle else C_element ?r,
      history := if ?r = ?w then history s @ [Pop_refused] else history s\<rparr>"
    have 3: "spsc_step ?s2 ?s3" using c_load [of ?s2 ?r ?w] by (simp split del: if_split cong: if_cong)
    show ?thesis
    proof (cases "?r = ?w")
      case refused: True
      note converse_rtranclp_into_rtranclp [OF 1 converse_rtranclp_into_rtranclp [OF 2 r_into_rtranclp [of spsc_step, OF 3]]]
      with assms True refused show ?thesis by (cases s) (simp add: spsc_pop_def Let_def next_index_def)
    next
      case accepted: False
      note converse_rtranclp_into_rtranclp [OF 1 converse_rtranclp_into_rtranclp [OF 2 converse_rtranclp_into_rtranclp [OF 3 fin [of ?s3 ?r]]]]
      with assms True accepted show ?thesis by (cases s) (simp add: spsc_pop_def Let_def next_index_def)
    qed
  qed
qed

section \<open>The atomic bounded queue\<close>

fun spec_event :: "nat \<Rightarrow> 'a event \<Rightarrow> 'a list \<Rightarrow> 'a list option" where
  "spec_event Size (Pushed v) xs = (if length xs < Size then Some (xs @ [v]) else None)"
| "spec_event Size (Push_refused v) xs = (if length xs = Size then Some xs else None)"
| "spec_event Size (Popped v) xs = (case xs of [] \<Rightarrow> None | y # ys \<Rightarrow> if y = v then Some ys else None)"
| "spec_event Size Pop_refused xs = (if xs = [] then Some xs else None)"

fun spec_run :: "nat \<Rightarrow> 'a event list \<Rightarrow> 'a list \<Rightarrow> 'a list option" where
  "spec_run Size [] xs = Some xs"
| "spec_run Size (e # es) xs = (case spec_event Size e xs of None \<Rightarrow> None | Some ys \<Rightarrow> spec_run Size es ys)"

lemma spec_run_append:
  "spec_run Size (es @ [e]) xs = (case spec_run Size es xs of None \<Rightarrow> None | Some ys \<Rightarrow> spec_event Size e ys)"
  by (induction es arbitrary: xs) (auto split: option.splits)

section \<open>The invariant\<close>

text \<open>
  \<open>n\<close> elements are in the window; the consumer's cache shows \<open>m \<le> n\<close> of them; the producer's
  cache is \<open>k\<close> removals behind, and even from there a slot is left free.
\<close>

definition window :: "'a spsc_queue \<Rightarrow> nat \<Rightarrow> nat \<Rightarrow> nat \<Rightarrow> bool" where
  "window q n m k \<longleftrightarrow> read_idx q < length (queue q) \<and> cached_read_idx q < length (queue q)
     \<and> write_idx q = (read_idx q + n) mod length (queue q)
     \<and> cached_write_idx q = (read_idx q + m) mod length (queue q) \<and> m \<le> n
     \<and> read_idx q = (cached_read_idx q + k) mod length (queue q) \<and> k + n < length (queue q)"

fun producer_ok :: "'a spsc_queue \<Rightarrow> 'a producer_pc \<Rightarrow> bool" where
  "producer_ok q P_idle \<longleftrightarrow> True"
| "producer_ok q (P_compare v w n) \<longleftrightarrow> w = write_idx q \<and> n = next_index q w"
| "producer_ok q (P_load v w n) \<longleftrightarrow> w = write_idx q \<and> n = next_index q w"
| "producer_ok q (P_element v w n) \<longleftrightarrow> w = write_idx q \<and> n = next_index q w \<and> n \<noteq> cached_read_idx q"
| "producer_ok q (P_publish v w n) \<longleftrightarrow> w = write_idx q \<and> n = next_index q w \<and> n \<noteq> cached_read_idx q
     \<and> queue q ! w = v"

fun consumer_ok :: "'a spsc_queue \<Rightarrow> 'a consumer_pc \<Rightarrow> bool" where
  "consumer_ok q C_idle \<longleftrightarrow> True"
| "consumer_ok q (C_compare r) \<longleftrightarrow> r = read_idx q"
| "consumer_ok q (C_load r) \<longleftrightarrow> r = read_idx q"
| "consumer_ok q (C_element r) \<longleftrightarrow> r = read_idx q \<and> r \<noteq> cached_write_idx q"
| "consumer_ok q (C_publish v r) \<longleftrightarrow> r = read_idx q \<and> r \<noteq> cached_write_idx q \<and> queue q ! r = v"

definition spsc_inv :: "nat \<Rightarrow> 'a spsc_state \<Rightarrow> bool" where
  "spsc_inv Size s \<longleftrightarrow> length (queue (shared s)) = Size + 1 \<and> producer_ok (shared s) (producer s)
     \<and> consumer_ok (shared s) (consumer s)
     \<and> (\<exists>n m k. window (shared s) n m k \<and>
          spec_run Size (history s) [] = Some (ring_slice (queue (shared s)) (read_idx (shared s)) n))"

lemma next_index_mod: "i < length (queue q) \<Longrightarrow> next_index q i = Suc i mod length (queue q)"
  by (auto simp: next_index_def)

lemma ring_shift_zero:
  assumes "(s + i) mod N = s" and "i < N" and "s < (N :: nat)"
  shows "i = 0"
  using ring_index_inj [of s i N 0] assms by simp

lemma window_write_less: "window q n m k \<Longrightarrow> write_idx q < length (queue q)"
  by (auto simp: window_def intro: mod_less_divisor)

text \<open>The comparison of the next write index with an index \<open>k\<close> removals behind.\<close>

lemma next_write_free:
  assumes w: "window q n m k" and ne: "next_index q (write_idx q) \<noteq> cached_read_idx q"
  shows "Suc (k + n) < length (queue q)"
proof (rule ccontr)
  let ?N = "length (queue q)"
  assume "\<not> ?thesis"
  then have N: "Suc (k + n) = ?N" using w by (auto simp: window_def)
  have "next_index q (write_idx q) = Suc (write_idx q) mod ?N"
    using window_write_less [OF w] by (rule next_index_mod)
  also have "\<dots> = (cached_read_idx q + Suc (k + n)) mod ?N"
    using w by (simp add: window_def mod_Suc_eq mod_add_left_eq add.assoc)
  also have "\<dots> = cached_read_idx q" unfolding N using w by (simp add: window_def)
  finally show False using ne by simp
qed

lemma next_write_full:
  assumes w: "window q n m k" and eq: "next_index q (write_idx q) = read_idx q"
  shows "Suc n = length (queue q)"
proof (rule ccontr)
  let ?N = "length (queue q)"
  assume "Suc n \<noteq> ?N"
  then have "Suc n < ?N" using w by (auto simp: window_def)
  moreover have "(read_idx q + Suc n) mod ?N = read_idx q"
    using eq next_index_mod [OF window_write_less [OF w]] w by (simp add: window_def mod_Suc_eq)
  ultimately have "Suc n = 0" using w by (intro ring_shift_zero [of "read_idx q" "Suc n" ?N]) (auto simp: window_def)
  then show False by simp
qed

lemma cached_write_pos:
  assumes w: "window q n m k" and ne: "read_idx q \<noteq> cached_write_idx q"
  shows "0 < m"
  using assms by (cases m) (auto simp: window_def)

lemma window_empty:
  assumes w: "window q n m k" and eq: "read_idx q = write_idx q"
  shows "n = 0"
  using w eq ring_shift_zero [of "read_idx q" n "length (queue q)"] by (auto simp: window_def)

text \<open>How the shared accesses move the window.\<close>

lemma window_load_read:
  "window q n m k \<Longrightarrow> window (q\<lparr>cached_read_idx := read_idx q\<rparr>) n m 0"
  by (auto simp: window_def)

lemma window_load_write:
  "window q n m k \<Longrightarrow> window (q\<lparr>cached_write_idx := write_idx q\<rparr>) n n k"
  by (auto simp: window_def)

lemma window_element: "window (q\<lparr>queue := (queue q)[i := v]\<rparr>) n m k \<longleftrightarrow> window q n m k"
  by (simp add: window_def)

lemma window_publish:
  assumes w: "window q n m k" and ne: "next_index q (write_idx q) \<noteq> cached_read_idx q"
  shows "window (q\<lparr>write_idx := next_index q (write_idx q)\<rparr>) (Suc n) m k"
  using w next_write_free [OF w ne] next_index_mod [OF window_write_less [OF w]]
  by (auto simp: window_def mod_Suc_eq)

lemma window_remove:
  assumes w: "window q n m k" and ne: "read_idx q \<noteq> cached_write_idx q"
  shows "window (q\<lparr>read_idx := next_index q (read_idx q)\<rparr>) (n - 1) (m - 1) (Suc k)"
proof -
  let ?N = "length (queue q)"
  have m: "0 < m" using cached_write_pos [OF w ne] .
  have r: "read_idx q < ?N" "m \<le> n" "k + n < ?N" using w by (auto simp: window_def)
  have nxt: "next_index q (read_idx q) = Suc (read_idx q) mod ?N" using r(1) by (rule next_index_mod)
  have "(Suc (read_idx q) mod ?N + (x - 1)) mod ?N = (read_idx q + x) mod ?N" if "0 < x" for x
  proof -
    have "(Suc (read_idx q) mod ?N + (x - 1)) mod ?N = (Suc (read_idx q) + (x - 1)) mod ?N"
      by (rule mod_add_left_eq)
    with that show ?thesis by simp
  qed
  with m r w show ?thesis unfolding window_def nxt
    by (auto simp: mod_Suc_eq intro!: mod_less_divisor)
qed

lemma producer_ok_consumer:
  assumes "producer_ok q p"
  shows "producer_ok (q\<lparr>cached_write_idx := i\<rparr>) p" and "producer_ok (q\<lparr>read_idx := j\<rparr>) p"
  using assms by (cases p; simp)+

lemma consumer_ok_producer:
  assumes "consumer_ok q c"
  shows "consumer_ok (q\<lparr>cached_read_idx := i\<rparr>) c" and "consumer_ok (q\<lparr>write_idx := j\<rparr>) c"
  using assms by (cases c; simp)+

lemma write_not_read:
  assumes w: "window q n m k" and ne: "read_idx q \<noteq> cached_write_idx q"
  shows "write_idx q \<noteq> read_idx q"
  using window_empty [OF w] cached_write_pos [OF w ne] w by (auto simp: window_def)

lemma consumer_ok_element:
  assumes "consumer_ok q c" and w: "window q n m k"
  shows "consumer_ok (q\<lparr>queue := (queue q)[write_idx q := v]\<rparr>) c"
  using assms(1) write_not_read [OF w] by (cases c) auto

lemma ring_slice_window:
  assumes w: "window q n m k"
  shows "ring_slice ((queue q)[write_idx q := v]) (read_idx q) n = ring_slice (queue q) (read_idx q) n"
proof -
  have "n \<le> n" "n < length (queue q)" using w by (auto simp: window_def)
  from ring_slice_update_outside [OF this] w show ?thesis by (simp add: window_def)
qed

lemma spsc_invI:
  "length (queue (shared s)) = Size + 1 \<Longrightarrow> producer_ok (shared s) (producer s) \<Longrightarrow>
   consumer_ok (shared s) (consumer s) \<Longrightarrow> window (shared s) n m k \<Longrightarrow>
   spec_run Size (history s) [] = Some (ring_slice (queue (shared s)) (read_idx (shared s)) n) \<Longrightarrow>
   spsc_inv Size s"
  by (auto simp: spsc_inv_def)

lemma spsc_step_inv:
  assumes "spsc_step s t" and "spsc_inv Size s"
  shows "spsc_inv Size t"
proof -
  let ?q = "shared s"
  obtain n m k where w: "window ?q n m k"
    and run: "spec_run Size (history s) [] = Some (ring_slice (queue ?q) (read_idx ?q) n)"
    and len: "length (queue ?q) = Size + 1" and ok: "producer_ok ?q (producer s)" "consumer_ok ?q (consumer s)"
    using assms(2) by (auto simp: spsc_inv_def)
  from assms(1) show ?thesis
  proof cases
    case (p_start v)
    then show ?thesis using w run len ok by (auto simp: spsc_inv_def)
  next
    case (p_compare v wi ni)
    then show ?thesis using w run len ok by (auto simp: spsc_inv_def)
  next
    case (p_load v wi ni r)
    have full: "Suc n = length (queue ?q)" if "ni = r" using next_write_full [OF w] that p_load ok by auto
    show ?thesis
      unfolding p_load(1) using len ok p_load(2,3) window_load_read [OF w] run full
      by (intro spsc_invI [where n = n and m = m and k = 0])
         (auto simp: spec_run_append consumer_ok_producer)
  next
    case (p_element v wi ni)
    then have "wi = write_idx ?q" "ni = next_index ?q wi" "ni \<noteq> cached_read_idx ?q" using ok by auto
    then show ?thesis
      unfolding p_element(1)
      using len ok w run window_write_less [OF w] consumer_ok_element [OF ok(2) w] ring_slice_window [OF w]
      by (intro spsc_invI [where n = n and m = m and k = k]) (auto simp: window_element)
  next
    case (p_publish v wi ni)
    then have p: "wi = write_idx ?q" "ni = next_index ?q wi" "ni \<noteq> cached_read_idx ?q" "queue ?q ! wi = v"
      using ok by auto
    have "ring_slice (queue ?q) (read_idx ?q) (Suc n) = ring_slice (queue ?q) (read_idx ?q) n @ [v]"
      using p w by (simp add: ring_slice_Suc window_def)
    moreover have "n < Size" using next_write_free [OF w] p len by auto
    ultimately show ?thesis
      unfolding p_publish(1) using len ok window_publish [OF w] p run
      by (intro spsc_invI [where n = "Suc n" and m = m and k = k])
         (auto simp: spec_run_append consumer_ok_producer)
  next
    case c_start
    then show ?thesis using w run len ok by (auto simp: spsc_inv_def)
  next
    case (c_compare r)
    then show ?thesis using w run len ok by (auto simp: spsc_inv_def)
  next
    case (c_load r wi)
    have "n = 0" if "r = wi" using window_empty [OF w] that c_load ok by auto
    then show ?thesis
      unfolding c_load(1) using len ok c_load(2,3) window_load_write [OF w] run
      by (intro spsc_invI [where n = n and m = n and k = k])
         (auto simp: spec_run_append producer_ok_consumer)
  next
    case (c_element r)
    then show ?thesis using w run len ok by (auto simp: spsc_inv_def)
  next
    case (c_publish v r)
    then have c: "r = read_idx ?q" "r \<noteq> cached_write_idx ?q" "queue ?q ! r = v" using ok by auto
    have "0 < n" using cached_write_pos [OF w] c w by (auto simp: window_def)
    then obtain n' where n': "n = Suc n'" using not0_implies_Suc by blast
    have r: "read_idx ?q < length (queue ?q)" using w by (simp add: window_def)
    have "ring_slice (queue ?q) (read_idx ?q) n = v # ring_slice (queue ?q) (Suc r) n'"
      using c r by (simp add: n' ring_slice_Cons)
    moreover have "ring_slice (queue ?q) (next_index ?q r) n' = ring_slice (queue ?q) (Suc r) n'"
      using c r by (simp add: next_index_mod ring_slice_mod)
    ultimately show ?thesis
      unfolding c_publish(1) using len ok window_remove [OF w] c run n'
      by (intro spsc_invI [where n = n' and m = "m - 1" and k = "Suc k"])
         (auto simp: spec_run_append producer_ok_consumer)
  qed
qed

lemma spsc_start_inv: "spsc_inv Size (spsc_start Size x)"
proof -
  have "window (new_spsc Size x) 0 0 0" by (simp add: window_def new_spsc_def)
  then show ?thesis by (auto simp: spsc_inv_def spsc_start_def new_spsc_def intro!: exI [of _ 0])
qed

lemma spsc_reachable_inv: "spsc_step\<^sup>*\<^sup>* (spsc_start Size x) s \<Longrightarrow> spsc_inv Size s"
  by (induction rule: rtranclp_induct) (auto intro: spsc_start_inv spsc_step_inv)

section \<open>What the history says\<close>

definition pushed :: "'a event list \<Rightarrow> 'a list" where
  "pushed es = concat (map (\<lambda>e. case e of Pushed v \<Rightarrow> [v] | _ \<Rightarrow> []) es)"

definition popped :: "'a event list \<Rightarrow> 'a list" where
  "popped es = concat (map (\<lambda>e. case e of Popped v \<Rightarrow> [v] | _ \<Rightarrow> []) es)"

lemma spec_run_fifo:
  "spec_run Size es xs = Some ys \<Longrightarrow> length xs \<le> Size \<Longrightarrow>
     xs @ pushed es = popped es @ ys \<and> length ys \<le> Size"
proof (induction es arbitrary: xs)
  case Nil
  then show ?case by (simp add: pushed_def popped_def)
next
  case (Cons e es)
  then obtain zs where zs: "spec_event Size e xs = Some zs" "spec_run Size es zs = Some ys"
    by (auto split: option.splits)
  have "length zs \<le> Size" using zs(1) Cons.prems(2)
    by (cases e) (auto split: if_splits list.splits)
  from Cons.IH [OF zs(2) this] zs(1) show ?case
    by (cases e) (auto simp: pushed_def popped_def split: if_splits list.splits)
qed

definition spsc_reachable :: "nat \<Rightarrow> 'a \<Rightarrow> 'a spsc_state \<Rightarrow> bool" where
  "spsc_reachable Size x s \<longleftrightarrow> spsc_step\<^sup>*\<^sup>* (spsc_start Size x) s"

lemma reachable_spec:
  assumes "spsc_reachable Size x s"
  obtains xs where "spec_run Size (history s) [] = Some xs"
  using spsc_reachable_inv [OF assms [unfolded spsc_reachable_def]] that by (auto simp: spsc_inv_def)

lemma reachable_push:
  assumes "spsc_reachable Size x s" and "producer s = P_idle"
  shows "spsc_reachable Size x (s\<lparr>shared := snd (spsc_push v (shared s)),
    history := history s @ [if fst (spsc_push v (shared s)) then Pushed v else Push_refused v]\<rparr>)"
  using assms(1) push_runs [OF assms(2)] unfolding spsc_reachable_def by (rule rtranclp_trans)

lemma reachable_pop:
  assumes "spsc_reachable Size x s" and "consumer s = C_idle"
  shows "spsc_reachable Size x (s\<lparr>shared := snd (spsc_pop (shared s)),
    history := history s @ [case fst (spsc_pop (shared s)) of Some v \<Rightarrow> Popped v | None \<Rightarrow> Pop_refused]\<rparr>)"
  using assms(1) pop_runs [OF assms(2)] unfolding spsc_reachable_def by (rule rtranclp_trans)

section \<open>Properties\<close>

text \<open>C13: in every interleaving of the two threads the queue behaves as an atomic FIFO of at
  most \<open>Size\<close> elements: each outcome in the history is the one the atomic queue gives at that
  point (refused pushes only when it is full, refused pops only when it is empty), so the
  elements removed are the first of those inserted, in order, none lost and none repeated.\<close>

theorem spsc_linearizes:
  assumes "spsc_reachable Size x s"
  shows "\<exists>xs. spec_run Size (history s) [] = Some xs \<and> length xs \<le> Size \<and>
    pushed (history s) = popped (history s) @ xs"
proof -
  obtain xs where "spec_run Size (history s) [] = Some xs" using assms by (rule reachable_spec)
  with spec_run_fifo [OF this] show ?thesis by simp
qed

theorem spsc_linearizes_witness:
  "\<exists>xs. spec_run 1 (history (spsc_start 1 (0 :: nat))) [] = Some xs \<and> length xs \<le> 1 \<and>
    pushed (history (spsc_start 1 (0 :: nat))) = popped (history (spsc_start 1 (0 :: nat))) @ xs"
  by (rule spsc_linearizes [of 1 0]) (simp add: spsc_reachable_def)

text \<open>C35: the producer never writes the element that the consumer is about to read: whenever
  both threads are at their access to the array, they are at different indices.\<close>

theorem spsc_no_element_race:
  assumes "spsc_reachable Size x s" and "producer s = P_element v w n" and "consumer s = C_element r"
  shows "w \<noteq> r"
proof -
  have inv: "spsc_inv Size s" using assms(1) spsc_reachable_inv by (simp add: spsc_reachable_def)
  then obtain n m k where "window (shared s) n m k" by (auto simp: spsc_inv_def)
  from write_not_read [OF this] inv assms(2,3) show ?thesis by (auto simp: spsc_inv_def)
qed

theorem spsc_no_element_race_witness:
  "\<exists>s. spsc_reachable 2 (0 :: nat) s \<and> producer s = P_element 8 1 2 \<and> consumer s = C_element 0 \<and> (1 :: nat) \<noteq> 0"
proof -
  let ?q = "\<lparr>queue = [7, 0, 0 :: nat], read_idx = 0, cached_read_idx = 0, write_idx = 1, cached_write_idx = 0\<rparr>"
  let ?s = "\<lambda>q p c. \<lparr>shared = q, producer = p, consumer = c, history = [Pushed 7]\<rparr>"
  let ?q' = "?q\<lparr>cached_write_idx := 1\<rparr>"
  have "spsc_reachable 2 0 (spsc_start 2 (0 :: nat))" by (simp add: spsc_reachable_def)
  from reachable_push [OF this, of 7] have 0: "spsc_reachable 2 0 (?s ?q P_idle C_idle)"
    by (simp add: spsc_start_def new_spsc_def spsc_push_def next_index_def Let_def numeral_2_eq_2)
  have 1: "spsc_step (?s ?q P_idle C_idle) (?s ?q P_idle (C_compare 0))"
    using c_start [of "?s ?q P_idle C_idle"] by simp
  have 2: "spsc_step (?s ?q P_idle (C_compare 0)) (?s ?q P_idle (C_load 0))"
    using c_compare [of "?s ?q P_idle (C_compare 0)" 0] by simp
  have 3: "spsc_step (?s ?q P_idle (C_load 0)) (?s ?q' P_idle (C_element 0))"
    using c_load [of "?s ?q P_idle (C_load 0)" 0 1] by simp
  have 4: "spsc_step (?s ?q' P_idle (C_element 0)) (?s ?q' (P_compare 8 1 2) (C_element 0))"
    using p_start [of "?s ?q' P_idle (C_element 0)" 8] by (simp add: next_index_def numeral_2_eq_2)
  have 5: "spsc_step (?s ?q' (P_compare 8 1 2) (C_element 0)) (?s ?q' (P_element 8 1 2) (C_element 0))"
    using p_compare [of "?s ?q' (P_compare 8 1 2) (C_element 0)" 8 1 2] by simp
  have "spsc_reachable 2 0 (?s ?q' (P_element 8 1 2) (C_element 0))"
    using 0 1 2 3 4 5 unfolding spsc_reachable_def by (meson rtranclp.rtrancl_into_rtrancl)
  moreover from spsc_no_element_race [OF this, of 8 1 2 0] have "(1 :: nat) \<noteq> 0" by simp
  ultimately show ?thesis by (intro exI [of _ "?s ?q' (P_element 8 1 2) (C_element 0)"]) simp
qed



end
