(* ===== verification/Sha1.thy ===== *)
theory Sha1
  imports Prelude
begin

text \<open>
  \<^verbatim>\<open>src/Client/sha1.hpp\<close> and \<^verbatim>\<open>src/Client/Hasher.hpp\<close>: the streaming SHA-1 that computes the
  info hash, the digest strings, and the 64-bit FNV-1a hash of peer contacts.  The streaming
  state is shown to hold the digest of the whole blocks consumed so far and the bytes of the
  unfinished block; the final padding is compared with the one of the standard.  The only loop
  of the source that a corrupted state could keep running forever has fuel 64, which lemma
  \<open>fill_nonzero_ends\<close> shows to be enough.
\<close>

unbundle bit_operations_syntax

section \<open>The compression function\<close>

type_synonym u32 = "32 word"

record sha1 =
  m_digest :: "u32 list"
  m_block :: "byte list"
  m_blockByteIndex :: nat
  m_byteCount :: nat

definition LeftRotate :: "u32 \<Rightarrow> nat \<Rightarrow> u32" where
  "LeftRotate value count = push_bit count value XOR drop_bit (32 - count) value"

definition initial_digest :: "u32 list" where
  "initial_digest = [0x67452301, 0xEFCDAB89, 0x98BADCFE, 0x10325476, 0xC3D2E1F0]"

definition sha1_reset :: "sha1 \<Rightarrow> sha1" where
  "sha1_reset s = s\<lparr>m_digest := initial_digest, m_blockByteIndex := 0, m_byteCount := 0\<rparr>"

definition sha1_new :: sha1 where
  "sha1_new = sha1_reset \<lparr>m_digest = [], m_block = replicate 64 0, m_blockByteIndex = 0, m_byteCount = 0\<rparr>"

definition block_word :: "byte list \<Rightarrow> nat \<Rightarrow> u32" where
  "block_word block i =
     push_bit 24 (ucast (block ! (i * 4 + 0))) OR push_bit 16 (ucast (block ! (i * 4 + 1)))
     OR push_bit 8 (ucast (block ! (i * 4 + 2))) OR ucast (block ! (i * 4 + 3))"

definition extend_word :: "u32 list \<Rightarrow> nat \<Rightarrow> u32 list" where
  "extend_word w i = w @ [LeftRotate (w ! (i - 3) XOR w ! (i - 8) XOR w ! (i - 14) XOR w ! (i - 16)) 1]"

definition schedule :: "byte list \<Rightarrow> u32 list" where
  "schedule block = foldl extend_word (map (block_word block) [0..<16]) [16..<80]"

definition round_constants :: "nat \<Rightarrow> u32 \<Rightarrow> u32 \<Rightarrow> u32 \<Rightarrow> u32 \<times> u32" where
  "round_constants i b c d =
     (if i < 20 then ((b AND c) OR (NOT b AND d), 0x5A827999)
      else if i < 40 then (b XOR c XOR d, 0x6ED9EBA1)
      else if i < 60 then ((b AND c) OR (b AND d) OR (c AND d), 0x8F1BBCDC)
      else (b XOR c XOR d, 0xCA62C1D6))"

fun sha1_round :: "u32 list \<Rightarrow> u32 \<times> u32 \<times> u32 \<times> u32 \<times> u32 \<Rightarrow> nat \<Rightarrow> u32 \<times> u32 \<times> u32 \<times> u32 \<times> u32" where
  "sha1_round w (a, b, c, d, e) i =
     (case round_constants i b c d of (f, k) \<Rightarrow>
        let temp = LeftRotate a 5 + f + e + k + w ! i
        in (temp, a, LeftRotate b 30, c, d))"

definition compress :: "u32 list \<Rightarrow> byte list \<Rightarrow> u32 list" where
  "compress digest block =
     (case foldl (sha1_round (schedule block))
             (digest ! 0, digest ! 1, digest ! 2, digest ! 3, digest ! 4) [0..<80] of
        (a, b, c, d, e) \<Rightarrow>
          [digest ! 0 + a, digest ! 1 + b, digest ! 2 + c, digest ! 3 + d, digest ! 4 + e])"

definition processBlock :: "sha1 \<Rightarrow> sha1" where
  "processBlock s = s\<lparr>m_digest := compress (m_digest s) (m_block s)\<rparr>"

section \<open>Streaming\<close>

definition processByte :: "byte \<Rightarrow> sha1 \<Rightarrow> sha1" where
  "processByte octet s =
     (let s = s\<lparr>m_block := (m_block s)[m_blockByteIndex s := octet], m_blockByteIndex := m_blockByteIndex s + 1\<rparr>;
          s = s\<lparr>m_byteCount := sz_add (m_byteCount s) 1\<rparr>
      in if m_blockByteIndex s = 64 then processBlock (s\<lparr>m_blockByteIndex := 0\<rparr>) else s)"

definition processBytes :: "byte list \<Rightarrow> sha1 \<Rightarrow> sha1" where
  "processBytes data s = fold processByte data s"

fun fill_nonzero :: "nat \<Rightarrow> sha1 \<Rightarrow> sha1" where
  "fill_nonzero 0 s = s"
| "fill_nonzero (Suc fuel) s = (if m_blockByteIndex s \<noteq> 0 then fill_nonzero fuel (processByte 0 s) else s)"

declare fill_nonzero.simps [simp del]

function fill_below_56 :: "sha1 \<Rightarrow> sha1" where
  "fill_below_56 s = (if m_blockByteIndex s < 56 then fill_below_56 (processByte 0 s) else s)"
  by pat_completeness auto
termination
  by (relation "measure (\<lambda>s. 56 - m_blockByteIndex s)") (auto simp: processByte_def Let_def)

declare fill_below_56.simps [simp del]

definition bit_count_byte :: "nat \<Rightarrow> nat \<Rightarrow> byte" where
  "bit_count_byte bitCount shift = word_of_nat (drop_bit shift bitCount)"

definition getDigest :: "sha1 \<Rightarrow> u32 list \<times> sha1" where
  "getDigest s =
     (let bitCount = sz_mul (m_byteCount s) 8;
          s = processByte 0x80 s;
          s = (if 56 < m_blockByteIndex s then fill_below_56 (fill_nonzero 64 s) else fill_below_56 s);
          s = processByte 0 (processByte 0 (processByte 0 (processByte 0 s)));
          s = processByte (bit_count_byte bitCount 24) s;
          s = processByte (bit_count_byte bitCount 16) s;
          s = processByte (bit_count_byte bitCount 8) s;
          s = processByte (bit_count_byte bitCount 0) s
      in (m_digest s, s))"

definition word_bytes :: "u32 \<Rightarrow> byte list" where
  "word_bytes d = [ucast (drop_bit 24 d), ucast (drop_bit 16 d), ucast (drop_bit 8 d), ucast d]"

definition getDigestBytes :: "sha1 \<Rightarrow> byte list" where
  "getDigestBytes s =
     (let d32 = fst (getDigest s)
      in word_bytes (d32 ! 0) @ word_bytes (d32 ! 1) @ word_bytes (d32 ! 2)
         @ word_bytes (d32 ! 3) @ word_bytes (d32 ! 4))"

section \<open>Hasher.hpp\<close>

definition get_sha1 :: "byte list \<Rightarrow> byte list" where
  "get_sha1 data = getDigestBytes (processBytes data sha1_new)"

definition hex_digit :: "nat \<Rightarrow> char" where
  "hex_digit n = (if n < 10 then char_of (48 + n) else char_of (87 + n))"

text \<open>
  The conditional inserts a zero before a value below 16 and then the value itself; both are
  written by the stream in base 16.
\<close>

definition hex_stringify_hash :: "byte list \<Rightarrow> string" where
  "hex_stringify_hash byte_sequence =
     concat (map (\<lambda>byt. let decimal_value = unat byt
                        in if decimal_value < 16 then [hex_digit 0, hex_digit decimal_value]
                           else [hex_digit (decimal_value div 16), hex_digit (decimal_value mod 16)]) byte_sequence)"

definition byte_stringify_hash :: "byte list \<Rightarrow> string" where
  "byte_stringify_hash byte_sequence = map (\<lambda>byt. char_of (unat byt)) byte_sequence"

definition fnv_1a_64bits :: "byte list \<Rightarrow> u64" where
  "fnv_1a_64bits sequence =
     foldl (\<lambda>hashed_value b. (hashed_value XOR ucast b) * 1099511628211) 14695981039346656037 sequence"

section \<open>The blocks of a message\<close>

definition blocks :: "byte list \<Rightarrow> byte list list" where
  "blocks xs = map (\<lambda>i. subspan (64 * i) 64 xs) [0..<length xs div 64]"

definition unfinished :: "byte list \<Rightarrow> byte list" where
  "unfinished xs = drop (64 * (length xs div 64)) xs"

lemma length_unfinished [simp]: "length (unfinished xs) = length xs mod 64"
  by (simp add: unfinished_def minus_mult_div_eq_mod)

lemma unfinished_split: "take (64 * (length xs div 64)) xs @ unfinished xs = xs"
  by (simp add: unfinished_def)

lemma blocks_prefix: "(\<And>i. i < length xs div 64 \<Longrightarrow> subspan (64 * i) 64 (xs @ ys) = subspan (64 * i) 64 xs)"
  by (auto simp: subspan_def)

lemma blocks_snoc:
  "blocks (xs @ [b]) = (if length xs mod 64 = 63 then blocks xs @ [unfinished xs @ [b]] else blocks xs)"
proof -
  have pre: "map (\<lambda>i. subspan (64 * i) 64 (xs @ [b])) [0..<length xs div 64] = blocks xs"
    by (simp add: blocks_def blocks_prefix)
  show ?thesis
  proof (cases "length xs mod 64 = 63")
    case True
    then have d: "Suc (length xs) div 64 = Suc (length xs div 64)" by (simp add: div_Suc mod_Suc)
    have "length xs = 64 * (length xs div 64) + 63" using True mult_div_mod_eq [of 64 "length xs"] by linarith
    then have "subspan (64 * (length xs div 64)) 64 (xs @ [b]) = unfinished xs @ [b]"
      using True by (simp add: subspan_def unfinished_def)
    with pre True d show ?thesis by (simp add: blocks_def)
  next
    case False
    then have "Suc (length xs) div 64 = length xs div 64"
      by (simp add: div_Suc mod_Suc)
    with pre False show ?thesis by (simp add: blocks_def)
  qed
qed

lemma unfinished_snoc:
  "unfinished (xs @ [b]) = (if length xs mod 64 = 63 then [] else unfinished xs @ [b])"
proof (cases "length xs mod 64 = 63")
  case True
  then have "length (xs @ [b]) mod 64 = 0" by (simp add: mod_Suc)
  then have "unfinished (xs @ [b]) = []" unfolding length_unfinished [symmetric] length_0_conv .
  with True show ?thesis by simp
next
  case False
  then have "Suc (length xs) div 64 = length xs div 64"
    by (simp add: div_Suc mod_Suc)
  moreover have "64 * (length xs div 64) \<le> length xs" by simp
  ultimately show ?thesis using False by (simp add: unfinished_def)
qed

section \<open>The streaming invariant\<close>

definition absorbed :: "byte list \<Rightarrow> sha1 \<Rightarrow> bool" where
  "absorbed xs s \<longleftrightarrow> m_digest s = foldl compress initial_digest (blocks xs)
     \<and> length (m_block s) = 64 \<and> m_blockByteIndex s = length xs mod 64
     \<and> take (length xs mod 64) (m_block s) = unfinished xs
     \<and> m_byteCount s = length xs mod sz_modulus"

lemma absorbed_new: "absorbed [] sha1_new"
  by (simp add: absorbed_def sha1_new_def sha1_reset_def blocks_def unfinished_def)

lemma absorbed_processByte:
  assumes a: "absorbed xs s"
  shows "absorbed (xs @ [b]) (processByte b s)"
proof -
  let ?i = "length xs mod 64"
  have i: "?i < 64" by simp
  have blk: "take (Suc ?i) ((m_block s)[?i := b]) = unfinished xs @ [b]"
    using a i by (simp add: absorbed_def take_Suc_conv_app_nth)
  have cnt: "sz_add (m_byteCount s) 1 = Suc (length xs) mod sz_modulus"
    using a by (simp add: absorbed_def sz_add_def mod_Suc_eq)
  show ?thesis
  proof (cases "?i = 63")
    case True
    then have "(m_block s)[63 := b] = unfinished xs @ [b]"
      using blk a by (simp add: absorbed_def)
    with True a cnt show ?thesis
      by (simp add: absorbed_def processByte_def Let_def processBlock_def blocks_snoc unfinished_snoc mod_Suc)
  next
    case False
    then have "Suc (length xs) mod 64 = Suc ?i" using i by (simp add: mod_Suc)
    with False a cnt blk show ?thesis
      by (simp add: absorbed_def processByte_def Let_def blocks_snoc unfinished_snoc)
  qed
qed

lemma absorbed_processBytes:
  "absorbed xs s \<Longrightarrow> absorbed (xs @ data) (processBytes data s)"
proof (induction data arbitrary: xs s)
  case (Cons b data)
  from Cons.IH [OF absorbed_processByte [OF Cons.prems]] show ?case by (simp add: processBytes_def)
qed (simp add: processBytes_def)

lemma absorbed_index: "absorbed xs s \<Longrightarrow> m_blockByteIndex s = length xs mod 64"
  by (simp add: absorbed_def)

lemma absorbed_fill_nonzero:
  "absorbed xs s \<Longrightarrow> \<exists>z. absorbed (xs @ replicate z 0) (fill_nonzero fuel s) \<and> z \<le> fuel
     \<and> (64 \<le> fuel + length xs mod 64 \<or> length xs mod 64 = 0 \<longrightarrow>
        (length xs + z) mod 64 = 0 \<and> z < 64 \<and> (z = 0 \<or> length xs mod 64 \<noteq> 0))"
proof (induction fuel arbitrary: xs s)
  case 0
  have "length xs mod 64 < 64" by simp
  with 0 show ?case by (intro exI [of _ 0]) (auto simp: fill_nonzero.simps)
next
  case (Suc fuel)
  show ?case
  proof (cases "length xs mod 64 = 0")
    case True
    with Suc.prems show ?thesis by (intro exI [of _ 0]) (simp add: absorbed_index fill_nonzero.simps)
  next
    case False
    obtain z where z: "absorbed ((xs @ [0]) @ replicate z 0) (fill_nonzero fuel (processByte 0 s))" "z \<le> fuel"
      "64 \<le> fuel + length (xs @ [0]) mod 64 \<or> length (xs @ [0]) mod 64 = 0 \<longrightarrow>
        (length (xs @ [0]) + z) mod 64 = 0 \<and> z < 64 \<and> (z = 0 \<or> length (xs @ [0]) mod 64 \<noteq> 0)"
      using Suc.IH [OF absorbed_processByte [OF Suc.prems, of 0]] by auto
    have nz: "m_blockByteIndex s \<noteq> 0" using False Suc.prems by (simp add: absorbed_index)
    have "Suc z < 64 \<or> \<not> (64 \<le> Suc fuel + length xs mod 64)"
    proof (rule ccontr)
      assume *: "\<not> ?thesis"
      then have "64 \<le> fuel + length (xs @ [0]) mod 64 \<or> length (xs @ [0]) mod 64 = 0"
        by (auto simp: mod_Suc)
      with z(3) * have "z = 63" "(Suc (length xs) + z) mod 64 = 0" by auto
      then have "(length xs + 64) mod 64 = 0" by simp
      with False show False by simp
    qed
    moreover have "(length xs + Suc z) mod 64 = 0" if "64 \<le> Suc fuel + length xs mod 64"
      using z(3) that by (auto simp: mod_Suc split: if_splits)
    ultimately show ?thesis using z(1,2) False nz
      by (intro exI [of _ "Suc z"]) (auto simp: replicate_app_Cons_same fill_nonzero.simps)
  qed
qed

lemma fill_nonzero_full:
  assumes "absorbed xs s"
  shows "\<exists>z. absorbed (xs @ replicate z 0) (fill_nonzero 64 s) \<and> (length xs + z) mod 64 = 0 \<and> z < 64"
  using absorbed_fill_nonzero [OF assms, of 64]
proof (elim exE conjE)
  fix z assume z: "absorbed (xs @ replicate z 0) (fill_nonzero 64 s)"
    and "64 \<le> 64 + length xs mod 64 \<or> length xs mod 64 = 0 \<longrightarrow>
      (length xs + z) mod 64 = 0 \<and> z < 64 \<and> (z = 0 \<or> length xs mod 64 \<noteq> 0)"
  then have "(length xs + z) mod 64 = 0 \<and> z < 64" using le_add1 by metis
  with z show ?thesis by (intro exI [of _ z] conjI) (elim conjE; assumption)+
qed

text \<open>From any reachable state the fuel of the loop is enough.\<close>

lemma fill_nonzero_ends:
  assumes "absorbed xs s"
  shows "m_blockByteIndex (fill_nonzero 64 s) = 0"
  using fill_nonzero_full [OF assms] by (auto simp: absorbed_index)

lemma absorbed_fill_below:
  "absorbed xs s \<Longrightarrow> length xs mod 64 \<le> 56 \<Longrightarrow>
     absorbed (xs @ replicate (56 - length xs mod 64) 0) (fill_below_56 s)"
proof (induction "56 - length xs mod 64" arbitrary: xs s)
  case 0
  then show ?case by (simp add: fill_below_56.simps [of s] absorbed_index)
next
  case (Suc n)
  then have lt: "length xs mod 64 < 56" by simp
  then have m: "length (xs @ [0]) mod 64 = Suc (length xs mod 64)" by (simp add: mod_Suc)
  have "absorbed ((xs @ [0]) @ replicate (56 - length (xs @ [0]) mod 64) 0) (fill_below_56 (processByte 0 s))"
    using Suc lt m by (intro Suc.hyps(1) absorbed_processByte) simp_all
  moreover have "56 - length xs mod 64 = Suc (56 - length (xs @ [0]) mod 64)" using lt m by simp
  moreover have "fill_below_56 s = fill_below_56 (processByte 0 s)"
    using lt Suc.prems(1) by (simp add: fill_below_56.simps [of s] absorbed_index)
  ultimately show ?case by simp
qed

section \<open>The padding of the standard\<close>

definition be64 :: "nat \<Rightarrow> byte list" where
  "be64 n = map (\<lambda>shift. bit_count_byte n shift) [56, 48, 40, 32, 24, 16, 8, 0]"

definition pad_zeros :: "nat \<Rightarrow> nat" where
  "pad_zeros len = (119 - len mod 64) mod 64"

definition standard_padding :: "nat \<Rightarrow> byte list" where
  "standard_padding len = [0x80] @ replicate (pad_zeros len) 0 @ be64 (8 * len)"

definition sha1_standard :: "byte list \<Rightarrow> u32 list" where
  "sha1_standard xs = foldl compress initial_digest (blocks (xs @ standard_padding (length xs)))"

lemma pad_zeros_mod: "(Suc len + pad_zeros len) mod 64 = 56" "pad_zeros len < 64"
proof -
  obtain q r where "len = 64 * q + r" "r < 64" "len mod 64 = r"
    using mult_div_mod_eq [of 64 len] mod_less_divisor [of 64 len] by (metis zero_less_numeral)
  moreover from this(2) have "(Suc r + (119 - r) mod 64) mod 64 = 56"
    by (cases "r \<le> 55") (auto simp: mod_if)
  ultimately show "(Suc len + pad_zeros len) mod 64 = 56"
    unfolding pad_zeros_def by (metis mod_mult_self4 add.assoc add_Suc_right)
  show "pad_zeros len < 64" by (simp add: pad_zeros_def)
qed

lemma pad_zeros_unique:
  assumes "(Suc len + z) mod 64 = 56" and "z < 64"
  shows "z = pad_zeros len"
  using ring_index_inj [of "Suc len" z 64 "pad_zeros len"] pad_zeros_mod [of len] assms by simp

lemma full_to_zero:
  assumes "(i + z) mod 64 = 0" and "56 < i" and "i < 64" and "z < (64 :: nat)"
  shows "z < 8"
proof (cases "i + z < 64")
  case True
  then have "(i + z) mod 64 = i + z" by (rule mod_less)
  with assms show ?thesis by linarith
next
  case False
  then have "(i + z) mod 64 = i + z - 64" using assms by (simp add: le_mod_geq)
  with assms show ?thesis by linarith
qed

lemma absorbed_padded:
  assumes a: "absorbed xs s"
  shows "\<exists>t. absorbed (xs @ [0x80] @ replicate (pad_zeros (length xs)) 0) t \<and>
    t = (let s = processByte 0x80 s in
         if 56 < m_blockByteIndex s then fill_below_56 (fill_nonzero 64 s) else fill_below_56 s)"
proof -
  let ?s = "processByte 0x80 s" and ?ys = "xs @ [0x80]"
  have s: "absorbed ?ys ?s" using a by (rule absorbed_processByte)
  have idx: "m_blockByteIndex ?s = length ?ys mod 64" using s by (rule absorbed_index)
  show ?thesis
  proof (cases "56 < length ?ys mod 64")
    case False
    then have "absorbed (?ys @ replicate (56 - length ?ys mod 64) 0) (fill_below_56 ?s)"
      using s by (intro absorbed_fill_below) simp_all
    moreover have "56 - length ?ys mod 64 = pad_zeros (length xs)"
    proof (rule pad_zeros_unique)
      have "(length ?ys + (56 - length ?ys mod 64)) mod 64 = (length ?ys mod 64 + (56 - length ?ys mod 64)) mod 64"
        by (rule mod_add_left_eq [symmetric])
      with False show "(Suc (length xs) + (56 - length ?ys mod 64)) mod 64 = 56" by simp
    qed simp
    ultimately show ?thesis using False idx by (simp add: Let_def)
  next
    case True
    obtain z where z: "absorbed (?ys @ replicate z 0) (fill_nonzero 64 ?s)" "(length ?ys + z) mod 64 = 0" "z < 64"
      using fill_nonzero_full [OF s] by (elim exE conjE)
    have m0: "(length ?ys mod 64 + z) mod 64 = 0" using z(2) by (simp only: mod_add_left_eq)
    have "z < 8" by (rule full_to_zero [OF m0 True _ z(3)]) simp
    have "absorbed ((?ys @ replicate z 0) @ replicate (56 - length (?ys @ replicate z 0) mod 64) 0)
        (fill_below_56 (fill_nonzero 64 ?s))"
      using z by (intro absorbed_fill_below) simp_all
    then have "absorbed (?ys @ replicate (z + 56) 0) (fill_below_56 (fill_nonzero 64 ?s))"
      using z(2) by (simp add: replicate_add)
    moreover have "z + 56 = pad_zeros (length xs)"
    proof (rule pad_zeros_unique)
      have "(Suc (length xs) + (z + 56)) mod 64 = ((length ?ys + z) mod 64 + 56) mod 64"
        by (simp only: mod_add_left_eq) (simp add: ac_simps)
      then show "(Suc (length xs) + (z + 56)) mod 64 = 56" using z(2) by simp
    qed (use \<open>z < 8\<close> in simp)
    ultimately show ?thesis using True idx by (simp add: Let_def)
  qed
qed

text \<open>For a message of any length the source appends the low 32 bits of the bit count.\<close>

lemma getDigest_absorbed:
  assumes a: "absorbed xs s"
  shows "fst (getDigest s) = foldl compress initial_digest
    (blocks (xs @ [0x80] @ replicate (pad_zeros (length xs)) 0 @ [0, 0, 0, 0] @
       map (bit_count_byte (sz_mul (m_byteCount s) 8)) [24, 16, 8, 0]))"
proof -
  obtain t where t: "absorbed (xs @ [0x80] @ replicate (pad_zeros (length xs)) 0) t"
    "t = (let s = processByte 0x80 s in
         if 56 < m_blockByteIndex s then fill_below_56 (fill_nonzero 64 s) else fill_below_56 s)"
    using absorbed_padded [OF a] by blast
  let ?c = "bit_count_byte (sz_mul (m_byteCount s) 8)"
  have "absorbed ((xs @ [0x80] @ replicate (pad_zeros (length xs)) 0) @ [0, 0, 0, 0, ?c 24, ?c 16, ?c 8, ?c 0])
      (processBytes [0, 0, 0, 0, ?c 24, ?c 16, ?c 8, ?c 0] t)"
    using t(1) by (rule absorbed_processBytes)
  moreover have "fst (getDigest s) = m_digest (processBytes [0, 0, 0, 0, ?c 24, ?c 16, ?c 8, ?c 0] t)"
    unfolding t(2) by (simp add: getDigest_def Let_def processBytes_def)
  ultimately show ?thesis by (simp add: absorbed_def)
qed

lemma getDigest_standard:
  assumes "length xs < 2 ^ 29"
  shows "fst (getDigest (processBytes xs sha1_new)) = sha1_standard xs"
proof -
  have a: "absorbed xs (processBytes xs sha1_new)"
    using absorbed_processBytes [OF absorbed_new, of xs] by simp
  then have "m_byteCount (processBytes xs sha1_new) = length xs"
    using assms by (simp add: absorbed_def sz_modulus_def)
  then have count: "sz_mul (m_byteCount (processBytes xs sha1_new)) 8 = 8 * length xs"
    using assms by (simp add: sz_mul_def sz_modulus_def)
  have "bit_count_byte (8 * length xs) shift = 0" if "32 \<le> shift" for shift
  proof -
    have "8 * length xs < 2 ^ 32" using assms by simp
    also have "(2 :: nat) ^ 32 \<le> 2 ^ shift" using that by (intro power_increasing) simp_all
    finally have "8 * length xs < 2 ^ shift" .
    then show ?thesis by (simp add: bit_count_byte_def drop_bit_eq_div)
  qed
  then have "standard_padding (length xs) = [0x80] @ replicate (pad_zeros (length xs)) 0 @ [0, 0, 0, 0] @
      map (bit_count_byte (8 * length xs)) [24, 16, 8, 0]"
    by (simp add: standard_padding_def be64_def)
  then show ?thesis using getDigest_absorbed [OF a] count by (simp add: sha1_standard_def)
qed

lemma length_compress [simp]: "length (compress digest block) = 5"
  by (simp add: compress_def split: prod.split)

lemma length_sha1_standard: "length (sha1_standard xs) = 5"
proof -
  have "length (foldl compress d bs) = 5" if "length d = 5" for d bs
    using that by (induction bs arbitrary: d) simp_all
  then show ?thesis by (simp add: sha1_standard_def initial_digest_def)
qed

lemma getDigestBytes_words:
  "length d = 5 \<Longrightarrow> fst (getDigest s) = d \<Longrightarrow> getDigestBytes s = concat (map word_bytes d)"
  by (auto simp: getDigestBytes_def Let_def length_Suc_conv numeral_eq_Suc)

lemma length_get_sha1 [simp]: "length (get_sha1 xs) = 20"
  by (simp add: get_sha1_def getDigestBytes_def word_bytes_def Let_def)

section \<open>Properties\<close>

text \<open>C16: for every message below \<open>2 ^ 29\<close> bytes the byte-by-byte implementation computes the
  digest of the standard: the compression folded over the 64-byte blocks of the message
  followed by a one bit, zeros, and the 64-bit bit count.\<close>

theorem sha1_streaming_standard:
  assumes "length xs < 2 ^ 29"
  shows "get_sha1 xs = concat (map word_bytes (sha1_standard xs))"
  using getDigestBytes_words [OF length_sha1_standard getDigest_standard [OF assms]]
  by (simp add: get_sha1_def)

theorem sha1_streaming_standard_witness:
  "get_sha1 [0x61, 0x62, 0x63] = concat (map word_bytes (sha1_standard [0x61, 0x62, 0x63]))"
  by (rule sha1_streaming_standard) simp

text \<open>Feeding a message in two parts is feeding it at once; the state between the parts
  holds the digest of the complete blocks and the bytes of the unfinished one.\<close>

lemma sha1_incremental:
  "processBytes (xs @ ys) sha1_new = processBytes ys (processBytes xs sha1_new)
   \<and> m_digest (processBytes xs sha1_new) = foldl compress initial_digest (blocks xs)
   \<and> take (length xs mod 64) (m_block (processBytes xs sha1_new)) = unfinished xs"
  using absorbed_processBytes [OF absorbed_new, of xs] by (simp add: processBytes_def absorbed_def)

text \<open>From \<open>2 ^ 29\<close> bytes on the source departs from the standard: only the low 32 bits of
  the bit count are appended, after four zero bytes, whatever the message length.\<close>

lemma sha1_length_truncated:
  "fst (getDigest (processBytes xs sha1_new)) = foldl compress initial_digest
    (blocks (xs @ [0x80] @ replicate (pad_zeros (length xs)) 0 @ [0, 0, 0, 0] @
       map (bit_count_byte (sz_mul (length xs mod sz_modulus) 8)) [24, 16, 8, 0]))"
proof -
  have a: "absorbed xs (processBytes xs sha1_new)"
    using absorbed_processBytes [OF absorbed_new, of xs] by simp
  then show ?thesis using getDigest_absorbed [OF a] by (simp add: absorbed_def)
qed

end
