(* ===== verification/TorrentFile.thy ===== *)
theory TorrentFile
  imports Bencode Sha1
begin

text \<open>
  \<^verbatim>\<open>src/Client/TorrentFile.hpp\<close>, \<^verbatim>\<open>TorrentFile.cpp\<close> and \<^verbatim>\<open>utils.hpp\<close>: reading a torrent.  The file
  system is a parameter: what opening and reading the file gave.  Every access to the decoded
  dictionary is written as the code makes it, so that a missing key is a dereferenced end
  iterator and a value of another type a bad variant access; \<open>int64_t\<close> sums may overflow and
  conversions to \<open>std::size_t\<close> wrap around.
\<close>

section \<open>The torrent\<close>

record torrent =
  transcibe :: dictionary
  info_hash_byte :: "byte list"
  is_file :: bool
  download_size :: int
  piece_count :: nat
  file_count :: nat

definition ceil_div :: "nat \<Rightarrow> nat \<Rightarrow> fault + nat" where
  "ceil_div a b = (if b = 0 then Inl Division_by_zero
     else Inr (a div b + (if a mod b \<noteq> 0 then 1 else 0)))"

definition deref :: "data option \<Rightarrow> fault + data" where
  "deref found = (case found of None \<Rightarrow> Inl Deref_end_iterator | Some d \<Rightarrow> Inr d)"

definition info_map :: "torrent \<Rightarrow> fault + dictionary" where
  "info_map t = bind_fault (deref (ben_find ''info'' (transcibe t))) get_as_dictionary"

definition pieces :: "torrent \<Rightarrow> fault + string" where
  "pieces t = bind_fault (info_map t) (\<lambda>info.
     bind_fault (deref (ben_find ''pieces'' info)) get_as_string)"

definition get_torrent_name :: "torrent \<Rightarrow> fault + string" where
  "get_torrent_name t = bind_fault (info_map t) (\<lambda>info.
     bind_fault (deref (ben_find ''name'' info)) get_as_string)"

definition get_piece_length :: "torrent \<Rightarrow> fault + int" where
  "get_piece_length t = bind_fault (info_map t) (\<lambda>info.
     bind_fault (deref (ben_find ''piece length'' info)) get_as_integer)"

definition get_piece_hash :: "torrent \<Rightarrow> nat \<Rightarrow> fault + string" where
  "get_piece_hash t index =
     (if \<not> index < piece_count t then Inl Assertion_failed
      else bind_fault (pieces t) (\<lambda>piece_hashes.
        let hash_index = sint (word_of_nat (sz_mul index 20) :: 32 word)
        in if hash_index < 0 then Inl Out_of_bounds_access
           else Inr (subspan (nat hash_index) 20 piece_hashes)))"

definition files :: "torrent \<Rightarrow> fault + data list option" where
  "files t =
     (if is_file t then Inr None
      else bind_fault (info_map t) (\<lambda>info.
        bind_fault (deref (ben_find ''files'' info)) (\<lambda>d.
        bind_fault (get_as_list d) (\<lambda>fs. Inr (Some fs)))))"

fun append_urls :: "string list \<Rightarrow> data list \<Rightarrow> fault + string list" where
  "append_urls trackers [] = Inr trackers"
| "append_urls trackers (url # urls) =
     bind_fault (get_as_string url) (\<lambda>u. append_urls (trackers @ [u]) urls)"

fun append_url_lists :: "string list \<Rightarrow> data list \<Rightarrow> fault + string list" where
  "append_url_lists trackers [] = Inr trackers"
| "append_url_lists trackers (url_list # url_pack) =
     bind_fault (get_as_list url_list) (\<lambda>urls.
     bind_fault (append_urls trackers urls) (\<lambda>trackers. append_url_lists trackers url_pack))"

definition get_tracker_urls :: "torrent \<Rightarrow> fault + string list" where
  "get_tracker_urls t =
     bind_fault (case ben_find ''announce'' (transcibe t) of
         None \<Rightarrow> Inr []
       | Some found \<Rightarrow> bind_fault (get_as_string found) (\<lambda>announce_url. Inr [announce_url]))
     (\<lambda>trackers. case ben_find ''announce-list'' (transcibe t) of
         None \<Rightarrow> Inr trackers
       | Some found \<Rightarrow> bind_fault (get_as_list found) (append_url_lists trackers))"

section \<open>Validation\<close>

definition add_size :: "int \<Rightarrow> int \<Rightarrow> fault + int" where
  "add_size a b = (if int64 (a + b) then Inr (a + b) else Inl Signed_overflow)"

text \<open>The loop over the files: whether every file has its keys, and the sum so far.\<close>

fun add_lengths :: "data list \<Rightarrow> int \<Rightarrow> fault + (bool \<times> int)" where
  "add_lengths [] n = Inr (True, n)"
| "add_lengths (file # fs) n =
     bind_fault (get_as_dictionary file) (\<lambda>file_map.
       case ben_find ''length'' file_map of
         None \<Rightarrow> Inr (False, n)
       | Some found \<Rightarrow>
           bind_fault (get_as_integer found) (\<lambda>l.
           bind_fault (add_size n l) (\<lambda>n.
             if \<not> ben_contains ''path'' file_map then Inr (False, n)
             else add_lengths fs n)))"

definition parse_files :: "dictionary \<Rightarrow> torrent \<Rightarrow> fault + (bool \<times> torrent)" where
  "parse_files info t =
     (case ben_find ''length'' info of
        Some found \<Rightarrow>
          if ben_contains ''files'' info then Inr (False, t)
          else
            let t = t\<lparr>is_file := True\<rparr>
            in bind_fault (get_as_integer found) (\<lambda>n.
                 Inr (True, t\<lparr>download_size := n, file_count := 1\<rparr>))
      | None \<Rightarrow>
          (case ben_find ''files'' info of
             Some found \<Rightarrow>
               if ben_contains ''length'' info then Inr (False, t)
               else
                 let t = t\<lparr>is_file := False\<rparr>
                 in bind_fault (get_as_list found) (\<lambda>fs.
                    let t = t\<lparr>file_count := length fs\<rparr>
                    in bind_fault (add_lengths fs (download_size t)) (\<lambda>(ok, n).
                         Inr (ok, t\<lparr>download_size := n\<rparr>)))
           | None \<Rightarrow> Inr (False, t)))"

definition parse_pieces :: "torrent \<Rightarrow> fault + (bool \<times> torrent)" where
  "parse_pieces t =
     bind_fault (pieces t) (\<lambda>p.
       if length p mod 20 \<noteq> 0 then Inr (False, t)
       else
         let t = t\<lparr>piece_count := length p div 20\<rparr>
         in bind_fault (get_piece_length t) (\<lambda>piece_length.
            bind_fault (ceil_div (sz_of_int (download_size t)) (sz_of_int piece_length)) (\<lambda>n.
              if n \<noteq> piece_count t then Inr (False, t) else Inr (True, t))))"

definition parse_transcription :: "torrent \<Rightarrow> fault + (bool \<times> torrent)" where
  "parse_transcription t =
     bind_fault (info_map t) (\<lambda>info.
       if \<not> ben_contains ''name'' info \<and> \<not> ben_contains ''pieces'' info
          \<and> \<not> ben_contains ''piece length'' info
       then Inr (False, t)
       else bind_fault (parse_files info t) (\<lambda>(ok, t).
         if \<not> ok then Inr (False, t) else parse_pieces t))"

text \<open>
  The constructor.  \<open>None\<close>: the file cannot be opened; \<open>Some None\<close>: it cannot be read.
\<close>

definition as_bytes :: "string \<Rightarrow> byte list" where
  "as_bytes s = map (\<lambda>c. word_of_nat (of_char c)) s"

definition torrent_of_source :: "string \<Rightarrow> fault + torrent" where
  "torrent_of_source source_buffer =
     (case decode_input source_buffer of
        None \<Rightarrow> Inl Invalid_Torrent_File
      | Some v \<Rightarrow>
          if type_of_data v \<noteq> Type_dictionary then Inl Invalid_Torrent_File
          else bind_fault (get_as_dictionary v) (\<lambda>transcibe.
            case ben_find ''info'' transcibe of
              None \<Rightarrow> Inl Invalid_Torrent_File
            | Some info_value \<Rightarrow>
                let encode = position_in_source info_value;
                    byte_view = as_bytes (subspan (stat_start encode) (stat_size encode) source_buffer);
                    t = \<lparr>transcibe = transcibe, info_hash_byte = get_sha1 byte_view, is_file = False,
                         download_size = 0, piece_count = 0, file_count = 0\<rparr>
                in bind_fault (parse_transcription t) (\<lambda>(ok, t).
                     if \<not> ok then Inl Invalid_Torrent_File else Inr t)))"

definition torrent_file :: "string option option \<Rightarrow> fault + torrent" where
  "torrent_file opened =
     (case opened of
        None \<Rightarrow> Inl Torrent_File_Not_Found
      | Some None \<Rightarrow> Inl Invalid_Torrent_File
      | Some (Some source_buffer) \<Rightarrow> torrent_of_source source_buffer)"

section \<open>What an accepted torrent satisfies\<close>

text \<open>The length that a file entry declares.\<close>

definition file_length :: "data \<Rightarrow> int" where
  "file_length d = (case d of
     Data (Dictionary m) _ \<Rightarrow> (case ben_find ''length'' m of
       Some (Data (Integer n) _) \<Rightarrow> n | _ \<Rightarrow> 0) | _ \<Rightarrow> 0)"

definition file_entry :: "data \<Rightarrow> bool" where
  "file_entry d \<longleftrightarrow> (\<exists>m pos n pos' p. d = Data (Dictionary m) pos \<and>
     ben_find ''length'' m = Some (Data (Integer n) pos') \<and> ben_find ''path'' m = Some p)"

lemma get_as_Inr:
  "get_as_integer d = Inr n \<longleftrightarrow> (\<exists>pos. d = Data (Integer n) pos)"
  "get_as_string d = Inr s \<longleftrightarrow> (\<exists>pos. d = Data (String s) pos)"
  "get_as_list d = Inr xs \<longleftrightarrow> (\<exists>pos. d = Data (List xs) pos)"
  "get_as_dictionary d = Inr m \<longleftrightarrow> (\<exists>pos. d = Data (Dictionary m) pos)"
  by (cases d rule: get_as_integer.cases; simp; fail | cases d rule: get_as_string.cases; simp; fail |
      cases d rule: get_as_list.cases; simp; fail | cases d rule: get_as_dictionary.cases; simp)+

lemma add_lengths_sum:
  "add_lengths fs n = Inr (True, m) \<Longrightarrow> m = n + sum_list (map file_length fs) \<and> list_all file_entry fs"
proof (induction fs arbitrary: n)
  case (Cons f fs)
  then obtain fm found l where f: "get_as_dictionary f = Inr fm" "ben_find ''length'' fm = Some found"
    "get_as_integer found = Inr l" and rest: "bind_fault (add_size n l) (\<lambda>n.
             if \<not> ben_contains ''path'' fm then Inr (False, n) else add_lengths fs n) = Inr (True, m)"
    by (auto simp: bind_fault_Inr split: option.splits)
  then have n: "add_lengths fs (n + l) = Inr (True, m)" "ben_contains ''path'' fm"
    by (auto simp: bind_fault_Inr add_size_def split: if_splits)
  have "file_length f = l" "file_entry f"
    using f n(2) by (auto simp: get_as_Inr file_length_def file_entry_def ben_contains_def ben_find_def)
  with Cons.IH [OF n(1)] show ?case by simp
qed simp

definition accepted :: "torrent \<Rightarrow> bool" where
  "accepted t \<longleftrightarrow> (\<exists>p piece_length. pieces t = Inr p \<and> length p = 20 * piece_count t
     \<and> get_piece_length t = Inr piece_length
     \<and> ceil_div (sz_of_int (download_size t)) (sz_of_int piece_length) = Inr (piece_count t))
   \<and> (if is_file t then file_count t = 1 \<and> files t = Inr None
      else \<exists>fs. files t = Inr (Some fs) \<and> file_count t = length fs \<and> list_all file_entry fs
        \<and> download_size t = sum_list (map file_length fs))"

lemma selectors_update [simp]:
  "info_map (t\<lparr>piece_count := n\<rparr>) = info_map t" "pieces (t\<lparr>piece_count := n\<rparr>) = pieces t"
  "get_piece_length (t\<lparr>piece_count := n\<rparr>) = get_piece_length t" "files (t\<lparr>piece_count := n\<rparr>) = files t"
  by (simp_all add: info_map_def pieces_def get_piece_length_def files_def)

lemma parse_files_ok:
  assumes "parse_files info t = Inr (True, t')" and "info_map t = Inr info" and "download_size t = 0"
  shows "transcibe t' = transcibe t \<and> info_hash_byte t' = info_hash_byte t \<and>
    (if is_file t' then file_count t' = 1 \<and> files t' = Inr None
     else \<exists>fs. files t' = Inr (Some fs) \<and> file_count t' = length fs \<and> list_all file_entry fs
        \<and> download_size t' = sum_list (map file_length fs))"
proof (cases "ben_find ''length'' info")
  case (Some found)
  then show ?thesis using assms(1)
    by (auto simp: parse_files_def Let_def bind_fault_Inr files_def split: if_splits)
next
  case None
  then obtain found fs n where "ben_find ''files'' info = Some found" "get_as_list found = Inr fs"
    and sum: "add_lengths fs 0 = Inr (True, n)"
    and t': "t' = t\<lparr>is_file := False, file_count := length fs, download_size := n\<rparr>"
    using assms by (auto simp: parse_files_def Let_def bind_fault_Inr split: option.splits if_splits)
  then have "files t' = Inr (Some fs)"
    using assms(2) by (simp add: files_def info_map_def deref_def)
  with add_lengths_sum [OF sum] t' show ?thesis by simp
qed

lemma parse_transcription_ok:
  assumes "parse_transcription t = Inr (True, t')" and "download_size t = 0"
  shows "accepted t' \<and> transcibe t' = transcibe t \<and> info_hash_byte t' = info_hash_byte t"
proof -
  obtain info t1 where info: "info_map t = Inr info" and t1: "parse_files info t = Inr (True, t1)"
    and p: "parse_pieces t1 = Inr (True, t')"
    using assms(1) by (auto simp: parse_transcription_def bind_fault_Inr split: if_splits)
  obtain p piece_length where t': "t' = t1\<lparr>piece_count := length p div 20\<rparr>" "pieces t1 = Inr p"
    "length p mod 20 = 0" "get_piece_length t1 = Inr piece_length"
    "ceil_div (sz_of_int (download_size t1)) (sz_of_int piece_length) = Inr (length p div 20)"
    using p by (auto simp: parse_pieces_def Let_def bind_fault_Inr split: if_splits)
  then show ?thesis using parse_files_ok [OF t1 info assms(2)]
    by (auto simp: accepted_def split: if_splits)
qed

lemma torrent_of_source_ok:
  assumes "torrent_of_source src = Inr t"
  obtains v m pos info where "decode_input src = Some (Data (Dictionary m) pos)"
    "map_of m ''info'' = Some info" "transcibe t = m"
    "info_hash_byte t = get_sha1 (as_bytes (subspan (stat_start (position_in_source info))
       (stat_size (position_in_source info)) src))" "accepted t"
proof -
  obtain v m info t1 where v: "decode_input src = Some v" "get_as_dictionary v = Inr m"
    "ben_find ''info'' m = Some info"
    "parse_transcription t1 = Inr (True, t)"
    "t1 = \<lparr>transcibe = m, info_hash_byte = get_sha1 (as_bytes (subspan (stat_start (position_in_source info))
       (stat_size (position_in_source info)) src)), is_file = False, download_size = 0, piece_count = 0, file_count = 0\<rparr>"
    using assms by (auto simp: torrent_of_source_def Let_def bind_fault_Inr split: option.splits if_splits)
  obtain pos where "v = Data (Dictionary m) pos" using v(2) by (auto simp: get_as_Inr)
  with v parse_transcription_ok [OF v(4)] show ?thesis
    by (intro that [of m pos info]) (auto simp: ben_find_def)
qed

lemma sint_small: "n < 2 ^ 31 \<Longrightarrow> sint (word_of_nat n :: 32 word) = int n"
  by (simp add: signed_of_nat signed_take_bit_int_eq_self)

lemma piece_hash_slice:
  assumes "pieces t = Inr p" and "length p = 20 * piece_count t" and "i < piece_count t" and "20 * i < 2 ^ 31"
  shows "get_piece_hash t i = Inr (subspan (20 * i) 20 p) \<and> length (subspan (20 * i) 20 p) = 20"
proof -
  have i: "sz_mul i 20 = 20 * i" using assms(4) by (simp add: sz_mul_def sz_modulus_def mult.commute)
  have "nat (int (20 * i)) = 20 * i" by (rule nat_int)
  then have "get_piece_hash t i = Inr (subspan (20 * i) 20 p)"
    using assms(1,3) unfolding get_piece_hash_def i sint_small [OF assms(4)] Let_def by simp
  moreover have "length (subspan (20 * i) 20 p) = 20" using assms(2,3) by (intro length_subspan) simp
  ultimately show ?thesis by simp
qed

section \<open>Properties\<close>

text \<open>C26: a torrent that is accepted is consistent: the piece hashes are 20 bytes for each of
  the pieces that the sizes require (the total divided by the piece length, rounded up), the
  total is the declared length or the sum of the lengths of the files, each of which has its
  keys, and every piece has its hash.\<close>

theorem torrent_accepted_consistent:
  assumes "torrent_file (Some (Some src)) = Inr t"
  shows "accepted t \<and> length (info_hash_byte t) = 20 \<and>
    (\<forall>i<piece_count t. 20 * i < 2 ^ 31 \<longrightarrow>
       (\<exists>p h. pieces t = Inr p \<and> get_piece_hash t i = Inr h \<and> h = subspan (20 * i) 20 p \<and> length h = 20))"
proof -
  have src: "torrent_of_source src = Inr t" using assms by (simp add: torrent_file_def)
  have a: "accepted t" by (rule torrent_of_source_ok [OF src])
  have "length (info_hash_byte t) = 20" by (rule torrent_of_source_ok [OF src]) simp
  moreover from a obtain p where "pieces t = Inr p" "length p = 20 * piece_count t"
    by (auto simp: accepted_def)
  ultimately show ?thesis using a piece_hash_slice by blast
qed

definition sample_torrent :: string where
  "sample_torrent = ''d4:infod6:lengthi5e4:name1:a12:piece lengthi5e6:pieces20:AAAAAAAAAAAAAAAAAAAAee''"

lemma sample_torrent_read:
  "\<exists>t. torrent_file (Some (Some sample_torrent)) = Inr t \<and> piece_count t = 1"
proof -
  let ?info = "[(''length'', Data (Integer 5) \<lparr>stat_start = 16, stat_size = 3\<rparr>),
    (''name'', Data (String ''a'') \<lparr>stat_start = 25, stat_size = 3\<rparr>),
    (''piece length'', Data (Integer 5) \<lparr>stat_start = 43, stat_size = 3\<rparr>),
    (''pieces'', Data (String ''AAAAAAAAAAAAAAAAAAAA'') \<lparr>stat_start = 54, stat_size = 23\<rparr>)]"
  have "decode_input sample_torrent = Some (Data (Dictionary
      [(''info'', Data (Dictionary ?info) \<lparr>stat_start = 7, stat_size = 71\<rparr>)])
      \<lparr>stat_start = 0, stat_size = 79\<rparr>)"
    unfolding sample_torrent_def by code_simp
  then show ?thesis
    by (simp add: torrent_file_def torrent_of_source_def ben_find_def Let_def parse_transcription_def
        info_map_def deref_def ben_contains_def parse_files_def parse_pieces_def pieces_def
        get_piece_length_def ceil_div_def sz_of_int_def)
qed

theorem torrent_accepted_consistent_witness:
  "\<exists>t. torrent_file (Some (Some sample_torrent)) = Inr t \<and> accepted t \<and> (\<exists>h. get_piece_hash t 0 = Inr h)"
proof -
  obtain t where t: "torrent_file (Some (Some sample_torrent)) = Inr t" "piece_count t = 1"
    using sample_torrent_read by blast
  from torrent_accepted_consistent [OF t(1)] t show ?thesis by auto
qed

text \<open>C29: the info hash of a torrent is the hash of exactly the bytes of its info value: the
  hashed range lies inside the file and is an encoding of that value.\<close>

theorem info_hash_of_info_text:
  assumes "torrent_file (Some (Some src)) = Inr t"
  shows "\<exists>info start len d. map_of (transcibe t) ''info'' = Some info \<and> start + len \<le> length src
    \<and> info_hash_byte t = get_sha1 (as_bytes (subspan start len src))
    \<and> decode_input (subspan start len src) = Some d \<and> erase d = erase info"
proof -
  have src: "torrent_of_source src = Inr t" using assms by (simp add: torrent_file_def)
  obtain m pos info where t: "decode_input src = Some (Data (Dictionary m) pos)"
    "map_of m ''info'' = Some info" "transcibe t = m"
    "info_hash_byte t = get_sha1 (as_bytes (subspan (stat_start (position_in_source info))
       (stat_size (position_in_source info)) src))"
    by (rule torrent_of_source_ok [OF src])
  have "subvalue info (Data (Dictionary m) pos)"
    using map_of_SomeD [OF t(2)] by (rule sub_entry) (rule sub_refl)
  from value_slice [OF t(1) this] t show ?thesis by blast
qed

theorem info_hash_of_info_text_witness:
  "\<exists>t info start len d. torrent_file (Some (Some sample_torrent)) = Inr t
    \<and> map_of (transcibe t) ''info'' = Some info \<and> start + len \<le> length sample_torrent
    \<and> info_hash_byte t = get_sha1 (as_bytes (subspan start len sample_torrent))
    \<and> decode_input (subspan start len sample_torrent) = Some d \<and> erase d = erase info"
proof -
  obtain t where "torrent_file (Some (Some sample_torrent)) = Inr t" using sample_torrent_read by blast
  with info_hash_of_info_text [OF this] show ?thesis by blast
qed

text \<open>The check for the required keys rejects only a torrent that lacks all three of them:
  with a name or the pieces present, a missing piece length is a dereferenced end iterator, and
  a zero piece length a division by zero, instead of an invalid torrent.\<close>

lemma missing_piece_length_faults:
  assumes "info_map t = Inr info" and "ben_find ''length'' info = Some (Data (Integer n) pos)"
    and "\<not> ben_contains ''files'' info" and "ben_find ''pieces'' info = Some (Data (String p) pos')"
    and "length p mod 20 = 0"
  shows "(ben_find ''piece length'' info = None \<longrightarrow> parse_transcription t = Inl Deref_end_iterator)
    \<and> (ben_find ''piece length'' info = Some (Data (Integer 0) pos'') \<longrightarrow>
         parse_transcription t = Inl Division_by_zero)"
proof -
  have info: "info_map (t\<lparr>is_file := b, download_size := k, file_count := c\<rparr>) = Inr info" for b k c
    using assms(1) by (simp add: info_map_def)
  have "ben_contains ''pieces'' info" using assms(4) by (simp add: ben_contains_def ben_find_def)
  with assms info show ?thesis
    by (auto simp: parse_transcription_def parse_files_def parse_pieces_def pieces_def get_piece_length_def
        deref_def Let_def ceil_div_def sz_of_int_def)
qed

lemma missing_piece_length_faults_witness:
  "parse_transcription \<lparr>transcibe = [(''info'', Data (Dictionary
      [(''length'', data_of_integer 5), (''pieces'', data_of_string [])]) no_position)],
    info_hash_byte = [], is_file = False, download_size = 0, piece_count = 0, file_count = 0\<rparr> =
   Inl Deref_end_iterator"
  by (rule missing_piece_length_faults [THEN conjunct1, rule_format, of _
        "[(''length'', data_of_integer 5), (''pieces'', data_of_string [])]" 5 no_position "[]" no_position])
     (simp_all add: info_map_def deref_def ben_find_def ben_contains_def data_of_integer_def data_of_string_def)

end
