(* ===== verification/FileManager.thy ===== *)
theory FileManager
  imports TorrentFile
begin

text \<open>
  \<^verbatim>\<open>src/Client/FileManager.hpp\<close> and \<^verbatim>\<open>FileManager.cpp\<close>: where the files of a torrent go and which
  parts of which files a piece covers.  Paths are modelled as in \<^verbatim>\<open>std::filesystem\<close> on POSIX, a
  root flag and a list of names; what depends on the disk (\<open>weakly_canonical\<close>, \<open>is_symlink\<close>,
  \<open>create_directories\<close>) is the parameter \<open>file_system\<close>.
\<close>

section \<open>Paths\<close>

record path =
  absolute :: bool
  names :: "string list"

record file_system =
  weakly_canonical :: "path \<Rightarrow> path option"
  is_symlink :: "path \<Rightarrow> bool"
  create_directories :: "path \<Rightarrow> fault + unit"

definition append_name :: "path \<Rightarrow> string \<Rightarrow> path" where
  "append_name p name = p\<lparr>names := names p @ [name]\<rparr>"

fun normal_step :: "bool \<Rightarrow> string list \<Rightarrow> string \<Rightarrow> string list" where
  "normal_step rooted stack name =
     (if name = ''.'' then stack
      else if name = ''..'' then
        (if stack = [] then (if rooted then [] else [''..''])
         else if last stack = ''..'' then stack @ [''..''] else butlast stack)
      else stack @ [name])"

definition lexically_normal :: "path \<Rightarrow> path" where
  "lexically_normal p = p\<lparr>names := foldl (normal_step (absolute p)) [] (names p)\<rparr>"

fun mismatch :: "string list \<Rightarrow> string list \<Rightarrow> string list \<times> string list" where
  "mismatch (a # as) (b # bs) = (if a = b then mismatch as bs else (a # as, b # bs))"
| "mismatch as bs = (as, bs)"

definition depth :: "string list \<Rightarrow> int" where
  "depth bs = int (length (filter (\<lambda>b. b \<noteq> [] \<and> b \<noteq> ''.'' \<and> b \<noteq> ''..'') bs))
     - int (length (filter (\<lambda>b. b = ''..'') bs))"

definition lexically_relative :: "path \<Rightarrow> path \<Rightarrow> string list" where
  "lexically_relative p base =
     (if absolute p \<noteq> absolute base then []
      else case mismatch (names p) (names base) of (as, bs) \<Rightarrow>
        if as = [] \<and> bs = [] then [''.'']
        else let n = depth bs in
          if n < 0 then []
          else if n = 0 \<and> (as = [] \<or> hd as = []) then [''.'']
          else replicate (nat n) ''..'' @ as)"

definition path_string :: "path \<Rightarrow> string" where
  "path_string p = (if absolute p then ''/'' else []) @
     (case names p of [] \<Rightarrow> [] | n # ns \<Rightarrow> n @ concat (map (\<lambda>m. CHR ''/'' # m) ns))"

definition NAME_MAX :: nat where "NAME_MAX = 255"
definition PATH_MAX :: nat where "PATH_MAX = 4096"

section \<open>The file table\<close>

record file_t =
  created :: bool
  descriptor :: int
  f_size :: nat
  f_path :: path

record file_range =
  start_byte :: nat
  end_byte :: nat

record file_piece_t =
  piece_file :: nat
  piece_offset :: nat
  piece_size :: nat

record file_mapper =
  root_directory :: path
  file_table :: "file_t list"

record piece_mapper =
  piece_length :: nat
  file_ranges :: "file_range list"

definition is_valid_name :: "string \<Rightarrow> bool" where
  "is_valid_name name =
     (if name = [] then False
      else if length name > NAME_MAX then False
      else if name = ''.'' \<or> name = ''..'' then False
      else if CHR ''/'' \<in> set name then False
      else if CHR 0x5C \<in> set name then False
      else if CHR 0x00 \<in> set name then False
      else True)"

fun append_valid :: "path \<Rightarrow> string list \<Rightarrow> path option" where
  "append_valid file_path [] = Some file_path"
| "append_valid file_path (name # path) =
     (if \<not> is_valid_name name then None else append_valid (append_name file_path name) path)"

definition if_valid_get_path :: "file_system \<Rightarrow> path \<Rightarrow> string list \<Rightarrow> path option" where
  "if_valid_get_path fs root path =
     (if path = [] then None
      else case append_valid root path of
        None \<Rightarrow> None
      | Some file_path \<Rightarrow>
          (case weakly_canonical fs (lexically_normal file_path) of
             None \<Rightarrow> None
           | Some file_path \<Rightarrow>
               if PATH_MAX \<le> length (path_string file_path) then None
               else
                 let relative_path = lexically_relative file_path root
                 in if relative_path = [] \<or> relative_path = [''.''] \<or> hd relative_path = ''..'' then None
                    else Some file_path))"

definition new_file_mapper :: "file_system \<Rightarrow> path \<Rightarrow> torrent \<Rightarrow> fault + file_mapper" where
  "new_file_mapper fs directory torrent =
     (case weakly_canonical fs directory of
        None \<Rightarrow> Inl (Runtime_error ''Cannot resolve download directory'')
      | Some root \<Rightarrow>
          bind_fault (get_torrent_name torrent) (\<lambda>torrent_directory.
          bind_fault
            (if \<not> is_file torrent then
               if \<not> is_valid_name torrent_directory then Inl (Runtime_error ''Invalid Torrent Name'')
               else
                 let root = append_name root torrent_directory
                 in if is_symlink fs root then Inl (Runtime_error ''Torrent directory is a symlink'')
                    else Inr root
             else Inr root)
          (\<lambda>root. bind_fault (create_directories fs root) (\<lambda>_.
             Inr \<lparr>root_directory = root, file_table = []\<rparr>))))"

definition index_file :: "file_system \<Rightarrow> string list \<Rightarrow> nat \<Rightarrow> file_mapper \<Rightarrow> fault + file_mapper" where
  "index_file fs path_names n m =
     (case if_valid_get_path fs (root_directory m) path_names of
        None \<Rightarrow> Inl (Runtime_error ''Invalid file path from torrent'')
      | Some p \<Rightarrow> Inr (m\<lparr>file_table := file_table m @
          [\<lparr>created = False, descriptor = - 1, f_size = n, f_path = p\<rparr>]\<rparr>))"

definition get_file_at :: "file_mapper \<Rightarrow> nat \<Rightarrow> fault + file_t" where
  "get_file_at m file_idx =
     (if \<not> file_idx < length (file_table m) then Inl Assertion_failed else Inr (file_table m ! file_idx))"

definition parent_path :: "path \<Rightarrow> path" where
  "parent_path p = p\<lparr>names := butlast (names p)\<rparr>"

definition preallocate :: "file_system \<Rightarrow> file_t \<Rightarrow> fault + bool" where
  "preallocate fs f = bind_fault (create_directories fs (parent_path (f_path f))) (\<lambda>_. Inr True)"

section \<open>From files to byte ranges\<close>

fun decoded_path_list :: "data list \<Rightarrow> fault + string list" where
  "decoded_path_list [] = Inr []"
| "decoded_path_list (path # path_list) =
     (if type_of_data path \<noteq> Type_string then Inl (Runtime_error '' torrent path list names not string '')
      else bind_fault (get_as_string path) (\<lambda>p.
           bind_fault (decoded_path_list path_list) (\<lambda>ps. Inr (p # ps))))"

fun map_files :: "file_system \<Rightarrow> data list \<Rightarrow> nat \<Rightarrow> nat \<Rightarrow> file_range list \<Rightarrow> file_mapper \<Rightarrow>
    fault + (file_range list \<times> file_mapper)" where
  "map_files fs [] file_index start ranges m = Inr (ranges, m)"
| "map_files fs (file # fl) file_index start ranges m =
     bind_fault (get_as_dictionary file) (\<lambda>file_map.
     bind_fault (deref (ben_find ''length'' file_map)) (\<lambda>d.
     bind_fault (get_as_integer d) (\<lambda>n.
       let file_size = sz_of_int n;
           ranges = ranges[file_index := \<lparr>start_byte = start, end_byte = sz_add file_size start\<rparr>]
       in bind_fault (deref (ben_find ''path'' file_map)) (\<lambda>d.
          bind_fault (get_as_list d) (\<lambda>path_list.
          bind_fault (decoded_path_list path_list) (\<lambda>names.
          bind_fault (index_file fs names file_size m) (\<lambda>m.
            map_files fs fl (file_index + 1) (sz_add start file_size) ranges m)))))))"

definition new_piece_mapper :: "file_system \<Rightarrow> torrent \<Rightarrow> file_mapper \<Rightarrow> fault + (piece_mapper \<times> file_mapper)" where
  "new_piece_mapper fs torrent file_mapper =
     bind_fault (get_piece_length torrent) (\<lambda>pl.
       let ranges = replicate (file_count torrent) \<lparr>start_byte = 0, end_byte = 0\<rparr>
       in if is_file torrent then
            let ranges = ranges[0 := \<lparr>start_byte = 0, end_byte = sz_of_int (download_size torrent)\<rparr>]
            in bind_fault (get_torrent_name torrent) (\<lambda>name.
               bind_fault (index_file fs [name] (sz_of_int (download_size torrent)) file_mapper) (\<lambda>m.
                 Inr (\<lparr>piece_length = sz_of_int pl, file_ranges = ranges\<rparr>, m)))
          else
            bind_fault (files torrent) (\<lambda>fo.
            bind_fault (case fo of None \<Rightarrow> Inl Bad_optional_access | Some fl \<Rightarrow> Inr fl) (\<lambda>fl.
            bind_fault (map_files fs fl 0 0 ranges file_mapper) (\<lambda>(ranges, m).
              Inr (\<lparr>piece_length = sz_of_int pl, file_ranges = ranges\<rparr>, m)))))"

record file_manager =
  file_map :: file_mapper
  piece_map :: piece_mapper

definition new_file_manager :: "file_system \<Rightarrow> path \<Rightarrow> torrent \<Rightarrow> fault + file_manager" where
  "new_file_manager fs path torrent =
     bind_fault (new_file_mapper fs path torrent) (\<lambda>m.
     bind_fault (new_piece_mapper fs torrent m) (\<lambda>(p, m).
       Inr \<lparr>file_map = m, piece_map = p\<rparr>))"

section \<open>The parts of a piece\<close>

text \<open>\<open>std::lower_bound\<close>: the search by halving that the library performs.\<close>

function lower_bound_loop :: "('a \<Rightarrow> bool) \<Rightarrow> 'a list \<Rightarrow> nat \<Rightarrow> nat \<Rightarrow> nat" where
  "lower_bound_loop below xs first len =
     (if 0 < len then
        let half = len div 2;
            middle = first + half
        in if below (xs ! middle) then lower_bound_loop below xs (middle + 1) (len - half - 1)
           else lower_bound_loop below xs first half
      else first)"
  by pat_completeness auto
termination by (relation "measure (\<lambda>(below, xs, first, len). len)") auto

declare lower_bound_loop.simps [simp del]

definition lower_bound :: "('a \<Rightarrow> bool) \<Rightarrow> 'a list \<Rightarrow> nat" where
  "lower_bound below xs = lower_bound_loop below xs 0 (length xs)"

function files_loop :: "file_range list \<Rightarrow> nat \<Rightarrow> nat \<Rightarrow> nat \<Rightarrow> file_piece_t list" where
  "files_loop ranges mark file_idx piece_remaining =
     (if file_idx < length ranges \<and> piece_remaining \<noteq> 0 then
        let r = ranges ! file_idx;
            available_in_file = sz_sub (end_byte r) (start_byte r)
        in if available_in_file = 0 \<or> mark = end_byte r
           then files_loop ranges mark (file_idx + 1) piece_remaining
           else
             let (file_start, available_in_file) =
                   (if start_byte r < mark then (mark - start_byte r, sz_sub (end_byte r) mark)
                    else (0, available_in_file));
                 writable = min available_in_file piece_remaining
             in \<lparr>piece_file = file_idx, piece_offset = file_start, piece_size = writable\<rparr>
                # files_loop ranges mark (file_idx + 1) (piece_remaining - writable)
      else [])"
  by pat_completeness auto
termination by (relation "measure (\<lambda>(ranges, mark, file_idx, r). length ranges - file_idx)") auto

declare files_loop.simps [simp del]

definition files_for :: "piece_mapper \<Rightarrow> nat \<Rightarrow> file_piece_t list" where
  "files_for p piece_index =
     (let piece_byte_mark = sz_mul piece_index (piece_length p);
          file_idx = lower_bound (\<lambda>a. end_byte a < piece_byte_mark) (file_ranges p)
      in files_loop (file_ranges p) piece_byte_mark file_idx (piece_length p))"

section \<open>Names and paths\<close>

definition normal :: "path \<Rightarrow> bool" where
  "normal p \<longleftrightarrow> (\<forall>n \<in> set (names p). n \<noteq> [] \<and> n \<noteq> ''.'' \<and> n \<noteq> ''..'')"

definition strictly_below :: "path \<Rightarrow> path \<Rightarrow> bool" where
  "strictly_below root p \<longleftrightarrow> absolute p = absolute root \<and>
     (\<exists>rest. names p = names root @ rest \<and> rest \<noteq> [])"

lemma mismatch_split:
  "mismatch as bs = (as', bs') \<Longrightarrow> \<exists>c. as = c @ as' \<and> bs = c @ bs'"
proof (induction as bs rule: mismatch.induct)
  case (1 a as b bs)
  then show ?case by (cases "a = b") (auto intro: exI [of _ "a # c" for c])
qed auto

lemma depth_normal: "(\<forall>n \<in> set bs. n \<noteq> [] \<and> n \<noteq> ''.'' \<and> n \<noteq> ''..'') \<Longrightarrow> depth bs = int (length bs)"
  by (induction bs) (auto simp: depth_def)

text \<open>The relative path of a normal path starts with \<open>..\<close> exactly when it leaves the base.\<close>

lemma relative_below:
  assumes "normal root" and "lexically_relative p root = r" and "r \<noteq> []" and "r \<noteq> [''.'']" and "hd r \<noteq> ''..''"
  shows "strictly_below root p"
proof -
  obtain as bs where mm: "mismatch (names p) (names root) = (as, bs)" by fastforce
  obtain c where c: "names p = c @ as" "names root = c @ bs" using mismatch_split [OF mm] by blast
  have "depth bs = int (length bs)" using assms(1) c(2) by (intro depth_normal) (auto simp: normal_def)
  then have d: "depth bs = int (length bs)" .
  have abs: "absolute p = absolute root"
  proof (rule ccontr)
    assume "absolute p \<noteq> absolute root"
    then have "lexically_relative p root = []" by (simp add: lexically_relative_def)
    with assms(2,3) show False by simp
  qed
  have ne: "as \<noteq> [] \<or> bs \<noteq> []" using assms(2,4) abs mm by (auto simp: lexically_relative_def)
  have "bs = []"
  proof (rule ccontr)
    assume "bs \<noteq> []"
    then have "r = replicate (length bs) ''..'' @ as"
      using assms(2) abs mm d by (simp add: lexically_relative_def Let_def)
    with \<open>bs \<noteq> []\<close> assms(5) show False by (cases bs) auto
  qed
  with ne c abs show ?thesis by (auto simp: strictly_below_def)
qed

lemma valid_path_below:
  assumes "normal root" and "if_valid_get_path fs root path = Some p"
  shows "strictly_below root p \<and> length (path_string p) < PATH_MAX"
  using assms relative_below [OF assms(1) refl, of p]
  by (auto simp: if_valid_get_path_def Let_def split: if_splits option.splits)

text \<open>The directory that is created for a file of the table is the root or below it.\<close>

lemma parent_in_root: "strictly_below root p \<Longrightarrow> parent_path p = root\<lparr>names := names root @ butlast (drop (length (names root)) (names p))\<rparr>"
  by (cases p; cases root) (auto simp: strictly_below_def parent_path_def butlast_append)

lemma append_valid_names:
  "append_valid p path = Some q \<longleftrightarrow> list_all is_valid_name path \<and> q = p\<lparr>names := names p @ path\<rparr>"
  by (induction path arbitrary: p) (auto simp: append_name_def)

lemma index_file_below:
  assumes "index_file fs path_names n m = Inr m'" and "normal (root_directory m)"
    and "list_all (\<lambda>f. strictly_below (root_directory m) (f_path f)) (file_table m)"
  shows "root_directory m' = root_directory m \<and>
    list_all (\<lambda>f. strictly_below (root_directory m) (f_path f)) (file_table m') \<and>
    map f_size (file_table m') = map f_size (file_table m) @ [n]"
  using assms valid_path_below [OF assms(2)]
  by (auto simp: index_file_def split: option.splits)

section \<open>The table that construction leaves\<close>

definition table_below :: "file_mapper \<Rightarrow> bool" where
  "table_below m \<longleftrightarrow> normal (root_directory m) \<and>
     list_all (\<lambda>f. strictly_below (root_directory m) (f_path f)) (file_table m)"

lemma index_file_table:
  assumes "index_file fs path_names n m = Inr m'" and "table_below m"
  shows "table_below m' \<and> root_directory m' = root_directory m \<and>
    map f_size (file_table m') = map f_size (file_table m) @ [n]"
  using index_file_below [OF assms(1)] assms(2) by (simp add: table_below_def)

lemma map_files_table:
  "map_files fs fl k start ranges m = Inr (ranges', m') \<Longrightarrow> table_below m \<Longrightarrow>
     table_below m' \<and> root_directory m' = root_directory m \<and>
     map f_size (file_table m') = map f_size (file_table m) @ map (\<lambda>f. sz_of_int (file_length f)) fl"
proof (induction fl arbitrary: k start ranges m)
  case (Cons f fl)
  then obtain fm d n names m1 ranges1 start1 where f: "get_as_dictionary f = Inr fm"
    "deref (ben_find ''length'' fm) = Inr d" "get_as_integer d = Inr n"
    and idx: "index_file fs names (sz_of_int n) m = Inr m1"
    and rest: "map_files fs fl (k + 1) start1 ranges1 m1 = Inr (ranges', m')"
    by (auto simp: bind_fault_Inr Let_def)
  have "file_length f = n"
    using f by (auto simp: get_as_Inr file_length_def deref_def split: option.splits)
  with Cons.IH [OF rest] index_file_table [OF idx Cons.prems(2)] show ?case by simp
qed simp

lemma normal_append: "normal p \<Longrightarrow> is_valid_name name \<Longrightarrow> normal (append_name p name)"
  by (auto simp: normal_def append_name_def is_valid_name_def split: if_splits)

lemma new_file_mapper_table:
  assumes "new_file_mapper fs directory t = Inr m"
    and normal: "\<forall>p q. weakly_canonical fs p = Some q \<longrightarrow> normal q"
  shows "table_below m \<and> file_table m = [] \<and> (\<exists>root name. weakly_canonical fs directory = Some root \<and>
    get_torrent_name t = Inr name \<and> root_directory m = (if is_file t then root else append_name root name))"
proof -
  obtain root where root: "weakly_canonical fs directory = Some root"
    using assms(1) by (auto simp: new_file_mapper_def split: option.splits)
  have "normal root" using normal root by blast
  moreover obtain name where "get_torrent_name t = Inr name" and
    m: "m = \<lparr>root_directory = (if is_file t then root else append_name root name), file_table = []\<rparr>"
      "\<not> is_file t \<longrightarrow> is_valid_name name"
    using assms(1) root unfolding new_file_mapper_def bind_fault_Inr
    by (cases "is_file t") (auto simp: bind_fault_Inr Let_def split: if_splits)
  moreover have "table_below m" using \<open>normal root\<close> m by (auto simp: table_below_def normal_append)
  ultimately show ?thesis using root by auto
qed

text \<open>The sizes of the files, as the piece mapper reads them.\<close>

definition file_sizes :: "torrent \<Rightarrow> nat list" where
  "file_sizes t =
     (if is_file t then [sz_of_int (download_size t)]
      else case files t of Inr (Some fl) \<Rightarrow> map (\<lambda>f. sz_of_int (file_length f)) fl | _ \<Rightarrow> [])"

lemma new_piece_mapper_table:
  assumes "new_piece_mapper fs t m = Inr (p, m')" and "table_below m"
  shows "table_below m' \<and> root_directory m' = root_directory m \<and>
    map f_size (file_table m') = map f_size (file_table m) @ file_sizes t"
proof (cases "is_file t")
  case True
  then obtain path_names where "index_file fs path_names (sz_of_int (download_size t)) m = Inr m'"
    using assms(1) by (auto simp: new_piece_mapper_def bind_fault_Inr Let_def)
  with assms(2) True index_file_table show ?thesis by (simp add: file_sizes_def)
next
  case False
  then obtain fl ranges ranges' where "files t = Inr (Some fl)" "map_files fs fl 0 0 ranges m = Inr (ranges', m')"
    using assms(1) by (auto simp: new_piece_mapper_def bind_fault_Inr Let_def split: option.splits)
  with assms(2) False map_files_table show ?thesis by (simp add: file_sizes_def)
qed

section \<open>Contiguous ranges\<close>

fun ranges_from :: "nat \<Rightarrow> nat list \<Rightarrow> file_range list" where
  "ranges_from s [] = []"
| "ranges_from s (n # ns) = \<lparr>start_byte = s, end_byte = s + n\<rparr> # ranges_from (s + n) ns"

lemma length_ranges_from [simp]: "length (ranges_from s ns) = length ns"
  by (induction ns arbitrary: s) auto

lemma nth_ranges_from:
  "k < length ns \<Longrightarrow> ranges_from s ns ! k =
     \<lparr>start_byte = s + sum_list (take k ns), end_byte = s + sum_list (take (Suc k) ns)\<rparr>"
  by (induction ns arbitrary: s k) (auto simp: nth_Cons split: nat.split)

lemma sum_take_mono: "j \<le> k \<Longrightarrow> sum_list (take j ns) \<le> sum_list (take k (ns :: nat list))"
proof -
  assume "j \<le> k"
  then have "take k ns = take j ns @ drop j (take k ns)"
    by (metis append_take_drop_id min.absorb1 take_take)
  then have "sum_list (take k ns) = sum_list (take j ns) + sum_list (drop j (take k ns))"
    by (metis sum_list_append)
  then show ?thesis by linarith
qed

lemma sum_take_le: "sum_list (take k ns) \<le> sum_list (ns :: nat list)"
proof -
  have "sum_list ns = sum_list (take k ns) + sum_list (drop k ns)"
    by (metis append_take_drop_id sum_list_append)
  then show ?thesis by linarith
qed

lemma lower_bound_loop_spec:
  assumes sorted: "\<And>i j. i \<le> j \<Longrightarrow> j < length xs \<Longrightarrow> below (xs ! j) \<Longrightarrow> below (xs ! i)"
  shows "first + len \<le> length xs \<Longrightarrow> (\<And>i. i < first \<Longrightarrow> below (xs ! i)) \<Longrightarrow>
    (\<And>i. first + len \<le> i \<Longrightarrow> i < length xs \<Longrightarrow> \<not> below (xs ! i)) \<Longrightarrow>
    lower_bound_loop below xs first len \<le> length xs \<and>
    (\<forall>i<lower_bound_loop below xs first len. below (xs ! i)) \<and>
    (\<forall>i. lower_bound_loop below xs first len \<le> i \<longrightarrow> i < length xs \<longrightarrow> \<not> below (xs ! i))"
proof (induction len arbitrary: first rule: less_induct)
  case (less len)
  show ?case
  proof (cases "0 < len")
    case False
    with less.prems show ?thesis by (simp add: lower_bound_loop.simps [of below xs first])
  next
    case True
    let ?half = "len div 2" and ?middle = "first + len div 2"
    have mid: "?middle < length xs" "?half < len" using True less.prems(1) by simp_all
    show ?thesis
    proof (cases "below (xs ! ?middle)")
      case below: True
      have eq: "lower_bound_loop below xs first len = lower_bound_loop below xs (?middle + 1) (len - ?half - 1)"
        using True below by (simp add: lower_bound_loop.simps [of below xs first] Let_def)
      have sum: "?middle + 1 + (len - ?half - 1) = first + len" using mid(2) by linarith
      show ?thesis unfolding eq
      proof (rule less.IH)
        show "len - ?half - 1 < len" using True by linarith
        show "?middle + 1 + (len - ?half - 1) \<le> length xs" using sum less.prems(1) by linarith
        show "below (xs ! i)" if "i < ?middle + 1" for i
          using that by (intro sorted [OF _ mid(1) below]) simp
        show "\<not> below (xs ! i)" if "?middle + 1 + (len - ?half - 1) \<le> i" "i < length xs" for i
          using less.prems(3) that sum by metis
      qed
    next
      case above: False
      have eq: "lower_bound_loop below xs first len = lower_bound_loop below xs first ?half"
        using True above by (simp add: lower_bound_loop.simps [of below xs first] Let_def)
      show ?thesis unfolding eq
      proof (rule less.IH [OF mid(2)])
        show "first + ?half \<le> length xs" using mid(1) by linarith
        show "below (xs ! i)" if "i < first" for i using less.prems(2) that by blast
        show "\<not> below (xs ! i)" if "?middle \<le> i" "i < length xs" for i
          using sorted [OF that] above by blast
      qed
    qed
  qed
qed

lemma lower_bound_spec:
  assumes "\<And>i j. i \<le> j \<Longrightarrow> j < length xs \<Longrightarrow> below (xs ! j) \<Longrightarrow> below (xs ! i)"
  shows "lower_bound below xs \<le> length xs \<and> (\<forall>i<lower_bound below xs. below (xs ! i)) \<and>
    (\<forall>i. lower_bound below xs \<le> i \<longrightarrow> i < length xs \<longrightarrow> \<not> below (xs ! i))"
  using lower_bound_loop_spec [of xs below 0 "length xs"] assms by (simp add: lower_bound_def)

text \<open>The bytes of the download that a part of a file stands for.\<close>

definition part_bytes :: "file_range list \<Rightarrow> file_piece_t \<Rightarrow> nat list" where
  "part_bytes ranges f =
     [start_byte (ranges ! piece_file f) + piece_offset f
        ..< start_byte (ranges ! piece_file f) + piece_offset f + piece_size f]"

definition part_inside :: "file_range list \<Rightarrow> file_piece_t \<Rightarrow> bool" where
  "part_inside ranges f \<longleftrightarrow> piece_file f < length ranges \<and> 0 < piece_size f \<and>
     start_byte (ranges ! piece_file f) + piece_offset f + piece_size f \<le> end_byte (ranges ! piece_file f)"

lemma upt_append: "i \<le> j \<Longrightarrow> j \<le> k \<Longrightarrow> [i..<j] @ [j..<k] = [i..<(k :: nat)]"
  by (metis le_add_diff_inverse upt_add_eq_append)

lemma files_loop_bytes:
  fixes sizes :: "nat list"
  defines "R \<equiv> ranges_from 0 sizes" and "at \<equiv> \<lambda>k. sum_list (take k sizes)"
  assumes total: "sum_list sizes < sz_modulus"
  shows "k \<le> length sizes \<Longrightarrow> (k < length sizes \<longrightarrow> mark \<le> at (Suc k)) \<Longrightarrow>
    concat (map (part_bytes R) (files_loop R mark k r)) =
      (if k = length sizes then [] else [max mark (at k) ..< min (sum_list sizes) (max mark (at k) + r)])
    \<and> list_all (part_inside R) (files_loop R mark k r)"
proof (induction "length sizes - k" arbitrary: k r)
  case 0
  have "length R = length sizes" by (simp add: R_def)
  with 0 show ?case by (simp add: files_loop.simps [of R mark k])
next
  case (Suc d)
  then have k: "k < length sizes" by simp
  have Rk: "R ! k = \<lparr>start_byte = at k, end_byte = at (Suc k)\<rparr>" using k by (simp add: R_def at_def nth_ranges_from)
  have len: "length R = length sizes" by (simp add: R_def)
  have mono: "at k \<le> at (Suc k)" "at (Suc k) \<le> sum_list sizes" "at (Suc k) < sz_modulus"
    using sum_take_mono [of k "Suc k" sizes] sum_take_le [of "Suc k" sizes] total by (simp_all add: at_def)
  have mark: "mark \<le> at (Suc k)" using Suc.prems k by simp
  have sub: "sz_sub (at (Suc k)) x = at (Suc k) - x" if "x \<le> at (Suc k)" for x
    using that mono(3) by (rule sz_sub_id)
  have all: "at (length sizes) = sum_list sizes" by (simp add: at_def)
  have IH: "concat (map (part_bytes R) (files_loop R mark (Suc k) r')) =
      [at (Suc k) ..< min (sum_list sizes) (at (Suc k) + r')]
    \<and> list_all (part_inside R) (files_loop R mark (Suc k) r')" for r'
  proof -
    have "at (Suc k) \<le> at (Suc (Suc k))" using sum_take_mono [of "Suc k" "Suc (Suc k)" sizes] by (simp add: at_def)
    then have "Suc k < length sizes \<longrightarrow> mark \<le> at (Suc (Suc k))" using mark by simp
    moreover have "d = length sizes - Suc k" "Suc k \<le> length sizes" using Suc.hyps(2) k by simp_all
    moreover have "max mark (at (Suc k)) = at (Suc k)" using mark by simp
    moreover have "Suc k = length sizes \<longrightarrow> at (Suc k) = sum_list sizes" using all by metis
    ultimately show ?thesis using Suc.hyps(1) [of "Suc k" r'] by auto
  qed
  consider (finished) "r = 0" | (skip) "r \<noteq> 0" "at (Suc k) = at k \<or> mark = at (Suc k)"
    | (part) "r \<noteq> 0" "at k < at (Suc k)" "mark < at (Suc k)"
    using mono(1) mark by linarith
  then show ?case
  proof cases
    case finished
    then show ?thesis using k by (simp add: files_loop.simps [of R mark k])
  next
    case skip
    then have "files_loop R mark k r = files_loop R mark (Suc k) r"
      using k len Rk mono(1) sub by (auto simp: files_loop.simps [of R mark k] Let_def)
    moreover have "max mark (at k) = at (Suc k)" using skip mark mono(1) by auto
    ultimately show ?thesis using IH [of r] k by simp
  next
    case part
    let ?p = "max mark (at k)" and ?w = "min (at (Suc k) - max mark (at k)) r"
    let ?f = "\<lparr>piece_file = k, piece_offset = ?p - at k, piece_size = ?w\<rparr>"
    have p: "at k \<le> ?p" "?p < at (Suc k)" using part by auto
    have step: "files_loop R mark k r = ?f # files_loop R mark (Suc k) (r - ?w)"
      using part k len Rk mono(1) sub by (auto simp: files_loop.simps [of R mark k] Let_def max_def)
    have bytes: "part_bytes R ?f = [?p ..< ?p + ?w]" using p by (simp add: part_bytes_def Rk)
    have "?w \<le> at (Suc k) - ?p" by simp
    then have "?p + ?w \<le> at (Suc k)" "0 < ?w" using p part(1) by linarith+
    then have inside: "part_inside R ?f" using p k len by (simp add: part_inside_def Rk)
    have "[?p ..< ?p + ?w] @ [at (Suc k) ..< min (sum_list sizes) (at (Suc k) + (r - ?w))] =
        [?p ..< min (sum_list sizes) (?p + r)]"
    proof (cases "at (Suc k) - ?p \<le> r")
      case True
      then have "?p + ?w = at (Suc k)" "at (Suc k) + (r - ?w) = ?p + r" using p by auto
      then show ?thesis using p mono(2) upt_append [of ?p "at (Suc k)"] by (simp add: add.commute)
    next
      case False
      then have "?w = r" "?p + r \<le> at (Suc k)" by auto
      then show ?thesis using mono(2) by simp
    qed
    then show ?thesis unfolding step using IH [of "r - ?w"] bytes inside k by simp
  qed
qed

text \<open>The piece mapper of the ranges, and the parts of one of its pieces.\<close>

lemma files_for_bytes:
  assumes total: "sum_list sizes < sz_modulus" and mark: "i * pl < sz_modulus"
    and p: "p = \<lparr>piece_length = pl, file_ranges = ranges_from 0 sizes\<rparr>"
  shows "concat (map (part_bytes (file_ranges p)) (files_for p i)) = [i * pl ..< min (sum_list sizes) (i * pl + pl)]
    \<and> list_all (part_inside (file_ranges p)) (files_for p i)"
proof -
  let ?R = "ranges_from 0 sizes" and ?m = "i * pl" and ?at = "\<lambda>k. sum_list (take k sizes)"
  let ?below = "\<lambda>a. end_byte a < ?m"
  define k where "k = lower_bound ?below ?R"
  have "?below (?R ! a)" if "a \<le> b" "b < length ?R" "?below (?R ! b)" for a b
    using that sum_take_mono [of "Suc a" "Suc b" sizes] by (simp add: nth_ranges_from)
  from lower_bound_spec [of ?R ?below, OF this] have k: "k \<le> length sizes" "\<forall>j<k. end_byte (?R ! j) < ?m"
    "\<forall>j. k \<le> j \<longrightarrow> j < length sizes \<longrightarrow> \<not> end_byte (?R ! j) < ?m"
    by (simp_all add: k_def)
  have ff: "files_for p i = files_loop ?R ?m k pl"
    using mark by (simp add: files_for_def p sz_mul_id k_def Let_def)
  have "k < length sizes \<longrightarrow> ?m \<le> ?at (Suc k)" using k(3) by (auto simp: nth_ranges_from not_less)
  from files_loop_bytes [OF total k(1) this, of pl] have loop:
    "concat (map (part_bytes ?R) (files_for p i)) =
      (if k = length sizes then [] else [max ?m (?at k) ..< min (sum_list sizes) (max ?m (?at k) + pl)])"
    "list_all (part_inside ?R) (files_for p i)"
    unfolding ff by simp_all
  have "?at k \<le> ?m"
  proof (cases k)
    case (Suc j)
    then show ?thesis using k(1,2) by (simp add: nth_ranges_from less_Suc_eq_le order_less_imp_le)
  qed simp
  moreover have "k = length sizes \<Longrightarrow> [?m ..< min (sum_list sizes) (?m + pl)] = []"
    using \<open>?at k \<le> ?m\<close> by simp
  ultimately show ?thesis using loop by (auto simp: p max_def)
qed

section \<open>The ranges that construction leaves\<close>

lemma take_update_Suc: "k < length xs \<Longrightarrow> take (Suc k) (xs[k := x]) = take k xs @ [x]"
  by (simp add: take_Suc_conv_app_nth)

lemma map_files_ranges:
  "map_files fs fl k start ranges m = Inr (ranges', m') \<Longrightarrow> k + length fl = length ranges \<Longrightarrow>
     start + sum_list (map (\<lambda>f. sz_of_int (file_length f)) fl) < sz_modulus \<Longrightarrow>
     ranges' = take k ranges @ ranges_from start (map (\<lambda>f. sz_of_int (file_length f)) fl)"
proof (induction fl arbitrary: k start ranges m)
  case (Cons f fl)
  let ?n = "sz_of_int (file_length f)"
  have add: "sz_add ?n start = start + ?n" "sz_add start ?n = start + ?n"
    using Cons.prems(3) by (simp_all add: sz_add_id add.commute)
  obtain fm d n m1 where f: "get_as_dictionary f = Inr fm" "deref (ben_find ''length'' fm) = Inr d"
    "get_as_integer d = Inr n"
    and rest: "map_files fs fl (k + 1) (sz_add start (sz_of_int n))
      (ranges[k := \<lparr>start_byte = start, end_byte = sz_add (sz_of_int n) start\<rparr>]) m1 = Inr (ranges', m')"
    using Cons.prems(1) by (auto simp: bind_fault_Inr Let_def)
  have "file_length f = n"
    using f by (auto simp: get_as_Inr file_length_def deref_def split: option.splits)
  then have n: "sz_add start (sz_of_int n) = start + ?n" "sz_add (sz_of_int n) start = start + ?n"
    using add by simp_all
  have "ranges' = take (k + 1) (ranges[k := \<lparr>start_byte = start, end_byte = start + ?n\<rparr>]) @
      ranges_from (start + ?n) (map (\<lambda>f. sz_of_int (file_length f)) fl)"
    using Cons.IH [OF rest [unfolded n]] Cons.prems by (simp add: add.assoc)
  moreover have "k < length ranges" using Cons.prems(2) by simp
  ultimately show ?case by (simp add: take_update_Suc)
qed simp

lemma new_piece_mapper_ranges:
  assumes np: "new_piece_mapper fs t m = Inr (p, m')" and acc: "accepted t"
    and total: "sum_list (file_sizes t) < sz_modulus"
  shows "\<exists>pl. get_piece_length t = Inr pl \<and> p = \<lparr>piece_length = sz_of_int pl, file_ranges = ranges_from 0 (file_sizes t)\<rparr>"
proof -
  obtain pl where pl: "get_piece_length t = Inr pl" using acc by (auto simp: accepted_def)
  show ?thesis
  proof (cases "is_file t")
    case True
    then have "file_count t = 1" using acc by (simp add: accepted_def)
    then show ?thesis using np pl True
      by (auto simp: new_piece_mapper_def bind_fault_Inr Let_def file_sizes_def)
  next
    case False
    then obtain fl where fl: "files t = Inr (Some fl)" "file_count t = length fl"
      using acc by (auto simp: accepted_def)
    then obtain ranges' where ranges: "map_files fs fl 0 0
        (replicate (length fl) \<lparr>start_byte = 0, end_byte = 0\<rparr>) m = Inr (ranges', m')"
      and p: "p = \<lparr>piece_length = sz_of_int pl, file_ranges = ranges'\<rparr>"
      using np pl False by (auto simp: new_piece_mapper_def bind_fault_Inr Let_def)
    have "file_sizes t = map (\<lambda>f. sz_of_int (file_length f)) fl" using False fl by (simp add: file_sizes_def)
    with map_files_ranges [OF ranges] total pl p show ?thesis by simp
  qed
qed

text \<open>Consecutive pieces together.\<close>

lemma pieces_concat:
  "concat (map (\<lambda>i. [i * pl ..< min T (i * pl + pl)]) [0..<n]) = [0 ..< min T (n * pl)]"
proof (induction n)
  case (Suc n)
  have "[0 ..< min T (n * pl)] @ [n * pl ..< min T (n * pl + pl)] = [0 ..< min T (n * pl + pl)]"
    by (cases "T \<le> n * pl") (simp_all add: min_def upt_append)
  with Suc show ?case by (simp add: add.commute)
qed simp

lemma ceil_div_covers:
  assumes "ceil_div T pl = Inr n"
  shows "T \<le> n * pl \<and> (i < n \<longrightarrow> i * pl \<le> T)"
proof -
  have pl: "0 < pl" and n: "n = T div pl + (if T mod pl \<noteq> 0 then 1 else 0)"
    using assms by (auto simp: ceil_div_def split: if_splits)
  have T: "T = T div pl * pl + T mod pl" by simp
  have "T mod pl < pl" using pl by simp
  have "T \<le> n * pl"
  proof (cases "T mod pl = 0")
    case True
    then show ?thesis using T unfolding n by simp
  next
    case False
    then have "n * pl = pl + T div pl * pl" unfolding n by simp
    then show ?thesis using T \<open>T mod pl < pl\<close> by linarith
  qed
  moreover have "i * pl \<le> T" if "i < n"
  proof -
    have "i \<le> T div pl" using that n by (simp split: if_splits)
    then have "i * pl \<le> T div pl * pl" by (rule mult_le_mono1)
    with T show ?thesis by linarith
  qed
  ultimately show ?thesis by blast
qed

text \<open>What acceptance says of the sizes, and of the piece mapper.\<close>

lemma accepted_torrent_file: "torrent_file (Some (Some src)) = Inr t \<Longrightarrow> accepted t"
  by (auto simp: torrent_file_def dest: torrent_of_source_ok)

lemma sz_of_int_sum:
  "sum_list (map (\<lambda>f. sz_of_int (g f)) fs) < sz_modulus \<Longrightarrow>
     sz_of_int (sum_list (map g fs)) = sum_list (map (\<lambda>f. sz_of_int (g f)) fs)"
proof -
  assume small: "sum_list (map (\<lambda>f. sz_of_int (g f)) fs) < sz_modulus"
  have "int (sum_list (map (\<lambda>f. sz_of_int (g f)) fs)) mod 2 ^ 64 = sum_list (map g fs) mod 2 ^ 64"
  proof (induction fs)
    case (Cons f fs)
    have "(int (sz_of_int (g f)) + int (sum_list (map (\<lambda>f. sz_of_int (g f)) fs))) mod 2 ^ 64 =
        (g f + sum_list (map g fs)) mod 2 ^ 64"
      by (rule mod_add_cong) (simp add: sz_of_int_def, rule Cons.IH)
    then show ?case by simp
  qed simp
  then have "int (sz_of_int (sum_list (map g fs))) = int (sum_list (map (\<lambda>f. sz_of_int (g f)) fs)) mod 2 ^ 64"
    by (simp add: sz_of_int_def)
  also have "\<dots> = int (sum_list (map (\<lambda>f. sz_of_int (g f)) fs))"
    using small by (simp add: sz_modulus_def)
  finally show ?thesis by simp
qed

lemma accepted_sizes:
  assumes "accepted t" and "sum_list (file_sizes t) < sz_modulus"
  shows "\<exists>n. get_piece_length t = Inr n \<and>
    ceil_div (sum_list (file_sizes t)) (sz_of_int n) = Inr (piece_count t)"
proof -
  have "sz_of_int (download_size t) = sum_list (file_sizes t)"
    using assms sz_of_int_sum by (auto simp: accepted_def file_sizes_def split: if_splits)
  with assms(1) show ?thesis by (auto simp: accepted_def)
qed

lemma accepted_piece_parts:
  assumes acc: "accepted t" and fm: "new_file_manager fs directory t = Inr fm"
    and total: "sum_list (file_sizes t) < sz_modulus"
  shows "\<exists>n. get_piece_length t = Inr n \<and> (\<forall>i<piece_count t.
    list_all (part_inside (file_ranges (piece_map fm))) (files_for (piece_map fm) i) \<and>
    concat (map (part_bytes (file_ranges (piece_map fm))) (files_for (piece_map fm) i)) =
      [i * sz_of_int n ..< min (sum_list (file_sizes t)) (i * sz_of_int n + sz_of_int n)])"
proof -
  obtain n where n: "get_piece_length t = Inr n" "ceil_div (sum_list (file_sizes t)) (sz_of_int n) = Inr (piece_count t)"
    using accepted_sizes [OF acc total] by blast
  obtain m p m' where "new_piece_mapper fs t m = Inr (p, m')" and p: "piece_map fm = p"
    using fm by (auto simp: new_file_manager_def bind_fault_Inr)
  from new_piece_mapper_ranges [OF this(1) acc total] n(1) p
  have p: "piece_map fm = \<lparr>piece_length = sz_of_int n, file_ranges = ranges_from 0 (file_sizes t)\<rparr>" by simp
  have mark: "i * sz_of_int n < sz_modulus" if "i < piece_count t" for i
    using ceil_div_covers [OF n(2), of i] that total by linarith
  have "list_all (part_inside (file_ranges (piece_map fm))) (files_for (piece_map fm) i) \<and>
    concat (map (part_bytes (file_ranges (piece_map fm))) (files_for (piece_map fm) i)) =
      [i * sz_of_int n ..< min (sum_list (file_sizes t)) (i * sz_of_int n + sz_of_int n)]" if "i < piece_count t" for i
    using files_for_bytes [OF total mark [OF that] p] by blast
  with n(1) show ?thesis by blast
qed

section \<open>Properties\<close>

text \<open>C27: whatever names and paths a torrent contains, when construction succeeds the table has an
  entry for each file, with its size, and every path lies strictly below the canonical download
  directory (below the directory of the torrent's name there when it has several files).  The
  hypothesis is the contract of \<open>weakly_canonical\<close>, which returns normal paths.\<close>

theorem files_confined:
  assumes "new_file_manager fs directory t = Inr fm"
    and "\<forall>p q. weakly_canonical fs p = Some q \<longrightarrow> normal q"
  shows "map f_size (file_table (file_map fm)) = file_sizes t \<and>
    (\<exists>root name. weakly_canonical fs directory = Some root \<and> get_torrent_name t = Inr name \<and>
      (\<forall>f \<in> set (file_table (file_map fm)).
         strictly_below (if is_file t then root else append_name root name) (f_path f)))"
proof -
  obtain m p m' where m: "new_file_mapper fs directory t = Inr m"
    and p: "new_piece_mapper fs t m = Inr (p, m')" and fm: "file_map fm = m'"
    using assms(1) by (auto simp: new_file_manager_def bind_fault_Inr)
  obtain root name where m: "table_below m" "file_table m = []" "weakly_canonical fs directory = Some root"
    "get_torrent_name t = Inr name" "root_directory m = (if is_file t then root else append_name root name)"
    using new_file_mapper_table [OF m assms(2)] by blast
  have "\<forall>f \<in> set (file_table m'). strictly_below (root_directory m) (f_path f)"
    using new_piece_mapper_table [OF p m(1)] by (metis table_below_def list_all_iff)
  with new_piece_mapper_table [OF p m(1)] m show ?thesis unfolding fm by auto
qed

definition sample_disk :: file_system where
  "sample_disk = \<lparr>weakly_canonical = (\<lambda>p. if normal p then Some p else None),
     is_symlink = (\<lambda>_. False), create_directories = (\<lambda>_. Inr ())\<rparr>"

definition downloads :: path where
  "downloads = \<lparr>absolute = True, names = [''home'', ''downloads'']\<rparr>"

definition sample_files :: string where
  "sample_files = ''d4:infod5:filesld6:lengthi3e4:pathl1:aeed6:lengthi0e4:pathl1:beed6:lengthi4e4:pathl1:c1:deee4:name1:t12:piece lengthi5e6:pieces40:AAAAAAAAAAAAAAAAAAAAAAAAAAAAAAAAAAAAAAAAee''"

lemma sample_files_read:
  "\<exists>t fm. torrent_file (Some (Some sample_files)) = Inr t \<and> new_file_manager sample_disk downloads t = Inr fm
     \<and> piece_count t = 2 \<and> file_sizes t = [3, 0, 4] \<and> length (file_table (file_map fm)) = 3"
proof -
  let ?s = "\<lambda>a b. \<lparr>stat_start = a, stat_size = b\<rparr>"
  let ?file = "\<lambda>n a b path c d. Data (Dictionary [(''length'', Data (Integer n) (?s a 3)),
    (''path'', Data (List path) (?s b c))]) (?s (a - 9) d)"
  let ?info = "[(''files'', Data (List
      [?file 3 25 34 [Data (String ''a'') (?s 35 3)] 5 24,
       ?file 0 49 58 [Data (String ''b'') (?s 59 3)] 5 24,
       ?file 4 73 82 [Data (String ''c'') (?s 83 3), Data (String ''d'') (?s 86 3)] 8 27]) (?s 15 77)),
    (''name'', Data (String ''t'') (?s 98 3)),
    (''piece length'', Data (Integer 5) (?s 116 3)),
    (''pieces'', Data (String ''AAAAAAAAAAAAAAAAAAAAAAAAAAAAAAAAAAAAAAAA'') (?s 127 43))]"
  let ?t = "\<lparr>transcibe = [(''info'', Data (Dictionary ?info) (?s 7 164))],
      info_hash_byte = get_sha1 (as_bytes (subspan 7 164 sample_files)), is_file = False, download_size = 7,
      piece_count = 2, file_count = 3\<rparr>"
  have "decode_input sample_files = Some (Data (Dictionary
      [(''info'', Data (Dictionary ?info) (?s 7 164))]) (?s 0 172))"
    unfolding sample_files_def by code_simp
  then have "torrent_file (Some (Some sample_files)) = Inr ?t"
    by (simp add: torrent_file_def torrent_of_source_def ben_find_def Let_def parse_transcription_def
        info_map_def deref_def ben_contains_def parse_files_def parse_pieces_def pieces_def
        get_piece_length_def ceil_div_def sz_of_int_def add_size_def int64_def)
  moreover have "\<exists>fm. new_file_manager sample_disk downloads ?t = Inr fm \<and> length (file_table (file_map fm)) = 3"
    by (simp add: new_file_manager_def new_file_mapper_def sample_disk_def downloads_def normal_def
        get_torrent_name_def info_map_def deref_def ben_find_def is_valid_name_def Let_def append_name_def NAME_MAX_def
        new_piece_mapper_def get_piece_length_def files_def ben_contains_def sz_add_def
        index_file_def if_valid_get_path_def lexically_normal_def PATH_MAX_def path_string_def lexically_relative_def depth_def)
  moreover have "file_sizes ?t = [3, 0, 4]"
    by (simp add: file_sizes_def files_def info_map_def deref_def ben_find_def file_length_def sz_of_int_def)
  ultimately show ?thesis by (intro exI [of _ ?t]) auto
qed

theorem files_confined_witness:
  "\<exists>t fm. new_file_manager sample_disk downloads t = Inr fm \<and> length (file_table (file_map fm)) = 3 \<and>
    (\<exists>name. \<forall>f \<in> set (file_table (file_map fm)).
      strictly_below (if is_file t then downloads else append_name downloads name) (f_path f))"
proof -
  obtain t fm where t: "new_file_manager sample_disk downloads t = Inr fm" "length (file_table (file_map fm)) = 3"
    using sample_files_read by blast
  have "\<forall>p q. weakly_canonical sample_disk p = Some q \<longrightarrow> normal q" "weakly_canonical sample_disk downloads = Some downloads"
    by (simp_all add: sample_disk_def downloads_def normal_def)
  from files_confined [OF t(1) this(1)] this(2) t show ?thesis by fastforce
qed

text \<open>C37: for an accepted torrent whose total size fits in 64 bits, the parts computed for a piece
  are non-empty, lie inside the files of the torrent, and cover exactly the bytes of the
  piece, in order; the last piece ends with the download.\<close>

theorem piece_parts_cover:
  assumes "torrent_file (Some (Some src)) = Inr t" and "new_file_manager fs directory t = Inr fm"
    and "sum_list (file_sizes t) < sz_modulus" and "i < piece_count t"
  shows "\<exists>n. get_piece_length t = Inr n \<and>
    list_all (part_inside (file_ranges (piece_map fm))) (files_for (piece_map fm) i) \<and>
    concat (map (part_bytes (file_ranges (piece_map fm))) (files_for (piece_map fm) i)) =
      [i * sz_of_int n ..< min (sum_list (file_sizes t)) (i * sz_of_int n + sz_of_int n)]"
  using accepted_piece_parts [OF accepted_torrent_file [OF assms(1)] assms(2,3)] assms(4) by blast

theorem piece_parts_cover_witness:
  "\<exists>t fm. torrent_file (Some (Some sample_files)) = Inr t \<and> new_file_manager sample_disk downloads t = Inr fm \<and>
    (\<exists>n. get_piece_length t = Inr n \<and>
      concat (map (part_bytes (file_ranges (piece_map fm))) (files_for (piece_map fm) 1)) =
      [sz_of_int n ..< min 7 (sz_of_int n + sz_of_int n)])"
proof -
  obtain t fm where t: "torrent_file (Some (Some sample_files)) = Inr t"
    "new_file_manager sample_disk downloads t = Inr fm" "piece_count t = 2" "file_sizes t = [3, 0, 4]"
    using sample_files_read by blast
  from piece_parts_cover [OF t(1,2), of 1] t(3,4) have "\<exists>n. get_piece_length t = Inr n \<and>
      concat (map (part_bytes (file_ranges (piece_map fm))) (files_for (piece_map fm) 1)) =
      [sz_of_int n ..< min 7 (sz_of_int n + sz_of_int n)]"
    by (auto simp: sz_modulus_def)
  with t(1,2) show ?thesis by blast
qed

text \<open>C17: the pieces of an accepted torrent partition its download: the parts of all pieces, one
  after the other, are all bytes of the files, each exactly once, in order.\<close>

theorem pieces_partition_download:
  assumes "torrent_file (Some (Some src)) = Inr t" and "new_file_manager fs directory t = Inr fm"
    and "sum_list (file_sizes t) < sz_modulus"
  shows "concat (map (\<lambda>i. concat (map (part_bytes (file_ranges (piece_map fm))) (files_for (piece_map fm) i)))
      [0..<piece_count t]) = [0 ..< sum_list (file_sizes t)]"
proof -
  note acc = accepted_torrent_file [OF assms(1)]
  obtain n where n: "get_piece_length t = Inr n" "ceil_div (sum_list (file_sizes t)) (sz_of_int n) = Inr (piece_count t)"
    using accepted_sizes [OF acc assms(3)] by blast
  have "concat (map (\<lambda>i. concat (map (part_bytes (file_ranges (piece_map fm))) (files_for (piece_map fm) i)))
      [0..<piece_count t]) =
    concat (map (\<lambda>i. [i * sz_of_int n ..< min (sum_list (file_sizes t)) (i * sz_of_int n + sz_of_int n)]) [0..<piece_count t])"
    using accepted_piece_parts [OF acc assms(2,3)] n(1) by (intro arg_cong [of _ _ concat] map_cong) auto
  then show ?thesis using ceil_div_covers [OF n(2)] by (simp add: pieces_concat)
qed

theorem pieces_partition_download_witness:
  "\<exists>t fm. torrent_file (Some (Some sample_files)) = Inr t \<and> new_file_manager sample_disk downloads t = Inr fm \<and>
    concat (map (part_bytes (file_ranges (piece_map fm))) (files_for (piece_map fm) 0)) @
    concat (map (part_bytes (file_ranges (piece_map fm))) (files_for (piece_map fm) 1)) = [0, 1, 2, 3, 4, 5, 6]"
proof -
  obtain t fm where t: "torrent_file (Some (Some sample_files)) = Inr t"
    "new_file_manager sample_disk downloads t = Inr fm" "piece_count t = 2" "file_sizes t = [3, 0, 4]"
    using sample_files_read by blast
  from pieces_partition_download [OF t(1,2)] t(3,4) have
    "concat (map (part_bytes (file_ranges (piece_map fm))) (files_for (piece_map fm) 0)) @
    concat (map (part_bytes (file_ranges (piece_map fm))) (files_for (piece_map fm) 1)) = [0, 1, 2, 3, 4, 5, 6]"
    by (simp add: sz_modulus_def upt_rec)
  with t(1,2) show ?thesis by blast
qed

end
