(* ===== verification/PeerManagerTypes.thy ===== *)
theory PeerManagerTypes
  imports DynamicBitset RingBuffer Sha1
begin

text \<open>
  \<^verbatim>\<open>src/Client/PeerManagerTypes.hpp\<close>, \<^verbatim>\<open>PeerManagerTypes.cpp\<close> and the contact of
  \<^verbatim>\<open>ThreadMessageTypes.hpp\<close>: the non-blocking socket, the connection and the session of a peer.
  The operating system is a script: for every system call the list of its next answers, an
  \<open>errno\<close> or a result.  A step that finds its list empty has no answer to go on with
  (\<open>Kernel_silent\<close>); an answer that breaks the call's documented contract (a descriptor that
  is in use, more bytes than were offered) is \<open>Kernel_violation\<close>.  The message header that a
  socket keeps for \<open>sendmsg\<close> and \<open>recvmsg\<close> is rebuilt by every call and not part of the state.
\<close>

section \<open>Contacts\<close>

record peer_contact =
  n_addr :: "byte list"
  n_port :: "16 word"
  is_v6 :: bool
  peer_id :: "byte list option"

definition new_contact :: peer_contact where
  "new_contact = \<lparr>n_addr = replicate 16 0, n_port = 0, is_v6 = False, peer_id = None\<rparr>"

text \<open>The capacity of the queue of contacts between the two managers.\<close>

definition discoveries_capacity :: nat where "discoveries_capacity = 100"

definition same_contact :: "peer_contact \<Rightarrow> peer_contact \<Rightarrow> bool" where
  "same_contact a b \<longleftrightarrow> is_v6 a = is_v6 b \<and> n_addr a = n_addr b \<and> n_port a = n_port b"

text \<open>The part of a contact that its equality looks at: the key of the table of peers.\<close>

type_synonym contact_key = "bool \<times> byte list \<times> 16 word"

definition contact_key :: "peer_contact \<Rightarrow> contact_key" where
  "contact_key c = (is_v6 c, n_addr c, n_port c)"

definition contact_hash :: "peer_contact \<Rightarrow> u64" where
  "contact_hash contact =
     (let n = (if is_v6 contact then 16 else 4)
      in fnv_1a_64bits (take n (n_addr contact)
           @ [ucast (n_port contact), ucast (drop_bit 8 (n_port contact))]
           @ [if is_v6 contact then 1 else 0]))"

record peer_id_gen =
  next_id :: nat

definition generate_id :: "peer_id_gen \<Rightarrow> nat \<times> peer_id_gen" where
  "generate_id g = (next_id g, g\<lparr>next_id := sz_add (next_id g) 1\<rparr>)"

section \<open>The operating system\<close>

definition EINTR :: int where "EINTR = 4"
definition EBADF :: int where "EBADF = 9"
definition EAGAIN :: int where "EAGAIN = 11"
definition EINVAL :: int where "EINVAL = 22"
definition EPIPE :: int where "EPIPE = 32"
definition EAFNOSUPPORT :: int where "EAFNOSUPPORT = 97"
definition ECONNABORTED :: int where "ECONNABORTED = 103"
definition ECONNRESET :: int where "ECONNRESET = 104"
definition EINPROGRESS :: int where "EINPROGRESS = 115"
definition AF_INET :: int where "AF_INET = 2"
definition AF_INET6 :: int where "AF_INET6 = 10"
definition PEER_SHUTDOWN :: int where "PEER_SHUTDOWN = - 100"

record kernel =
  open_fds :: "int list"
  socket_answers :: "(int + int) list"
  connect_answers :: "(int + unit) list"
  option_answers :: "(int + int) list"
  send_answers :: "(int + nat) list"
  recv_answers :: "(int + byte list) list"

definition open_fd :: "int \<Rightarrow> kernel \<Rightarrow> fault + kernel" where
  "open_fd fd k = (if fd < 0 \<or> fd \<in> set (open_fds k) then Inl Kernel_violation
     else Inr (k\<lparr>open_fds := fd # open_fds k\<rparr>))"

definition close_fd :: "int \<Rightarrow> kernel \<Rightarrow> kernel" where
  "close_fd fd k = k\<lparr>open_fds := remove1 fd (open_fds k)\<rparr>"

text \<open>The loop around a call that a signal can interrupt.\<close>

fun retry_eintr :: "(int + 'a) list \<Rightarrow> fault + ((int + 'a) \<times> (int + 'a) list)" where
  "retry_eintr [] = Inl Kernel_silent"
| "retry_eintr (Inl err # answers) = (if err = EINTR then retry_eintr answers else Inr (Inl err, answers))"
| "retry_eintr (Inr x # answers) = Inr (Inr x, answers)"

section \<open>The non-blocking socket\<close>

record send_transact =
  send_ok :: bool
  buffer_empty :: bool
  sent_bytes :: nat

record recv_transact =
  recv_ok :: bool
  buffer_full :: bool
  recvd_bytes :: nat

datatype pconnect_return_t = Inprogress | Failed | Connected

record peer_nonblock_tcp =
  tcp_socket :: int
  perrno :: int

definition new_tcp :: peer_nonblock_tcp where
  "new_tcp = \<lparr>tcp_socket = - 1, perrno = - 1\<rparr>"

definition open_socket :: "int \<Rightarrow> peer_nonblock_tcp \<Rightarrow> kernel \<Rightarrow> fault + (bool \<times> peer_nonblock_tcp \<times> kernel)" where
  "open_socket domain t k =
     (if tcp_socket t \<noteq> - 1 then Inr (False, t\<lparr>perrno := EINVAL\<rparr>, k)
      else if domain \<noteq> AF_INET \<and> domain \<noteq> AF_INET6 then Inr (False, t\<lparr>perrno := EAFNOSUPPORT\<rparr>, k)
      else bind_fault (retry_eintr (socket_answers k)) (\<lambda>(socket_return, answers).
        let k = k\<lparr>socket_answers := answers\<rparr>
        in case socket_return of
             Inl errno \<Rightarrow> Inr (False, t\<lparr>perrno := errno\<rparr>, k)
           | Inr fd \<Rightarrow> bind_fault (open_fd fd k) (\<lambda>k. Inr (True, t\<lparr>tcp_socket := fd\<rparr>, k))))"

definition pconnect :: "int \<Rightarrow> peer_nonblock_tcp \<Rightarrow> kernel \<Rightarrow>
    fault + (pconnect_return_t \<times> peer_nonblock_tcp \<times> kernel)" where
  "pconnect address_family t k =
     (if tcp_socket t = - 1 then Inr (Failed, t\<lparr>perrno := EBADF\<rparr>, k)
      else if address_family \<noteq> AF_INET \<and> address_family \<noteq> AF_INET6
      then Inr (Failed, t\<lparr>perrno := EAFNOSUPPORT\<rparr>, k)
      else bind_fault (retry_eintr (connect_answers k)) (\<lambda>(connect_return, answers).
        let k = k\<lparr>connect_answers := answers\<rparr>
        in case connect_return of
             Inr _ \<Rightarrow> Inr (Connected, t\<lparr>perrno := - 1\<rparr>, k)
           | Inl errno \<Rightarrow>
               if errno = EINPROGRESS then Inr (Inprogress, t\<lparr>perrno := EINPROGRESS\<rparr>, k)
               else Inr (Failed, t\<lparr>perrno := errno\<rparr>, k)))"

definition handle_send_perrno :: "int \<Rightarrow> peer_nonblock_tcp \<Rightarrow> bool \<times> peer_nonblock_tcp" where
  "handle_send_perrno err t = (err = EAGAIN, t\<lparr>perrno := err\<rparr>)"

definition handle_recv_perrno :: "int \<Rightarrow> peer_nonblock_tcp \<Rightarrow> bool \<times> peer_nonblock_tcp" where
  "handle_recv_perrno err t = (err = EAGAIN, t\<lparr>perrno := err\<rparr>)"

definition handle_connect_perrno :: "int \<Rightarrow> peer_nonblock_tcp \<Rightarrow> bool \<times> peer_nonblock_tcp" where
  "handle_connect_perrno err t = (err = EINPROGRESS, t\<lparr>perrno := err\<rparr>)"

definition tcp_send :: "io_ring_buffer \<Rightarrow> peer_nonblock_tcp \<Rightarrow> kernel \<Rightarrow>
    fault + (send_transact \<times> io_ring_buffer \<times> peer_nonblock_tcp \<times> kernel)" where
  "tcp_send b t k =
     (let prepare = prepare_read b
      in bind_fault (retry_eintr (send_answers k)) (\<lambda>(send_return, answers).
           let k = k\<lparr>send_answers := answers\<rparr>
           in case send_return of
                Inl errno \<Rightarrow>
                  let (ok, t) = handle_send_perrno errno t
                  in Inr (\<lparr>send_ok = ok, buffer_empty = ring_empty b, sent_bytes = 0\<rparr>, b, t, k)
              | Inr n \<Rightarrow>
                  if prepared_bytes prepare < n then Inl Kernel_violation
                  else
                    let t = t\<lparr>perrno := - 1\<rparr>
                    in bind_fault (commit_read n b) (\<lambda>b.
                         Inr (\<lparr>send_ok = True, buffer_empty = ring_empty b, sent_bytes = n\<rparr>, b, t, k))))"

definition tcp_recv :: "io_ring_buffer \<Rightarrow> peer_nonblock_tcp \<Rightarrow> kernel \<Rightarrow>
    fault + (recv_transact \<times> io_ring_buffer \<times> peer_nonblock_tcp \<times> kernel)" where
  "tcp_recv b t k =
     (let prepare = prepare_write b
      in bind_fault (retry_eintr (recv_answers k)) (\<lambda>(recv_return, answers).
           let k = k\<lparr>recv_answers := answers\<rparr>
           in case recv_return of
                Inl errno \<Rightarrow>
                  let (ok, t) = handle_recv_perrno errno t
                  in Inr (\<lparr>recv_ok = ok, buffer_full = ring_full b, recvd_bytes = 0\<rparr>, b, t, k)
              | Inr bytes \<Rightarrow>
                  if prepared_bytes prepare < length bytes then Inl Kernel_violation
                  else if bytes = [] then
                    Inr (\<lparr>recv_ok = False, buffer_full = ring_full b, recvd_bytes = 0\<rparr>, b,
                         t\<lparr>perrno := PEER_SHUTDOWN\<rparr>, k)
                  else
                    let t = t\<lparr>perrno := - 1\<rparr>
                    in bind_fault (ring_receive bytes b) (\<lambda>b.
                         Inr (\<lparr>recv_ok = True, buffer_full = ring_full b, recvd_bytes = length bytes\<rparr>, b, t, k))))"

definition close_socket :: "peer_nonblock_tcp \<Rightarrow> kernel \<Rightarrow> peer_nonblock_tcp \<times> kernel" where
  "close_socket t k =
     (let (t, k) = (if tcp_socket t \<noteq> - 1 then (t\<lparr>tcp_socket := - 1\<rparr>, close_fd (tcp_socket t) k) else (t, k))
      in (t\<lparr>perrno := - 1\<rparr>, k))"

definition adopt_socket :: "int \<Rightarrow> peer_nonblock_tcp \<Rightarrow> bool \<times> peer_nonblock_tcp" where
  "adopt_socket sock t =
     (if tcp_socket t \<noteq> - 1 \<or> sock = - 1 then (False, t) else (True, t\<lparr>tcp_socket := sock\<rparr>))"

text \<open>Move construction and move assignment close the source, whose descriptor the target now has.\<close>

definition move_construct :: "peer_nonblock_tcp \<Rightarrow> kernel \<Rightarrow>
    peer_nonblock_tcp \<times> peer_nonblock_tcp \<times> kernel" where
  "move_construct other k =
     (let t = \<lparr>tcp_socket = tcp_socket other, perrno = perrno other\<rparr>;
          (other, k) = close_socket other k
      in (t, other, k))"

definition move_assign :: "peer_nonblock_tcp \<Rightarrow> peer_nonblock_tcp \<Rightarrow> kernel \<Rightarrow>
    peer_nonblock_tcp \<times> peer_nonblock_tcp \<times> kernel" where
  "move_assign this other k =
     (let (this, k) = close_socket this k;
          this = this\<lparr>tcp_socket := tcp_socket other, perrno := perrno other\<rparr>;
          (other, k) = close_socket other k
      in (this, other, k))"

section \<open>Watchers\<close>

text \<open>
  The event loop's watchers, as \<open>libev\<close> documents them: stopping a watcher also drops what is
  pending on it.
\<close>

datatype ev_flag = EV_READ | EV_WRITE | EV_ERROR

record io_watcher =
  io_active :: bool
  io_fd :: int
  io_events :: "ev_flag set"
  io_pending :: "ev_flag set"

record timer_watcher =
  timer_active :: bool
  timer_after :: nat

definition io_stop :: "io_watcher \<Rightarrow> io_watcher" where
  "io_stop w = w\<lparr>io_active := False, io_pending := {}\<rparr>"

definition feed_event :: "ev_flag set \<Rightarrow> io_watcher \<Rightarrow> io_watcher" where
  "feed_event events w = w\<lparr>io_pending := io_pending w \<union> events\<rparr>"

definition timer_stop :: "timer_watcher \<Rightarrow> timer_watcher" where
  "timer_stop w = w\<lparr>timer_active := False\<rparr>"

definition timer_start :: "nat \<Rightarrow> timer_watcher \<Rightarrow> timer_watcher" where
  "timer_start after w = w\<lparr>timer_active := True, timer_after := after\<rparr>"

section \<open>A peer's connection\<close>

datatype pstate = State_null | TRANSPORT | HANDSHAKE | CONNECTED | DISCONNECTED | FAILED

datatype psource = Source_null | Tracker | Tcp_server

text \<open>
  The union of \<open>sockaddr_in\<close> and \<open>sockaddr_in6\<close>: family and port are at the same place in
  both, the two addresses at different ones.
\<close>

record peer_sock_store =
  sa_family :: int
  sa_port :: "16 word"
  sin_addr :: "byte list"
  sin6_addr :: "byte list"

definition zero_store :: peer_sock_store where
  "zero_store = \<lparr>sa_family = 0, sa_port = 0, sin_addr = replicate 4 0, sin6_addr = replicate 16 0\<rparr>"

record PeerConnection =
  tcp :: peer_nonblock_tcp
  store :: peer_sock_store
  recv_buffer :: io_ring_buffer
  send_buffer :: io_ring_buffer
  for_sock :: io_watcher
  for_timer :: timer_watcher
  contact :: peer_contact
  state :: pstate
  source :: psource
  outgoing_frame_cursor :: nat
  failures :: nat

definition new_io_watcher :: io_watcher where
  "new_io_watcher = \<lparr>io_active = False, io_fd = - 1, io_events = {}, io_pending = {}\<rparr>"

definition new_timer :: timer_watcher where
  "new_timer = \<lparr>timer_active = False, timer_after = 0\<rparr>"

definition handshake_buffer :: io_ring_buffer where
  "handshake_buffer = new_ring (replicate 68 0)"

definition new_connection :: PeerConnection where
  "new_connection = \<lparr>tcp = new_tcp, store = zero_store, recv_buffer = handshake_buffer, send_buffer = handshake_buffer,
     for_sock = new_io_watcher, for_timer = new_timer, contact = new_contact, state = State_null,
     source = Source_null, outgoing_frame_cursor = 0, failures = 0\<rparr>"

definition watchers_stop :: "PeerConnection \<Rightarrow> PeerConnection" where
  "watchers_stop p = p\<lparr>for_sock := io_stop (for_sock p), for_timer := timer_stop (for_timer p)\<rparr>"

definition initialize_connection :: "peer_contact \<Rightarrow> psource \<Rightarrow> pstate \<Rightarrow> PeerConnection \<Rightarrow> PeerConnection" where
  "initialize_connection endpoint peer_source peer_state p =
     (let p = p\<lparr>contact := endpoint, source := peer_source, state := peer_state\<rparr>
      in if source p = Tracker then
           if is_v6 (contact p)
           then p\<lparr>store := (store p)\<lparr>sa_family := AF_INET6, sin6_addr := n_addr (contact p),
                  sa_port := n_port (contact p)\<rparr>\<rparr>
           else p\<lparr>store := (store p)\<lparr>sa_family := AF_INET, sin_addr := take 4 (n_addr (contact p)),
                  sa_port := n_port (contact p)\<rparr>\<rparr>
         else p)"

definition teardown_connection :: "PeerConnection \<Rightarrow> fault + PeerConnection" where
  "teardown_connection p =
     (let p = watchers_stop p
      in if tcp_socket (tcp p) \<noteq> - 1 then Inl Assertion_failed
         else Inr (p\<lparr>store := zero_store, recv_buffer := ring_reset (recv_buffer p),
           send_buffer := ring_reset (send_buffer p), for_sock := (for_sock p)\<lparr>io_fd := - 1\<rparr>,
           contact := new_contact, state := State_null, source := Source_null,
           outgoing_frame_cursor := 0, failures := 0\<rparr>))"

definition recv_messages :: "PeerConnection \<Rightarrow> kernel \<Rightarrow> fault + (recv_transact \<times> PeerConnection \<times> kernel)" where
  "recv_messages p k =
     bind_fault (tcp_recv (recv_buffer p) (tcp p) k) (\<lambda>(r, b, t, k). Inr (r, p\<lparr>recv_buffer := b, tcp := t\<rparr>, k))"

definition send_messages :: "PeerConnection \<Rightarrow> kernel \<Rightarrow> fault + (send_transact \<times> PeerConnection \<times> kernel)" where
  "send_messages p k =
     bind_fault (tcp_send (send_buffer p) (tcp p) k) (\<lambda>(r, b, t, k). Inr (r, p\<lparr>send_buffer := b, tcp := t\<rparr>, k))"

section \<open>Messages between the managers, and a peer's session\<close>

text \<open>A pointer to a connection is the index of its slot in the pool.\<close>

record connect_update =
  cu_peer :: nat
  cu_socket :: int
  cu_id :: nat
  cu_generation :: nat

record disconnect_update =
  du_peer :: "nat option"
  du_generation :: nat
  du_perrno :: int

text \<open>The session's pointer to its connection is \<open>None\<close> when it points to the dummy peer.\<close>

record PeerSession =
  session_tcp :: peer_nonblock_tcp
  session_recv :: io_ring_buffer
  session_send :: io_ring_buffer
  session_sock :: io_watcher
  session_timer :: timer_watcher
  session_id :: nat
  session_generation :: nat
  choke :: "bool list"
  interest :: "bool list"
  down_rate :: nat
  upld_rate :: nat
  session_bitfield :: bitset
  session_peer :: "nat option"

definition is_dummy :: "PeerSession \<Rightarrow> bool" where
  "is_dummy s \<longleftrightarrow> session_peer s = None"

definition set_endpoint :: "connect_update \<Rightarrow> PeerSession \<Rightarrow> PeerSession" where
  "set_endpoint endpoint s =
     s\<lparr>session_peer := Some (cu_peer endpoint), session_id := cu_id endpoint,
       session_generation := cu_generation endpoint,
       session_tcp := snd (adopt_socket (cu_socket endpoint) (session_tcp s))\<rparr>"

definition endpoint_disconnected :: "PeerSession \<Rightarrow> kernel \<Rightarrow> disconnect_update \<times> PeerSession \<times> kernel" where
  "endpoint_disconnected s k =
     (let disconnected = \<lparr>du_peer = session_peer s, du_generation = session_generation s,
            du_perrno = perrno (session_tcp s)\<rparr>;
          s = s\<lparr>session_id := 0, session_generation := 0, down_rate := 0, upld_rate := 0,
            choke := [True, True], interest := [False, False], session_bitfield := clear (session_bitfield s)\<rparr>;
          (t, k) = close_socket (session_tcp s) k
      in (disconnected,
          s\<lparr>session_tcp := t, session_recv := ring_reset (session_recv s), session_send := ring_reset (session_send s),
            session_sock := io_stop (session_sock s), session_timer := timer_stop (session_timer s),
            session_peer := None\<rparr>, k))"

definition session_send_messages :: "PeerSession \<Rightarrow> kernel \<Rightarrow> fault + (send_transact \<times> PeerSession \<times> kernel)" where
  "session_send_messages s k =
     bind_fault (tcp_send (session_send s) (session_tcp s) k) (\<lambda>(r, b, t, k).
       Inr (r, s\<lparr>session_send := b, session_tcp := t\<rparr>, k))"

definition session_recv_messages :: "PeerSession \<Rightarrow> kernel \<Rightarrow> fault + (recv_transact \<times> PeerSession \<times> kernel)" where
  "session_recv_messages s k =
     bind_fault (tcp_recv (session_recv s) (session_tcp s) k) (\<lambda>(r, b, t, k).
       Inr (r, s\<lparr>session_recv := b, session_tcp := t\<rparr>, k))"

section \<open>Contacts as keys, and moved sockets\<close>

text \<open>Equal contacts have the same key and the same hash.\<close>

lemma same_contact_key: "same_contact a b \<longleftrightarrow> contact_key a = contact_key b"
  by (auto simp: same_contact_def contact_key_def)

lemma same_contact_hash: "same_contact a b \<Longrightarrow> contact_hash a = contact_hash b"
  by (simp add: same_contact_def contact_hash_def)

text \<open>A moved socket's descriptor is closed: moving closes the source before letting go of it.\<close>

lemma moved_descriptor_closed:
  assumes "tcp_socket other \<noteq> - 1" and "distinct (open_fds k)" and "move_construct other k = (t, other', k')"
  shows "tcp_socket t = tcp_socket other \<and> tcp_socket t \<notin> set (open_fds k')"
  using assms by (auto simp: move_construct_def close_socket_def close_fd_def)

end
