(* ===== verification/Constants.thy ===== *)
theory Constants
  imports Prelude
begin

text \<open>\<^verbatim>\<open>src/Client/Constants.hpp\<close>: the constants of the protocol that the modelled code uses.\<close>

definition client_id :: string where
  "client_id = ''FJ0001-x4Kn8mR2pL9sq''"

definition reserved_bytes :: "byte list" where
  "reserved_bytes = replicate 8 0"

definition healthy_peer_count :: nat where "healthy_peer_count = 50"
definition max_inbound_inflight :: nat where "max_inbound_inflight = 35"
definition max_outbound_inflight :: nat where "max_outbound_inflight = 15"
definition max_reties :: nat where "max_reties = 3"
definition connect_timeout :: nat where "connect_timeout = 10"
definition retry_timeout :: nat where "retry_timeout = 15"

end
