(* ===== verification/PeerConnectionManager.thy ===== *)
theory PeerConnectionManager
  imports Constants PeerManagerTypes Messages SlotPool OverwritableCache
begin

text \<open>
  \<^verbatim>\<open>src/Client/PeerConnectionManager.hpp\<close>, \<^verbatim>\<open>PeerConnectionManager.cpp\<close> and
  \<^verbatim>\<open>PeerCErrnoHandler.cpp\<close>: the event-driven manager of the connections.  Every callback of the
  event loop is a function from a state to a fault or the next state.  The queues to and from
  other threads are lists with the bounds of the code (\<open>SpscQueue\<close> relates the queue to that
  view); pool, discovery cache, ring buffers and the handshake codec are the models of their own
  theories.  A \<open>PeerConnection&\<close> is the index of its slot.
\<close>

section \<open>Capacities\<close>

definition pool_capacity :: nat where "pool_capacity = 200"
definition cache_capacity :: nat where "cache_capacity = 200"
definition connects_capacity :: nat where "connects_capacity = 50"

section \<open>Statistics\<close>

record connection_statistics =
  connected_bittorrent_peers :: nat
  inbound_inflight :: nat
  outbound_inflight :: nat
  failed_peers :: nat
  peers_in_retry :: nat
  ipv4_addr_in_cache :: nat

definition new_statistics :: connection_statistics where
  "new_statistics = \<lparr>connected_bittorrent_peers = 0, inbound_inflight = 0, outbound_inflight = 0,
     failed_peers = 0, peers_in_retry = 0, ipv4_addr_in_cache = 0\<rparr>"

definition has_met_connection_quota :: "connection_statistics \<Rightarrow> bool" where
  "has_met_connection_quota c = (if connected_bittorrent_peers c < healthy_peer_count then False else True)"

definition increment_outbound_inflight :: "connection_statistics \<Rightarrow> connection_statistics" where
  "increment_outbound_inflight c = c\<lparr>outbound_inflight := sz_add (outbound_inflight c) 1\<rparr>"

definition increment_inbound_inflight :: "connection_statistics \<Rightarrow> connection_statistics" where
  "increment_inbound_inflight c = c\<lparr>inbound_inflight := sz_add (inbound_inflight c) 1\<rparr>"

definition single_inbound_resolved :: "connection_statistics \<Rightarrow> connection_statistics" where
  "single_inbound_resolved c = c\<lparr>inbound_inflight := sz_sub (inbound_inflight c) 1\<rparr>"

definition single_outbound_resolved :: "connection_statistics \<Rightarrow> connection_statistics" where
  "single_outbound_resolved c = c\<lparr>outbound_inflight := sz_sub (outbound_inflight c) 1\<rparr>"

definition increment_connected :: "connection_statistics \<Rightarrow> connection_statistics" where
  "increment_connected c = c\<lparr>connected_bittorrent_peers := sz_add (connected_bittorrent_peers c) 1\<rparr>"

definition decrement_connected :: "connection_statistics \<Rightarrow> connection_statistics" where
  "decrement_connected c = c\<lparr>connected_bittorrent_peers := sz_sub (connected_bittorrent_peers c) 1\<rparr>"

definition increment_failed :: "connection_statistics \<Rightarrow> connection_statistics" where
  "increment_failed c = c\<lparr>failed_peers := sz_add (failed_peers c) 1\<rparr>"

definition decrement_failed :: "connection_statistics \<Rightarrow> connection_statistics" where
  "decrement_failed c = c\<lparr>failed_peers := sz_sub (failed_peers c) 1\<rparr>"

definition increment_peers_in_retry :: "connection_statistics \<Rightarrow> connection_statistics" where
  "increment_peers_in_retry c = c\<lparr>peers_in_retry := sz_add (peers_in_retry c) 1\<rparr>"

definition decrement_peers_in_retry :: "connection_statistics \<Rightarrow> connection_statistics" where
  "decrement_peers_in_retry c = c\<lparr>peers_in_retry := sz_sub (peers_in_retry c) 1\<rparr>"

definition increment_addr_in_cache :: "connection_statistics \<Rightarrow> connection_statistics" where
  "increment_addr_in_cache c =
     (if ipv4_addr_in_cache c < 200 then c\<lparr>ipv4_addr_in_cache := sz_add (ipv4_addr_in_cache c) 1\<rparr> else c)"

definition decrement_addr_in_cache :: "connection_statistics \<Rightarrow> connection_statistics" where
  "decrement_addr_in_cache c = c\<lparr>ipv4_addr_in_cache := sz_sub (ipv4_addr_in_cache c) 1\<rparr>"

section \<open>The manager\<close>

record peer_failure_update =
  connection :: nat
  cached_generation :: nat

datatype spot = Spot_discovered | Spot_disconnected | Spot_failed

record manager =
  kernel :: kernel
  statistics :: connection_statistics
  connection_pool :: "PeerConnection slot_recycling_pool"
  peers :: "contact_key \<rightharpoonup> nat"
  disconnects :: "disconnect_update list"
  discovered :: "peer_contact list"
  discovery_cache :: "peer_contact overwritable_cache"
  retry_queue :: "peer_failure_update list"
  current :: spot
  empties :: "spot \<Rightarrow> bool"
  daemon_pending :: bool
  connects :: "connect_update list"
  info_hash :: "byte list"
  handshake :: "byte list"

definition compute_handshake :: "byte list \<Rightarrow> byte list" where
  "compute_handshake torrent_info_hash =
     (let h = replicate length_handshake 0; offset = 0;
          h = write_at offset [protocol_string_length] h; offset = offset + 1;
          h = write_at offset (map of_char protocol_string) h; offset = offset + 19;
          h = write_at offset reserved_bytes h; offset = offset + 8;
          h = write_at offset (take 20 torrent_info_hash) h; offset = offset + 20;
          h = write_at offset (map of_char client_id) h
      in h)"

definition new_manager :: "byte list \<Rightarrow> kernel \<Rightarrow> manager" where
  "new_manager torrent_info_hash k =
     \<lparr>kernel = k, statistics = new_statistics, connection_pool = new_pool pool_capacity new_connection,
      peers = Map.empty, disconnects = [], discovered = [], discovery_cache = new_cache cache_capacity new_contact,
      retry_queue = [], current = Spot_discovered, empties = (\<lambda>_. False), daemon_pending = False,
      connects = [], info_hash = torrent_info_hash, handshake = compute_handshake torrent_info_hash\<rparr>"

definition peer_at :: "manager \<Rightarrow> nat \<Rightarrow> PeerConnection" where
  "peer_at s i = object (pool (connection_pool s) ! i)"

definition generation_at :: "manager \<Rightarrow> nat \<Rightarrow> nat" where
  "generation_at s i = generation (pool (connection_pool s) ! i)"

definition set_object :: "nat \<Rightarrow> 'a \<Rightarrow> 'a slot_recycling_pool \<Rightarrow> 'a slot_recycling_pool" where
  "set_object i x p = p\<lparr>pool := (pool p)[i := (pool p ! i)\<lparr>object := x\<rparr>]\<rparr>"

definition set_peer :: "nat \<Rightarrow> PeerConnection \<Rightarrow> manager \<Rightarrow> manager" where
  "set_peer i p s = s\<lparr>connection_pool := set_object i p (connection_pool s)\<rparr>"

definition send_notification :: "manager \<Rightarrow> manager" where
  "send_notification s = s\<lparr>daemon_pending := True\<rparr>"

section \<open>Watchers, sockets and deletion\<close>

definition modify_peer_socket_w_event :: "nat \<Rightarrow> ev_flag set \<Rightarrow> manager \<Rightarrow> manager" where
  "modify_peer_socket_w_event i events s =
     (let p = peer_at s i
      in set_peer i (p\<lparr>for_sock := (io_stop (for_sock p))\<lparr>io_fd := tcp_socket (tcp p), io_events := events,
           io_active := True\<rparr>\<rparr>) s)"

definition arm_connection_watchers :: "nat \<Rightarrow> ev_flag set \<Rightarrow> manager \<Rightarrow> manager" where
  "arm_connection_watchers i events s =
     (let s = modify_peer_socket_w_event i events s;
          p = peer_at s i
      in set_peer i (p\<lparr>for_timer := timer_start connect_timeout (timer_stop (for_timer p))\<rparr>) s)"

definition stop_connection_watchers :: "nat \<Rightarrow> manager \<Rightarrow> manager" where
  "stop_connection_watchers i s = set_peer i (watchers_stop (peer_at s i)) s"

definition close_peer_socket :: "nat \<Rightarrow> manager \<Rightarrow> manager" where
  "close_peer_socket i s =
     (let (t, k) = close_socket (tcp (peer_at s i)) (kernel s)
      in set_peer i ((peer_at s i)\<lparr>tcp := t\<rparr>) (s\<lparr>kernel := k\<rparr>))"

definition deregister_from_map :: "nat \<Rightarrow> manager \<Rightarrow> manager" where
  "deregister_from_map i s = s\<lparr>peers := (peers s)(contact_key (contact (peer_at s i)) := None)\<rparr>"

definition release_slot :: "nat \<Rightarrow> manager \<Rightarrow> fault + manager" where
  "release_slot i s = bind_fault (release i (connection_pool s)) (\<lambda>p. Inr (s\<lparr>connection_pool := p\<rparr>))"

definition delete_peer_connection :: "nat \<Rightarrow> manager \<Rightarrow> fault + manager" where
  "delete_peer_connection i s =
     (let s = deregister_from_map i s
      in bind_fault (teardown_connection (peer_at s i)) (\<lambda>p. release_slot i (set_peer i p s)))"

text \<open>
  The conditional that ends four functions of the manager: a connection attempt of the given
  source is no longer in flight.
\<close>

definition inflight_resolved :: "psource \<Rightarrow> manager \<Rightarrow> manager" where
  "inflight_resolved src s =
     (if src = Tcp_server then s\<lparr>statistics := single_outbound_resolved (statistics s)\<rparr>
      else send_notification (s\<lparr>statistics := single_inbound_resolved (statistics s)\<rparr>))"

definition hard_delete_peer_connection :: "nat \<Rightarrow> manager \<Rightarrow> fault + manager" where
  "hard_delete_peer_connection i s =
     (let s = close_peer_socket i s
      in delete_peer_connection i (inflight_resolved (source (peer_at s i)) s))"

section \<open>Failures and timers\<close>

definition handle_peer_failure :: "nat \<Rightarrow> manager \<Rightarrow> fault + manager" where
  "handle_peer_failure i s =
     (let p = peer_at s i;
          s = set_peer i (p\<lparr>state := FAILED, failures := sz_add (failures p) 1\<rparr>) s;
          s = close_peer_socket i s;
          p = peer_at s i
      in if source p = Source_null then Inl Assertion_failed
         else
           let s = inflight_resolved (source p) s
           in if max_reties \<le> failures p \<or> source p = Tcp_server then delete_peer_connection i s
              else
                let s = stop_connection_watchers i s;
                    p = peer_at s i;
                    s = set_peer i (p\<lparr>outgoing_frame_cursor := 0, recv_buffer := ring_reset (recv_buffer p),
                          send_buffer := ring_reset (send_buffer p),
                          for_timer := timer_start (retry_timeout * failures p) (for_timer p)\<rparr>) s
                in Inr (s\<lparr>statistics := increment_failed (statistics s)\<rparr>))"

definition peer_timer_callback :: "nat \<Rightarrow> manager \<Rightarrow> fault + manager" where
  "peer_timer_callback i s =
     (if state (peer_at s i) = CONNECTED then Inl Assertion_failed
      else if state (peer_at s i) = FAILED then
        let s = stop_connection_watchers i s;
            s = set_peer i ((peer_at s i)\<lparr>state := TRANSPORT\<rparr>) s;
            new_failure = \<lparr>connection = i, cached_generation = generation_at s i\<rparr>;
            s = s\<lparr>retry_queue := retry_queue s @ [new_failure],
                  statistics := increment_peers_in_retry (decrement_failed (statistics s))\<rparr>
        in Inr (send_notification s)
      else handle_peer_failure i s)"

section \<open>Connecting and the handshake\<close>

definition handle_peer_connection_and_dispatch :: "nat \<Rightarrow> manager \<Rightarrow> manager" where
  "handle_peer_connection_and_dispatch i s =
     (let s = set_peer i ((peer_at s i)\<lparr>state := CONNECTED\<rparr>) s;
          s = stop_connection_watchers i s;
          p = peer_at s i;
          new_connect = \<lparr>cu_peer = i, cu_socket = tcp_socket (tcp p), cu_id = 0, cu_generation = generation_at s i\<rparr>;
          s = s\<lparr>connects := (if length (connects s) < connects_capacity then connects s @ [new_connect] else connects s),
                statistics := increment_connected (statistics s)\<rparr>
      in inflight_resolved (source p) s)"

definition peer_transport_level_connected :: "nat \<Rightarrow> manager \<Rightarrow> fault + (bool \<times> manager)" where
  "peer_transport_level_connected i s =
     (case option_answers (kernel s) of
        [] \<Rightarrow> Inl Kernel_silent
      | answer # answers \<Rightarrow>
          let s = s\<lparr>kernel := (kernel s)\<lparr>option_answers := answers\<rparr>\<rparr>
          in (case answer of
                Inl errno \<Rightarrow> Inl Assertion_failed
              | Inr err \<Rightarrow>
                  if err \<noteq> 0 then
                    let p = peer_at s i in Inr (False, set_peer i (p\<lparr>tcp := (tcp p)\<lparr>perrno := err\<rparr>\<rparr>) s)
                  else Inr (True, s)))"

definition peer_send :: "nat \<Rightarrow> manager \<Rightarrow> fault + (send_transact \<times> manager)" where
  "peer_send i s =
     bind_fault (send_messages (peer_at s i) (kernel s)) (\<lambda>(r, p, k). Inr (r, set_peer i p (s\<lparr>kernel := k\<rparr>)))"

definition peer_recv :: "nat \<Rightarrow> manager \<Rightarrow> fault + (recv_transact \<times> manager)" where
  "peer_recv i s =
     bind_fault (recv_messages (peer_at s i) (kernel s)) (\<lambda>(r, p, k). Inr (r, set_peer i p (s\<lparr>kernel := k\<rparr>)))"

text \<open>Both places that start sending the handshake: the buffer must be empty and takes all of it.\<close>

definition encode_handshake :: "nat \<Rightarrow> manager \<Rightarrow> fault + (bool \<times> manager)" where
  "encode_handshake i s =
     (let p = peer_at s i
      in if \<not> ring_empty (send_buffer p) then Inl Assertion_failed
         else bind_fault (handshake_encode (handshake s) (send_buffer p) 0) (\<lambda>(encode_completed, cursor, b).
           Inr (encode_completed, set_peer i (p\<lparr>outgoing_frame_cursor := cursor, send_buffer := b\<rparr>) s)))"

definition handle_peer_transport_level_initiations :: "nat \<Rightarrow> ev_flag set \<Rightarrow> manager \<Rightarrow> fault + manager" where
  "handle_peer_transport_level_initiations i event s =
     (if EV_WRITE \<in> event then
        bind_fault (peer_transport_level_connected i s) (\<lambda>(ok, s).
          if \<not> ok then handle_peer_failure i s
          else
            let s = set_peer i ((peer_at s i)\<lparr>state := HANDSHAKE\<rparr>) s
            in bind_fault (encode_handshake i s) (\<lambda>(encode_completed, s).
                 if \<not> encode_completed then Inl Assertion_failed
                 else bind_fault (peer_send i s) (\<lambda>(r, s).
                   if send_ok r
                   then Inr (modify_peer_socket_w_event i (if buffer_empty r then {EV_READ} else {EV_WRITE}) s)
                   else handle_peer_failure i s)))
      else Inr s)"

definition handshake_write :: "nat \<Rightarrow> manager \<Rightarrow> fault + manager" where
  "handshake_write i s =
     bind_fault (peer_send i s) (\<lambda>(r, s).
       if \<not> send_ok r then handle_peer_failure i s
       else if buffer_empty r then
         let s = (if source (peer_at s i) = Tracker then modify_peer_socket_w_event i {EV_READ} s else s)
         in Inr (if source (peer_at s i) = Tcp_server then handle_peer_connection_and_dispatch i s else s)
       else Inr s)"

text \<open>The answer of a peer that connected to us, once its handshake has been accepted.\<close>

definition handshake_reply :: "nat \<Rightarrow> manager \<Rightarrow> fault + manager" where
  "handshake_reply i s =
     bind_fault (encode_handshake i s) (\<lambda>(encode_completed, s).
     bind_fault (peer_send i s) (\<lambda>(r, s).
       if \<not> encode_completed then Inl Assertion_failed
       else if \<not> send_ok r then handle_peer_failure i s
       else if \<not> buffer_empty r then Inr (modify_peer_socket_w_event i {EV_WRITE} s)
       else Inr (handle_peer_connection_and_dispatch i s)))"

definition handshake_read :: "nat \<Rightarrow> manager \<Rightarrow> fault + manager" where
  "handshake_read i s =
     bind_fault (peer_recv i s) (\<lambda>(r, s).
       if \<not> recv_ok r then handle_peer_failure i s
       else
         let p = peer_at s i
         in bind_fault (handshake_decode (recv_buffer p) (info_hash s) (peer_id (contact p))) (\<lambda>(result, pid, b).
              let s = set_peer i (p\<lparr>recv_buffer := b, contact := (contact p)\<lparr>peer_id := pid\<rparr>\<rparr>) s
              in if \<not> complete result then Inr s
                 else if \<not> is_valid result then hard_delete_peer_connection i s
                 else
                   let s = (if source (peer_at s i) = Tracker then handle_peer_connection_and_dispatch i s else s)
                   in if source (peer_at s i) = Tcp_server then handshake_reply i s else Inr s))"

definition handle_peer_application_level_handshake :: "nat \<Rightarrow> ev_flag set \<Rightarrow> manager \<Rightarrow> fault + manager" where
  "handle_peer_application_level_handshake i event s =
     (if EV_WRITE \<in> event then handshake_write i s
      else if EV_READ \<in> event then handshake_read i s
      else Inr s)"

definition peer_socket_callback :: "nat \<Rightarrow> ev_flag set \<Rightarrow> manager \<Rightarrow> fault + manager" where
  "peer_socket_callback i event s =
     (let p = peer_at s i
      in if state p = CONNECTED then Inl Assertion_failed
         else if source p = Source_null then Inl Assertion_failed
         else if has_met_connection_quota (statistics s) then hard_delete_peer_connection i s
         else if EV_ERROR \<in> event then handle_peer_failure i s
         else case state p of
             TRANSPORT \<Rightarrow> handle_peer_transport_level_initiations i event s
           | DISCONNECTED \<Rightarrow> handle_peer_transport_level_initiations i event s
           | FAILED \<Rightarrow> handle_peer_transport_level_initiations i event s
           | HANDSHAKE \<Rightarrow> handle_peer_application_level_handshake i event s
           | _ \<Rightarrow> hard_delete_peer_connection i s)"

section \<open>Starting connections\<close>

definition peer_connect :: "nat \<Rightarrow> manager \<Rightarrow> fault + (bool \<times> manager)" where
  "peer_connect i s =
     (if source (peer_at s i) \<noteq> Tracker then Inl Assertion_failed
      else
        let domain = sa_family (store (peer_at s i))
        in bind_fault (open_socket domain (tcp (peer_at s i)) (kernel s)) (\<lambda>(opened, t, k).
             let s = set_peer i ((peer_at s i)\<lparr>tcp := t\<rparr>) (s\<lparr>kernel := k\<rparr>)
             in if opened = False then Inr (False, s)
                else bind_fault (pconnect domain (tcp (peer_at s i)) (kernel s)) (\<lambda>(resolve, t, k).
                  let s = set_peer i ((peer_at s i)\<lparr>tcp := t\<rparr>) (s\<lparr>kernel := k\<rparr>)
                  in if resolve = Failed then Inr (False, close_peer_socket i s)
                     else
                       let s = arm_connection_watchers i {EV_WRITE} s;
                           p = peer_at s i
                       in if resolve = Connected
                          then Inr (True, set_peer i (p\<lparr>state := HANDSHAKE,
                                 for_sock := feed_event {EV_WRITE} (for_sock p)\<rparr>) s)
                          else Inr (True, s))))"

definition initiate_connect :: "nat \<Rightarrow> manager \<Rightarrow> fault + (bool \<times> manager)" where
  "initiate_connect i s =
     (if source (peer_at s i) \<noteq> Tracker then Inl Assertion_failed
      else bind_fault (peer_connect i s) (\<lambda>(ok, s).
        if ok then Inr (True, s\<lparr>statistics := increment_inbound_inflight (statistics s)\<rparr>)
        else Inr (False, s)))"

section \<open>What starting and deleting leave alone\<close>

text \<open>The sources of new connections, which the scheduler's loops consume, and its own fields.\<close>

definition sources :: "manager \<Rightarrow>
    peer_contact overwritable_cache \<times> disconnect_update list \<times> peer_failure_update list \<times> spot \<times> (spot \<Rightarrow> bool)" where
  "sources s = (discovery_cache s, disconnects s, retry_queue s, current s, empties s)"

lemma sources_update [simp]:
  "sources (set_peer i p s) = sources s"
  "sources (s\<lparr>kernel := k\<rparr>) = sources s"
  "sources (s\<lparr>statistics := c\<rparr>) = sources s"
  "sources (s\<lparr>connection_pool := cp\<rparr>) = sources s"
  "sources (s\<lparr>peers := m\<rparr>) = sources s"
  "sources (send_notification s) = sources s"
  "sources (modify_peer_socket_w_event i e s) = sources s"
  "sources (arm_connection_watchers i e s) = sources s"
  "sources (close_peer_socket i s) = sources s"
  by (simp_all add: sources_def set_peer_def send_notification_def modify_peer_socket_w_event_def
      arm_connection_watchers_def close_peer_socket_def Let_def split_beta)

lemma delete_sources: "delete_peer_connection i s = Inr s' \<Longrightarrow> sources s' = sources s"
  by (auto simp: delete_peer_connection_def deregister_from_map_def release_slot_def bind_fault_Inr Let_def)

lemma release_sources: "release_slot i s = Inr s' \<Longrightarrow> sources s' = sources s"
  by (auto simp: release_slot_def bind_fault_Inr)

lemma fresh_pop_shrinks: "(Some x, c') = fresh_pop c \<Longrightarrow> cache_size c' < cache_size c"
  by (auto simp: fresh_pop_def isempty_def Let_def split: if_splits)

lemma connect_sources:
  assumes "peer_connect i s = Inr (ok, s')"
  shows "sources s' = sources s"
  using assms by (auto simp: peer_connect_def bind_fault_Inr Let_def split: if_splits)

lemma initiate_sources: "initiate_connect i s = Inr (ok, s') \<Longrightarrow> sources s' = sources s"
  by (auto simp: initiate_connect_def bind_fault_Inr dest!: connect_sources split: if_splits)

section \<open>The schedulers\<close>

text \<open>
  Each scheduler is a loop that takes the next entry of its source; the loop's body says whether
  the scheduler returns (\<open>True\<close>, a connection has been started) or goes on to the next entry.
\<close>

definition discovered_one :: "peer_contact \<Rightarrow> manager \<Rightarrow> fault + (bool \<times> manager)" where
  "discovered_one new_endpoint s =
     (let s = s\<lparr>statistics := decrement_addr_in_cache (statistics s)\<rparr>
      in case acquire (connection_pool s) of
           (None, _) \<Rightarrow> Inl Assertion_failed
         | (Some acquired_slot, p) \<Rightarrow>
             let s = s\<lparr>connection_pool := p\<rparr>
             in if peers s (contact_key new_endpoint) \<noteq> None then
                  bind_fault (release_slot acquired_slot s) (\<lambda>s. Inr (False, s))
                else
                  let s = s\<lparr>peers := (peers s)(contact_key new_endpoint \<mapsto> acquired_slot)\<rparr>;
                      s = set_peer acquired_slot (initialize_connection new_endpoint Tracker TRANSPORT
                            (peer_at s acquired_slot)) s
                  in bind_fault (initiate_connect acquired_slot s) (\<lambda>(ok, s).
                       if ok then Inr (True, s)
                       else bind_fault (delete_peer_connection acquired_slot s) (\<lambda>s. Inr (False, s))))"

definition disconnected_one :: "disconnect_update \<Rightarrow> manager \<Rightarrow> fault + (bool \<times> manager)" where
  "disconnected_one disconnected s =
     (case du_peer disconnected of
        None \<Rightarrow> Inl Out_of_bounds_access
      | Some i \<Rightarrow>
          if generation_at s i \<noteq> du_generation disconnected then Inr (False, s)
          else
            let s = set_peer i ((peer_at s i)\<lparr>state := DISCONNECTED\<rparr>) s;
                s = s\<lparr>statistics := decrement_connected (statistics s)\<rparr>
            in if perrno (tcp (peer_at s i)) = PEER_SHUTDOWN \<or> source (peer_at s i) = Tcp_server
               then bind_fault (delete_peer_connection i s) (\<lambda>s. Inr (False, s))
               else
                 let p = peer_at s i;
                     s = set_peer i (p\<lparr>failures := sz_add (failures p) 1\<rparr>) s
                 in bind_fault (initiate_connect i s) (\<lambda>(ok, s).
                      if ok then Inr (True, s)
                      else bind_fault (delete_peer_connection i s) (\<lambda>s. Inr (False, s))))"

definition failed_one :: "peer_failure_update \<Rightarrow> manager \<Rightarrow> fault + (bool \<times> manager)" where
  "failed_one failed_peer s =
     (let s = s\<lparr>statistics := decrement_peers_in_retry (statistics s)\<rparr>;
          i = connection failed_peer
      in if generation_at s i \<noteq> cached_generation failed_peer then Inr (False, s)
         else bind_fault (initiate_connect i s) (\<lambda>(ok, s).
                if ok then Inr (True, s)
                else bind_fault (delete_peer_connection i s) (\<lambda>s. Inr (False, s))))"

lemma one_sources:
  "discovered_one e s = Inr (ok, s') \<Longrightarrow> sources s' = sources s"
  "disconnected_one d s = Inr (ok, s') \<Longrightarrow> sources s' = sources s"
  "failed_one f s = Inr (ok, s') \<Longrightarrow> sources s' = sources s"
  by (auto simp: discovered_one_def disconnected_one_def failed_one_def bind_fault_Inr Let_def
      dest!: delete_sources initiate_sources release_sources split: prod.splits option.splits if_splits)

function discovered_loop :: "manager \<Rightarrow> fault + (bool \<times> manager)" where
  "discovered_loop s =
     (case fresh_pop (discovery_cache s) of
        (None, c) \<Rightarrow> Inr (False, s)
      | (Some new_endpoint, c) \<Rightarrow>
          bind_fault (discovered_one new_endpoint (s\<lparr>discovery_cache := c\<rparr>)) (\<lambda>(ok, s).
            if ok then Inr (True, s) else discovered_loop s))"
  by pat_completeness auto
termination
  by (relation "measure (\<lambda>s. cache_size (discovery_cache s))")
    (auto dest!: one_sources fresh_pop_shrinks simp: sources_def)

definition discovered_peer_scheduler :: "manager \<Rightarrow> fault + (bool \<times> manager)" where
  "discovered_peer_scheduler s =
     (if available (connection_pool s) = 0 then Inr (False, s) else discovered_loop s)"

function disconnected_peer_scheduler :: "manager \<Rightarrow> fault + (bool \<times> manager)" where
  "disconnected_peer_scheduler s =
     (case disconnects s of
        [] \<Rightarrow> Inr (False, s)
      | disconnected # queue \<Rightarrow>
          bind_fault (disconnected_one disconnected (s\<lparr>disconnects := queue\<rparr>)) (\<lambda>(ok, s).
            if ok then Inr (True, s) else disconnected_peer_scheduler s))"
  by pat_completeness auto
termination
  by (relation "measure (\<lambda>s. length (disconnects s))")
    (auto dest!: one_sources simp: sources_def)

function failed_peer_scheduler :: "manager \<Rightarrow> fault + (bool \<times> manager)" where
  "failed_peer_scheduler s =
     (case retry_queue s of
        [] \<Rightarrow> Inr (False, s)
      | failed_peer # queue \<Rightarrow>
          bind_fault (failed_one failed_peer (s\<lparr>retry_queue := queue\<rparr>)) (\<lambda>(ok, s).
            if ok then Inr (True, s) else failed_peer_scheduler s))"
  by pat_completeness auto
termination
  by (relation "measure (\<lambda>s. length (retry_queue s))")
    (auto dest!: one_sources simp: sources_def)

declare discovered_loop.simps [simp del] disconnected_peer_scheduler.simps [simp del]
  failed_peer_scheduler.simps [simp del]

text \<open>What is left to look at: a scheduler that starts a connection has taken something.\<close>

definition items :: "manager \<Rightarrow> nat" where
  "items s = cache_size (discovery_cache s) + length (disconnects s) + length (retry_queue s)"

definition took :: "manager \<Rightarrow> bool \<Rightarrow> manager \<Rightarrow> bool" where
  "took s b s' \<longleftrightarrow> current s' = current s \<and> empties s' = empties s
     \<and> (if b then items s' < items s else items s' \<le> items s)"

lemma discovered_loop_took: "discovered_loop s = Inr (b, s') \<Longrightarrow> took s b s'"
proof (induction s rule: discovered_loop.induct)
  case (1 s)
  obtain e c where pop: "fresh_pop (discovery_cache s) = (e, c)" by fastforce
  show ?case
  proof (cases e)
    case None
    then show ?thesis using 1(2) pop by (simp add: discovered_loop.simps [of s] took_def)
  next
    case (Some x)
    then obtain ok s1 where one: "discovered_one x (s\<lparr>discovery_cache := c\<rparr>) = Inr (ok, s1)"
      and rest: "(if ok then Inr (True, s1) else discovered_loop s1) = Inr (b, s')"
      using 1(2) pop by (auto simp: discovered_loop.simps [of s] bind_fault_Inr)
    from one_sources(1) [OF one] fresh_pop_shrinks [of x c] Some pop
    have "took s True s1" by (auto simp: sources_def took_def items_def)
    then show ?thesis using rest 1(1) [OF pop [symmetric] Some one refl] by (auto simp: took_def split: if_splits)
  qed
qed

lemma disconnected_took: "disconnected_peer_scheduler s = Inr (b, s') \<Longrightarrow> took s b s'"
proof (induction s rule: disconnected_peer_scheduler.induct)
  case (1 s)
  show ?case
  proof (cases "disconnects s")
    case Nil
    then show ?thesis using 1(2) by (simp add: disconnected_peer_scheduler.simps [of s] took_def)
  next
    case (Cons d queue)
    then obtain ok s1 where one: "disconnected_one d (s\<lparr>disconnects := queue\<rparr>) = Inr (ok, s1)"
      and rest: "(if ok then Inr (True, s1) else disconnected_peer_scheduler s1) = Inr (b, s')"
      using 1(2) by (auto simp: disconnected_peer_scheduler.simps [of s] bind_fault_Inr)
    from one_sources(2) [OF one] Cons have "took s True s1" by (auto simp: sources_def took_def items_def)
    then show ?thesis using rest 1(1) [OF Cons one refl] by (auto simp: took_def split: if_splits)
  qed
qed

lemma failed_took: "failed_peer_scheduler s = Inr (b, s') \<Longrightarrow> took s b s'"
proof (induction s rule: failed_peer_scheduler.induct)
  case (1 s)
  show ?case
  proof (cases "retry_queue s")
    case Nil
    then show ?thesis using 1(2) by (simp add: failed_peer_scheduler.simps [of s] took_def)
  next
    case (Cons f queue)
    then obtain ok s1 where one: "failed_one f (s\<lparr>retry_queue := queue\<rparr>) = Inr (ok, s1)"
      and rest: "(if ok then Inr (True, s1) else failed_peer_scheduler s1) = Inr (b, s')"
      using 1(2) by (auto simp: failed_peer_scheduler.simps [of s] bind_fault_Inr)
    from one_sources(3) [OF one] Cons have "took s True s1" by (auto simp: sources_def took_def items_def)
    then show ?thesis using rest 1(1) [OF Cons one refl] by (auto simp: took_def split: if_splits)
  qed
qed

section \<open>The round robin\<close>

definition scheduler_turn :: "manager \<Rightarrow> fault + manager" where
  "scheduler_turn s =
     (case current s of
        Spot_discovered \<Rightarrow> bind_fault (discovered_peer_scheduler s) (\<lambda>(ok, s).
          Inr (s\<lparr>empties := (empties s)(Spot_discovered := \<not> ok), current := Spot_disconnected\<rparr>))
      | Spot_disconnected \<Rightarrow> bind_fault (disconnected_peer_scheduler s) (\<lambda>(ok, s).
          Inr (s\<lparr>empties := (empties s)(Spot_disconnected := \<not> ok), current := Spot_failed\<rparr>))
      | Spot_failed \<Rightarrow> bind_fault (failed_peer_scheduler s) (\<lambda>(ok, s).
          Inr (s\<lparr>empties := (empties s)(Spot_failed := \<not> ok), current := Spot_discovered\<rparr>)))"

text \<open>Turns until every source has been seen empty, when no source has anything.\<close>

definition unseen :: "bool \<Rightarrow> bool \<Rightarrow> bool \<Rightarrow> nat" where
  "unseen a b c = (if \<not> c then 3 else if \<not> b then 2 else if \<not> a then 1 else 0)"

definition turns_left :: "manager \<Rightarrow> nat" where
  "turns_left s =
     (let e = empties s
      in case current s of
           Spot_discovered \<Rightarrow> unseen (e Spot_discovered) (e Spot_disconnected) (e Spot_failed)
         | Spot_disconnected \<Rightarrow> unseen (e Spot_disconnected) (e Spot_failed) (e Spot_discovered)
         | Spot_failed \<Rightarrow> unseen (e Spot_failed) (e Spot_discovered) (e Spot_disconnected))"

definition all_empty :: "manager \<Rightarrow> bool" where
  "all_empty s \<longleftrightarrow> empties s Spot_discovered \<and> empties s Spot_disconnected \<and> empties s Spot_failed"

lemma discovered_took: "discovered_peer_scheduler s = Inr (b, s') \<Longrightarrow> took s b s'"
  by (auto simp: discovered_peer_scheduler_def took_def dest: discovered_loop_took split: if_splits)

lemma scheduler_turn_progress:
  assumes "scheduler_turn s = Inr s'" and "\<not> all_empty s'"
  shows "items s' < items s \<or> items s' = items s \<and> turns_left s' < turns_left s"
  using assms
  by (cases "current s")
    (auto simp: scheduler_turn_def bind_fault_Inr took_def all_empty_def turns_left_def unseen_def items_def Let_def
      dest!: discovered_took disconnected_took failed_took split: if_splits)

function round_robin_establisher_scheduler :: "manager \<Rightarrow> fault + manager" where
  "round_robin_establisher_scheduler s =
     (if inbound_inflight (statistics s) < max_inbound_inflight then
        bind_fault (scheduler_turn s) (\<lambda>s.
          if all_empty s then Inr s else round_robin_establisher_scheduler s)
      else Inr s)"
  by pat_completeness auto
termination
  by (relation "measures [items, turns_left]") (auto dest: scheduler_turn_progress)

declare round_robin_establisher_scheduler.simps [simp del]

section \<open>Discoveries, the server socket and the event loop\<close>

fun drain_loop :: "peer_contact list \<Rightarrow> manager \<Rightarrow> manager" where
  "drain_loop [] s = s"
| "drain_loop (addr # addrs) s =
     drain_loop addrs (s\<lparr>discovered := addrs, discovery_cache := push addr (discovery_cache s),
       statistics := increment_addr_in_cache (statistics s)\<rparr>)"

definition drain_discovered :: "manager \<Rightarrow> manager" where
  "drain_discovered s =
     (let s = drain_loop (discovered s) s
      in if has_met_connection_quota (statistics s) \<or> available (connection_pool s) = 0 then s
         else send_notification s)"

definition notify_disconnected :: "manager \<Rightarrow> manager" where
  "notify_disconnected s = send_notification s"

definition handle_server_errno :: "int \<Rightarrow> bool" where
  "handle_server_errno error =
     (if error = EAGAIN then False
      else if error = EINTR then True
      else if error = ECONNABORTED then True
      else False)"

definition v4_mapped :: "byte list \<Rightarrow> bool" where
  "v4_mapped a \<longleftrightarrow> take 12 a = replicate 10 0 @ [0xFF, 0xFF]"

definition contact_of_store :: "peer_sock_store \<Rightarrow> peer_contact option" where
  "contact_of_store st =
     (if sa_family st = AF_INET6 then
        if v4_mapped (sin6_addr st)
        then Some (new_contact\<lparr>is_v6 := False, n_addr := write_at 0 (subspan 12 4 (sin6_addr st)) (n_addr new_contact),
               n_port := sa_port st\<rparr>)
        else Some (new_contact\<lparr>is_v6 := True, n_addr := sin6_addr st, n_port := sa_port st\<rparr>)
      else if sa_family st = AF_INET then
        Some (new_contact\<lparr>is_v6 := False, n_addr := write_at 0 (sin_addr st) (n_addr new_contact),
               n_port := sa_port st\<rparr>)
      else None)"

text \<open>A contact that connects to us replaces the connection that is registered for it.\<close>

definition replace_old_peer :: "nat \<Rightarrow> manager \<Rightarrow> fault + manager" where
  "replace_old_peer old s =
     (let s = (if state (peer_at s old) \<noteq> CONNECTED then
                 let s = close_peer_socket old s in inflight_resolved (source (peer_at s old)) s
               else s)
      in delete_peer_connection old s)"

definition initialize_server_specifics :: "nat \<Rightarrow> int \<Rightarrow> peer_sock_store \<Rightarrow> manager \<Rightarrow> manager" where
  "initialize_server_specifics i sock st s =
     (let p = peer_at s i in set_peer i (p\<lparr>tcp := (tcp p)\<lparr>tcp_socket := sock\<rparr>, store := st\<rparr>) s)"

definition accept_peer_connection :: "int + (int \<times> peer_sock_store) \<Rightarrow> manager \<Rightarrow> fault + (bool \<times> manager)" where
  "accept_peer_connection accept_return s =
     (case accept_return of
        Inl errno \<Rightarrow> Inr (handle_server_errno errno, s)
      | Inr (fd, new_store) \<Rightarrow>
          bind_fault (open_fd fd (kernel s)) (\<lambda>k.
          let s = s\<lparr>kernel := k\<rparr>
          in if available (connection_pool s) = 0 then Inr (False, s\<lparr>kernel := close_fd fd (kernel s)\<rparr>)
             else
               let s = s\<lparr>statistics := increment_outbound_inflight (statistics s)\<rparr>
               in (case contact_of_store new_store of
                     None \<Rightarrow> Inl Assertion_failed
                   | Some peer_addr \<Rightarrow>
                       (case acquire (connection_pool s) of
                          (None, _) \<Rightarrow> Inl Assertion_failed
                        | (Some acquired_slot, p) \<Rightarrow>
                            let s = s\<lparr>connection_pool := p\<rparr>;
                                key = contact_key peer_addr
                            in bind_fault
                                 (case peers s key of
                                    None \<Rightarrow> Inr (s\<lparr>peers := (peers s)(key \<mapsto> acquired_slot)\<rparr>)
                                  | Some old \<Rightarrow> bind_fault (replace_old_peer old s) (\<lambda>s.
                                      Inr (s\<lparr>peers := (peers s)(key \<mapsto> acquired_slot)\<rparr>)))
                                 (\<lambda>s.
                                   let s = set_peer acquired_slot (initialize_connection peer_addr Tcp_server HANDSHAKE
                                             (peer_at s acquired_slot)) s;
                                       s = initialize_server_specifics acquired_slot fd new_store s
                                   in Inr (True, arm_connection_watchers acquired_slot {EV_READ} s))))))"

text \<open>The loop of the server's callback, over the answers of its calls of \<open>accept4\<close>.\<close>

fun server_socket_callback :: "(int + (int \<times> peer_sock_store)) list \<Rightarrow> manager \<Rightarrow> fault + manager" where
  "server_socket_callback answers s =
     (if \<not> has_met_connection_quota (statistics s) \<and> outbound_inflight (statistics s) < max_outbound_inflight then
        (case answers of
           [] \<Rightarrow> Inl Kernel_silent
         | accept_return # answers \<Rightarrow>
             bind_fault (accept_peer_connection accept_return s) (\<lambda>(pending_accepts, s).
               if pending_accepts then server_socket_callback answers s else Inr s))
      else Inr s)"

declare server_socket_callback.simps [simp del]

section \<open>Setting up the server socket\<close>

definition ENOMEM :: int where "ENOMEM = 12"
definition ENODEV :: int where "ENODEV = 19"
definition EADDRINUSE :: int where "EADDRINUSE = 98"

record tcp_server_context =
  server_socket :: int
  server_store :: peer_sock_store
  store_len :: nat
  ipv4_support :: bool
  port :: nat

text \<open>
  The answers of the calls, in the order of the code: the two calls of \<open>socket\<close>,
  \<open>setsockopt\<close>, every call of \<open>bind\<close>, \<open>getsockname\<close> (the port it reports) and \<open>listen\<close>.
\<close>

record server_answers =
  socket6_answer :: "int + int"
  socket4_answer :: "int + int"
  v6only_answer :: "int + unit"
  bind_answers :: "(int + unit) list"
  sockname_answer :: "int + 16 word"
  listen_answer :: "int + unit"

definition ipv6_default_server_sockstore :: "tcp_server_context \<Rightarrow> tcp_server_context" where
  "ipv6_default_server_sockstore server =
     server\<lparr>server_store := zero_store\<lparr>sa_family := AF_INET6\<rparr>, store_len := 28\<rparr>"

definition ipv4_default_server_sockstore :: "tcp_server_context \<Rightarrow> tcp_server_context" where
  "ipv4_default_server_sockstore server =
     server\<lparr>server_store := zero_store\<lparr>sa_family := AF_INET\<rparr>, store_len := 16\<rparr>"

definition handle_socket_errno :: "int \<Rightarrow> int + int \<Rightarrow> tcp_server_context \<Rightarrow> fault + tcp_server_context" where
  "handle_socket_errno error answer server =
     (if error = EAFNOSUPPORT then
        let server = ipv4_default_server_sockstore server
        in (case answer of
              Inl _ \<Rightarrow> Inl (Peer_Manager_SYS_Error error)
            | Inr fd \<Rightarrow> Inr (server\<lparr>server_socket := fd, ipv4_support := True\<rparr>))
      else if error = ENOMEM then Inl (Peer_Manager_SYS_Error error)
      else Inl (Peer_Manager_SYS_Error error))"

definition handle_ip_errno :: "int \<Rightarrow> tcp_server_context \<Rightarrow> fault + tcp_server_context" where
  "handle_ip_errno error server =
     (if error = ENODEV then Inr (server\<lparr>ipv4_support := False\<rparr>) else Inl (Peer_Manager_SYS_Error error))"

definition handle_bind_errno :: "int \<Rightarrow> fault + unit" where
  "handle_bind_errno error = (if error = EADDRINUSE then Inl (Peer_Manager_SYS_Error error)
     else Inl (Peer_Manager_SYS_Error error))"

fun bind_loop :: "(int + unit) list \<Rightarrow> fault + unit" where
  "bind_loop [] = Inl Kernel_silent"
| "bind_loop (Inr _ # answers) = Inr ()"
| "bind_loop (Inl errno # answers) = bind_fault (handle_bind_errno errno) (\<lambda>_. bind_loop answers)"

definition ntohs :: "16 word \<Rightarrow> 16 word" where
  "ntohs w = push_bit 8 w OR drop_bit 8 w"

definition initialize_server_socket :: "server_answers \<Rightarrow> tcp_server_context \<Rightarrow> fault + tcp_server_context" where
  "initialize_server_socket os server =
     (let server = ipv6_default_server_sockstore server
      in bind_fault (case socket6_answer os of
             Inr fd \<Rightarrow> Inr (server\<lparr>server_socket := fd\<rparr>)
           | Inl errno \<Rightarrow> handle_socket_errno errno (socket4_answer os) (server\<lparr>server_socket := - 1\<rparr>)) (\<lambda>server.
         bind_fault (if sa_family (server_store server) = AF_INET6 then
             (case v6only_answer os of
                Inr _ \<Rightarrow> Inr (server\<lparr>ipv4_support := True\<rparr>)
              | Inl errno \<Rightarrow> handle_ip_errno errno server)
             else Inr server) (\<lambda>server.
         let server = (if sa_family (server_store server) = AF_INET6
               then server\<lparr>server_store := (server_store server)\<lparr>sin6_addr := replicate 16 0, sa_port := 0\<rparr>\<rparr>
               else server\<lparr>server_store := (server_store server)\<lparr>sin_addr := replicate 4 0, sa_port := 0\<rparr>\<rparr>)
         in bind_fault (bind_loop (bind_answers os)) (\<lambda>_.
            (case sockname_answer os of
               Inl errno \<Rightarrow> Inl (Peer_Manager_SYS_Error errno)
             | Inr p \<Rightarrow>
                 let server = server\<lparr>server_store := (server_store server)\<lparr>sa_port := p\<rparr>\<rparr>;
                     server = server\<lparr>port := unat (ntohs (sa_port (server_store server)))\<rparr>
                 in (case listen_answer os of
                       Inl errno \<Rightarrow> Inl (Peer_Manager_SYS_Error errno)
                     | Inr _ \<Rightarrow> Inr server))))))"

definition get_listening_port :: "tcp_server_context \<Rightarrow> nat" where
  "get_listening_port server = port server"

end
