(* ===== verification/ManagerInvariant.thy ===== *)
theory ManagerInvariant
  imports PeerConnectionManager
begin

text \<open>
  The invariant of the connection manager and its preservation by the callbacks of the event
  loop.  A slot is \<open>detached\<close> while a callback has taken it out of the accounting (between
  resolving it in the counters and filing it again); the invariant is stated for any set of
  detached slots, so that the callbacks' proofs are sequences of detaching, updating and
  attaching steps.
\<close>

section \<open>Single connections\<close>

datatype phase = Inbound | Outbound | Linked | Broken | Waiting

definition phase :: "PeerConnection \<Rightarrow> phase" where
  "phase p =
     (if state p = CONNECTED then Linked
      else if state p = FAILED then Broken
      else if state p = TRANSPORT \<and> tcp_socket (tcp p) = - 1 then Waiting
      else if source p = Tcp_server then Outbound
      else Inbound)"

definition contact_ok :: "peer_contact \<Rightarrow> bool" where
  "contact_ok c \<longleftrightarrow> length (n_addr c) = 16 \<and> (\<forall>x. peer_id c = Some x \<longrightarrow> length x = 20)"

definition buffers_ok :: "PeerConnection \<Rightarrow> bool" where
  "buffers_ok p \<longleftrightarrow> ring_valid (recv_buffer p) \<and> capacity (recv_buffer p) = 68
     \<and> ring_valid (send_buffer p) \<and> capacity (send_buffer p) = 68"

definition buffers_empty :: "PeerConnection \<Rightarrow> bool" where
  "buffers_empty p \<longleftrightarrow> readable (recv_buffer p) = 0 \<and> readable (send_buffer p) = 0"

definition io_quiet :: "PeerConnection \<Rightarrow> bool" where
  "io_quiet p \<longleftrightarrow> \<not> io_active (for_sock p) \<and> io_pending (for_sock p) = {}"

definition loose :: "PeerConnection \<Rightarrow> bool" where
  "loose p \<longleftrightarrow> buffers_ok p \<and> contact_ok (contact p) \<and> source p \<noteq> Source_null \<and> failures p \<le> max_reties"

definition blank :: "PeerConnection \<Rightarrow> bool" where
  "blank p \<longleftrightarrow> buffers_ok p \<and> buffers_empty p \<and> tcp_socket (tcp p) = - 1 \<and> state p = State_null
     \<and> source p = Source_null \<and> failures p = 0 \<and> io_quiet p \<and> \<not> timer_active (for_timer p)"

definition in_flight :: "PeerConnection \<Rightarrow> bool" where
  "in_flight p \<longleftrightarrow> tcp_socket (tcp p) \<noteq> - 1 \<and> timer_active (for_timer p)
     \<and> io_active (for_sock p) \<and> io_fd (for_sock p) = tcp_socket (tcp p)
     \<and> io_events (for_sock p) \<in> {{EV_READ}, {EV_WRITE}}
     \<and> (io_pending (for_sock p) = {} \<or> io_pending (for_sock p) = {EV_WRITE} \<and> source p = Tracker \<and> state p = HANDSHAKE)
     \<and> (state p = TRANSPORT \<and> source p = Tracker \<and> buffers_empty p
        \<or> state p = HANDSHAKE \<and>
          (source p = Tcp_server \<longrightarrow> io_events (for_sock p) = {EV_READ} \<longrightarrow> readable (send_buffer p) = 0))"

definition conn_ok :: "PeerConnection \<Rightarrow> bool" where
  "conn_ok p \<longleftrightarrow> failures p < max_reties \<and>
     (case phase p of
        Linked \<Rightarrow> tcp_socket (tcp p) \<noteq> - 1 \<and> io_quiet p \<and> \<not> timer_active (for_timer p)
      | Broken \<Rightarrow> tcp_socket (tcp p) = - 1 \<and> source p = Tracker \<and> buffers_empty p \<and> io_quiet p
          \<and> timer_active (for_timer p)
      | Waiting \<Rightarrow> tcp_socket (tcp p) = - 1 \<and> source p = Tracker \<and> buffers_empty p \<and> io_quiet p
          \<and> \<not> timer_active (for_timer p)
      | Inbound \<Rightarrow> in_flight p
      | Outbound \<Rightarrow> in_flight p)"

section \<open>The manager\<close>

abbreviation live :: "manager \<Rightarrow> nat set" where
  "live s \<equiv> live_slots (connection_pool s)"

abbreviation socket_at :: "manager \<Rightarrow> nat \<Rightarrow> int" where
  "socket_at s i \<equiv> tcp_socket (tcp (peer_at s i))"

definition slots_inv :: "manager \<Rightarrow> bool" where
  "slots_inv s \<longleftrightarrow> pool_valid (connection_pool s) \<and> length (pool (connection_pool s)) = pool_capacity
     \<and> (\<forall>i\<in>live s. loose (peer_at s i))
     \<and> (\<forall>i<pool_capacity. i \<notin> live s \<longrightarrow> blank (peer_at s i))"

definition table_inv :: "manager \<Rightarrow> bool" where
  "table_inv s \<longleftrightarrow> indexes (\<lambda>i. contact_key (contact (peer_at s i))) (live s) (peers s)"

definition fds_inv :: "manager \<Rightarrow> bool" where
  "fds_inv s \<longleftrightarrow> distinct (open_fds (kernel s)) \<and> - 1 \<notin> set (open_fds (kernel s))
     \<and> (\<forall>i\<in>live s. socket_at s i \<noteq> - 1 \<longrightarrow> socket_at s i \<in> set (open_fds (kernel s)))
     \<and> (\<forall>fd\<in>set (open_fds (kernel s)). \<exists>i\<in>live s. socket_at s i = fd)
     \<and> (\<forall>i\<in>live s. \<forall>j\<in>live s. socket_at s i = socket_at s j \<longrightarrow> socket_at s i \<noteq> - 1 \<longrightarrow> i = j)"

definition phase_count :: "nat set \<Rightarrow> manager \<Rightarrow> phase \<Rightarrow> nat" where
  "phase_count X s ph = card {i \<in> live s - X. phase (peer_at s i) = ph}"

definition counters_inv :: "nat set \<Rightarrow> manager \<Rightarrow> bool" where
  "counters_inv X s \<longleftrightarrow>
     inbound_inflight (statistics s) = phase_count X s Inbound
     \<and> outbound_inflight (statistics s) = phase_count X s Outbound
     \<and> connected_bittorrent_peers (statistics s) = phase_count X s Linked
     \<and> failed_peers (statistics s) = phase_count X s Broken
     \<and> inbound_inflight (statistics s) \<le> max_inbound_inflight
     \<and> outbound_inflight (statistics s) \<le> max_outbound_inflight
     \<and> connected_bittorrent_peers (statistics s) \<le> healthy_peer_count
     \<and> length (connects s) \<le> connected_bittorrent_peers (statistics s)"

definition retry_inv :: "nat set \<Rightarrow> manager \<Rightarrow> bool" where
  "retry_inv X s \<longleftrightarrow> peers_in_retry (statistics s) = length (retry_queue s)
     \<and> distinct (map connection (retry_queue s))
     \<and> (\<forall>f\<in>set (retry_queue s). connection f \<in> live s - X \<and> phase (peer_at s (connection f)) = Waiting
          \<and> cached_generation f = generation_at s (connection f))
     \<and> (\<forall>i\<in>live s - X. phase (peer_at s i) = Waiting \<longrightarrow> i \<in> connection ` set (retry_queue s))"

definition cache_inv :: "manager \<Rightarrow> bool" where
  "cache_inv s \<longleftrightarrow> cache_valid (discovery_cache s) \<and> length (cache (discovery_cache s)) = cache_capacity
     \<and> ipv4_addr_in_cache (statistics s) = cache_size (discovery_cache s)
     \<and> (\<forall>c\<in>set (elements (discovery_cache s)). contact_ok c) \<and> (\<forall>c\<in>set (discovered s). contact_ok c)"

definition manager_inv :: "nat set \<Rightarrow> manager \<Rightarrow> bool" where
  "manager_inv X s \<longleftrightarrow> slots_inv s \<and> table_inv s \<and> fds_inv s \<and> counters_inv X s \<and> retry_inv X s
     \<and> cache_inv s \<and> (\<forall>i\<in>live s - X. conn_ok (peer_at s i)) \<and> disconnects s = []
     \<and> length (info_hash s) = 20 \<and> length (handshake s) = 68"

lemmas inv_defs = slots_inv_def table_inv_def fds_inv_def counters_inv_def retry_inv_def cache_inv_def

text \<open>A slot whose attempt is counted as in flight, whatever state the callback has left it in.\<close>

definition counted :: "nat \<Rightarrow> manager \<Rightarrow> bool" where
  "counted i s \<longleftrightarrow> i \<in> live s \<and> manager_inv {i} (inflight_resolved (source (peer_at s i)) s)
     \<and> (source (peer_at s i) = Tcp_server \<longrightarrow> 0 < outbound_inflight (statistics s)
          \<and> outbound_inflight (statistics s) \<le> max_outbound_inflight)
     \<and> (source (peer_at s i) = Tracker \<longrightarrow> 0 < inbound_inflight (statistics s)
          \<and> inbound_inflight (statistics s) \<le> max_inbound_inflight)
     \<and> failures (peer_at s i) < max_reties"

section \<open>Reading and writing slots\<close>

lemma pool_set_object [simp]:
  "length (pool (set_object i x p)) = length (pool p)"
  "live_slots (set_object i x p) = live_slots p"
  "available_slots (set_object i x p) = available_slots p"
  "occupied (set_object i x p) = occupied p"
  "pool_valid (set_object i x p) = pool_valid p"
  "available (set_object i x p) = available p"
  by (simp_all add: set_object_def live_slots_def pool_valid_def available_def)

lemma object_set_object:
  "i < length (pool p) \<Longrightarrow> object (pool (set_object i x p) ! j) = (if j = i then x else object (pool p ! j))"
  by (simp add: set_object_def)

lemma generation_set_object: "generation (pool (set_object i x p) ! j) = generation (pool p ! j)"
  by (cases "i < length (pool p)"; cases "i = j") (simp_all add: set_object_def not_less list_update_beyond)

lemma set_object_twice [simp]: "set_object i x (set_object i y p) = set_object i x p"
  by (cases "i < length (pool p)") (simp_all add: set_object_def not_less list_update_beyond)

lemma set_peer_select [simp]:
  "kernel (set_peer i p s) = kernel s" "statistics (set_peer i p s) = statistics s"
  "live (set_peer i p s) = live s" "peers (set_peer i p s) = peers s"
  "disconnects (set_peer i p s) = disconnects s" "discovered (set_peer i p s) = discovered s"
  "discovery_cache (set_peer i p s) = discovery_cache s" "retry_queue (set_peer i p s) = retry_queue s"
  "connects (set_peer i p s) = connects s" "info_hash (set_peer i p s) = info_hash s"
  "handshake (set_peer i p s) = handshake s" "daemon_pending (set_peer i p s) = daemon_pending s"
  "generation_at (set_peer i p s) j = generation_at s j"
  "length (pool (connection_pool (set_peer i p s))) = length (pool (connection_pool s))"
  "pool_valid (connection_pool (set_peer i p s)) = pool_valid (connection_pool s)"
  "available (connection_pool (set_peer i p s)) = available (connection_pool s)"
  by (simp_all add: set_peer_def generation_at_def generation_set_object)

lemma set_peer_twice [simp]: "set_peer i p (set_peer i q s) = set_peer i p s"
  by (simp add: set_peer_def)

lemma set_peer_update [simp]:
  "(set_peer i p s)\<lparr>kernel := k\<rparr> = set_peer i p (s\<lparr>kernel := k\<rparr>)"
  "(set_peer i p s)\<lparr>statistics := c\<rparr> = set_peer i p (s\<lparr>statistics := c\<rparr>)"
  "(set_peer i p s)\<lparr>daemon_pending := d\<rparr> = set_peer i p (s\<lparr>daemon_pending := d\<rparr>)"
  "(set_peer i p s)\<lparr>peers := m\<rparr> = set_peer i p (s\<lparr>peers := m\<rparr>)"
  "(set_peer i p s)\<lparr>retry_queue := r\<rparr> = set_peer i p (s\<lparr>retry_queue := r\<rparr>)"
  "(set_peer i p s)\<lparr>connects := q\<rparr> = set_peer i p (s\<lparr>connects := q\<rparr>)"
  "inflight_resolved src (set_peer i p s) = set_peer i p (inflight_resolved src s)"
  by (simp_all add: set_peer_def inflight_resolved_def send_notification_def)

lemma peer_at_update [simp]:
  "peer_at (s\<lparr>kernel := k\<rparr>) j = peer_at s j" "peer_at (s\<lparr>statistics := c\<rparr>) j = peer_at s j"
  "peer_at (s\<lparr>daemon_pending := d\<rparr>) j = peer_at s j" "peer_at (s\<lparr>peers := m\<rparr>) j = peer_at s j"
  "peer_at (s\<lparr>retry_queue := r\<rparr>) j = peer_at s j" "peer_at (s\<lparr>connects := q\<rparr>) j = peer_at s j"
  "peer_at (s\<lparr>discovery_cache := dc\<rparr>) j = peer_at s j" "peer_at (s\<lparr>discovered := ds\<rparr>) j = peer_at s j"
  "generation_at (s\<lparr>kernel := k\<rparr>) j = generation_at s j" "generation_at (s\<lparr>statistics := c\<rparr>) j = generation_at s j"
  "generation_at (s\<lparr>daemon_pending := d\<rparr>) j = generation_at s j" "generation_at (s\<lparr>peers := m\<rparr>) j = generation_at s j"
  "generation_at (s\<lparr>retry_queue := r\<rparr>) j = generation_at s j" "generation_at (s\<lparr>connects := q\<rparr>) j = generation_at s j"
  "generation_at (s\<lparr>discovery_cache := dc\<rparr>) j = generation_at s j" "generation_at (s\<lparr>discovered := ds\<rparr>) j = generation_at s j"
  by (simp_all add: peer_at_def generation_at_def)

lemma resolved_select [simp]:
  "kernel (inflight_resolved src s) = kernel s" "connection_pool (inflight_resolved src s) = connection_pool s"
  "peers (inflight_resolved src s) = peers s" "disconnects (inflight_resolved src s) = disconnects s"
  "discovered (inflight_resolved src s) = discovered s"
  "discovery_cache (inflight_resolved src s) = discovery_cache s"
  "retry_queue (inflight_resolved src s) = retry_queue s" "connects (inflight_resolved src s) = connects s"
  "info_hash (inflight_resolved src s) = info_hash s" "handshake (inflight_resolved src s) = handshake s"
  "peer_at (inflight_resolved src s) j = peer_at s j" "generation_at (inflight_resolved src s) j = generation_at s j"
  "(inflight_resolved src s)\<lparr>kernel := k\<rparr> = inflight_resolved src (s\<lparr>kernel := k\<rparr>)"
  "(inflight_resolved src s)\<lparr>connects := q\<rparr> = inflight_resolved src (s\<lparr>connects := q\<rparr>)"
  by (simp_all add: inflight_resolved_def send_notification_def peer_at_def generation_at_def)

lemma peer_at_set:
  "i < length (pool (connection_pool s)) \<Longrightarrow> peer_at (set_peer i p s) j = (if j = i then p else peer_at s j)"
  by (simp add: peer_at_def set_peer_def object_set_object)

lemma live_bound: "i \<in> live s \<Longrightarrow> i < length (pool (connection_pool s))"
  by (simp add: live_slots_def)

lemma peer_at_set_live [simp]:
  "i \<in> live s \<Longrightarrow> peer_at (set_peer i p s) j = (if j = i then p else peer_at s j)"
  by (rule peer_at_set) (rule live_bound)

lemma live_pool [simp]: "manager_inv X s \<Longrightarrow> length (pool (connection_pool s)) = pool_capacity"
  by (simp add: manager_inv_def slots_inv_def)

lemma inv_loose: "manager_inv X s \<Longrightarrow> i \<in> live s \<Longrightarrow> loose (peer_at s i)"
  by (simp add: manager_inv_def slots_inv_def)

lemma inv_conn_ok: "manager_inv X s \<Longrightarrow> i \<in> live s - X \<Longrightarrow> conn_ok (peer_at s i)"
  by (simp add: manager_inv_def)

section \<open>Counting\<close>

lemma phase_count_less: "phase_count X s ph \<le> length (pool (connection_pool s))"
proof -
  have "{i \<in> live s - X. phase (peer_at s i) = ph} \<subseteq> {..<length (pool (connection_pool s))}"
    by (auto simp: live_slots_def)
  from card_mono [OF _ this] show ?thesis by (simp add: phase_count_def)
qed

lemma phase_count_insert:
  assumes "i \<in> live s - X"
  shows "phase_count X s ph = phase_count (insert i X) s ph + of_bool (phase (peer_at s i) = ph)"
proof -
  have "{j \<in> live s - X. phase (peer_at s j) = ph} =
      (if phase (peer_at s i) = ph then insert i {j \<in> live s - insert i X. phase (peer_at s j) = ph}
       else {j \<in> live s - insert i X. phase (peer_at s j) = ph})"
    using assms by auto
  then show ?thesis by (simp add: phase_count_def card_insert_if)
qed

lemma phase_count_cong:
  "live s' = live s \<Longrightarrow> (\<And>i. i \<in> live s - X \<Longrightarrow> phase (peer_at s' i) = phase (peer_at s i)) \<Longrightarrow>
     phase_count X s' ph = phase_count X s ph"
  unfolding phase_count_def by (rule arg_cong [of _ _ card]) auto

text \<open>The counter of a phase goes down when a slot is detached and up when it is attached.\<close>

fun uncount :: "phase \<Rightarrow> connection_statistics \<Rightarrow> connection_statistics" where
  "uncount Inbound = single_inbound_resolved"
| "uncount Outbound = single_outbound_resolved"
| "uncount Linked = decrement_connected"
| "uncount Broken = decrement_failed"
| "uncount Waiting = id"

fun recount :: "phase \<Rightarrow> connection_statistics \<Rightarrow> connection_statistics" where
  "recount Inbound = increment_inbound_inflight"
| "recount Outbound = increment_outbound_inflight"
| "recount Linked = increment_connected"
| "recount Broken = increment_failed"
| "recount Waiting = id"

fun below_limit :: "phase \<Rightarrow> connection_statistics \<Rightarrow> bool" where
  "below_limit Inbound c = (inbound_inflight c < max_inbound_inflight)"
| "below_limit Outbound c = (outbound_inflight c < max_outbound_inflight)"
| "below_limit Linked c = (connected_bittorrent_peers c < healthy_peer_count)"
| "below_limit Broken c = True"
| "below_limit Waiting c = True"

lemmas counting = single_inbound_resolved_def single_outbound_resolved_def decrement_connected_def
  decrement_failed_def increment_inbound_inflight_def increment_outbound_inflight_def
  increment_connected_def increment_failed_def

lemma sz_step:
  "n < 2 ^ 63 \<Longrightarrow> sz_add n (Suc 0) = Suc n" "0 < n \<Longrightarrow> n < 2 ^ 63 \<Longrightarrow> sz_sub n (Suc 0) = n - Suc 0"
  by (simp_all add: sz_add_id sz_sub_id sz_modulus_def)

lemma statistics_frame [simp]:
  "slots_inv (s\<lparr>statistics := c\<rparr>) = slots_inv s" "table_inv (s\<lparr>statistics := c\<rparr>) = table_inv s"
  "fds_inv (s\<lparr>statistics := c\<rparr>) = fds_inv s"
  by (simp_all add: slots_inv_def table_inv_def fds_inv_def)

lemma uncount_select [simp]:
  "peers_in_retry (uncount ph c) = peers_in_retry c" "ipv4_addr_in_cache (uncount ph c) = ipv4_addr_in_cache c"
  "peers_in_retry (recount ph c) = peers_in_retry c" "ipv4_addr_in_cache (recount ph c) = ipv4_addr_in_cache c"
  by (cases ph; simp add: counting)+

lemma cache_frame [simp]:
  "ipv4_addr_in_cache c = ipv4_addr_in_cache (statistics s) \<Longrightarrow> cache_inv (s\<lparr>statistics := c\<rparr>) = cache_inv s"
  by (simp add: cache_inv_def)

lemma retry_detach:
  assumes "retry_inv X s" and "phase (peer_at s i) \<noteq> Waiting" and "peers_in_retry c = peers_in_retry (statistics s)"
  shows "retry_inv (insert i X) (s\<lparr>statistics := c\<rparr>)" and "retry_inv (X - {i}) (s\<lparr>statistics := c\<rparr>)"
  using assms unfolding retry_inv_def by (simp_all, blast+)

lemma detach:
  assumes inv: "manager_inv X s" and i: "i \<in> live s - X"
    and ph: "phase (peer_at s i) \<in> {Inbound, Outbound, Broken}"
  shows "manager_inv (insert i X) (s\<lparr>statistics := uncount (phase (peer_at s i)) (statistics s)\<rparr>)"
proof -
  have N: "length (pool (connection_pool s)) < 2 ^ 63" using inv by (simp add: pool_capacity_def)
  have small: "phase_count X s q < 2 ^ 63" for q using phase_count_less [of X s q] N by linarith
  have count: "phase_count X s q = phase_count (insert i X) s q + of_bool (phase (peer_at s i) = q)" for q
    using i by (rule phase_count_insert)
  have same: "phase_count (insert i X) (s\<lparr>statistics := c\<rparr>) q = phase_count (insert i X) s q" for c q
    by (rule phase_count_cong) simp_all
  have "counters_inv (insert i X) (s\<lparr>statistics := uncount (phase (peer_at s i)) (statistics s)\<rparr>)"
    using inv ph small [of Inbound] small [of Outbound] small [of Broken]
      count [of Inbound] count [of Outbound] count [of Broken] count [of Linked]
    by (auto simp: manager_inv_def counters_inv_def counting same sz_step)
  moreover have "retry_inv (insert i X) (s\<lparr>statistics := uncount (phase (peer_at s i)) (statistics s)\<rparr>)"
    using inv ph by (intro retry_detach) (auto simp: manager_inv_def)
  ultimately show ?thesis using inv by (simp add: manager_inv_def)
qed

lemma attach:
  assumes inv: "manager_inv X s" and i: "i \<in> live s" "i \<in> X" and ok: "conn_ok (peer_at s i)"
    and ph: "phase (peer_at s i) \<noteq> Waiting" and room: "below_limit (phase (peer_at s i)) (statistics s)"
  shows "manager_inv (X - {i}) (s\<lparr>statistics := recount (phase (peer_at s i)) (statistics s)\<rparr>)"
proof -
  have N: "length (pool (connection_pool s)) < 2 ^ 63" using inv by (simp add: pool_capacity_def)
  have small: "phase_count X s q < 2 ^ 63" for q using phase_count_less [of X s q] N by linarith
  have "insert i (X - {i}) = X" using i by blast
  then have count: "phase_count (X - {i}) s q = phase_count X s q + of_bool (phase (peer_at s i) = q)" for q
    using phase_count_insert [of i s "X - {i}"] i by simp
  have same: "phase_count (X - {i}) (s\<lparr>statistics := c\<rparr>) q = phase_count (X - {i}) s q" for c q
    by (rule phase_count_cong) simp_all
  have "counters_inv (X - {i}) (s\<lparr>statistics := recount (phase (peer_at s i)) (statistics s)\<rparr>)"
    using inv ph room small [of Inbound] small [of Outbound] small [of Broken] small [of Linked]
      count [of Inbound] count [of Outbound] count [of Broken] count [of Linked]
    by (cases "phase (peer_at s i)") (auto simp: manager_inv_def counters_inv_def counting same sz_step)
  moreover have "retry_inv (X - {i}) (s\<lparr>statistics := recount (phase (peer_at s i)) (statistics s)\<rparr>)"
    using inv ph by (intro retry_detach) (auto simp: manager_inv_def)
  moreover have "\<forall>j\<in>live s - (X - {i}). conn_ok (peer_at s j)" using inv ok by (auto simp: manager_inv_def)
  ultimately show ?thesis using inv by (simp add: manager_inv_def)
qed

section \<open>Updates that keep the invariant\<close>

lemma kernel_frame:
  assumes "open_fds k = open_fds (kernel s)"
  shows "manager_inv X (s\<lparr>kernel := k\<rparr>) = manager_inv X s"
proof -
  have count: "phase_count X (s\<lparr>kernel := k\<rparr>) q = phase_count X s q" for q by (rule phase_count_cong) simp_all
  show ?thesis using assms unfolding manager_inv_def inv_defs count by simp
qed

lemma daemon_frame [simp]: "manager_inv X (s\<lparr>daemon_pending := d\<rparr>) = manager_inv X s"
proof -
  have count: "phase_count X (s\<lparr>daemon_pending := d\<rparr>) q = phase_count X s q" for q by (rule phase_count_cong) simp_all
  show ?thesis unfolding manager_inv_def inv_defs count by simp
qed

lemma notify_frame [simp]: "manager_inv X (send_notification s) = manager_inv X s"
  by (simp add: send_notification_def)

lemma connects_frame:
  assumes "length q \<le> connected_bittorrent_peers (statistics s)" and "manager_inv X s"
  shows "manager_inv X (s\<lparr>connects := q\<rparr>)"
proof -
  have count: "phase_count X (s\<lparr>connects := q\<rparr>) r = phase_count X s r" for r by (rule phase_count_cong) simp_all
  show ?thesis using assms unfolding manager_inv_def inv_defs count by simp
qed

text \<open>The parts of the invariant that look at the slots, after a write to one of them.\<close>

lemma set_slots:
  assumes "slots_inv s" and "i \<in> live s" and "loose p"
  shows "slots_inv (set_peer i p s)"
  using assms by (auto simp: slots_inv_def)

lemma set_table:
  assumes "table_inv s" and "i \<in> live s" and "contact_key (contact p) = contact_key (contact (peer_at s i))"
  shows "table_inv (set_peer i p s)"
  using assms indexes_cong [of "live s" "\<lambda>j. contact_key (contact (peer_at (set_peer i p s) j))"
      "\<lambda>j. contact_key (contact (peer_at s j))"] by (simp add: table_inv_def)

lemma set_fds:
  assumes "fds_inv s" and "i \<in> live s" and "tcp_socket (tcp p) = socket_at s i"
  shows "fds_inv (set_peer i p s)"
proof -
  have "socket_at (set_peer i p s) j = socket_at s j" for j using assms(2,3) by simp
  with assms(1) show ?thesis unfolding fds_inv_def set_peer_select by presburger
qed

lemma set_counters:
  assumes "counters_inv X s" and "i \<in> live s" and "i \<notin> X \<longrightarrow> phase p = phase (peer_at s i)"
  shows "counters_inv X (set_peer i p s)"
proof -
  have "phase_count X (set_peer i p s) q = phase_count X s q" for q
    using assms(2,3) by (intro phase_count_cong) auto
  with assms(1) show ?thesis by (simp add: counters_inv_def)
qed

lemma set_retry:
  assumes "retry_inv X s" and "i \<in> live s" and "i \<notin> X \<longrightarrow> phase p = phase (peer_at s i)"
  shows "retry_inv X (set_peer i p s)"
proof -
  have same: "phase (peer_at (set_peer i p s) j) = phase (peer_at s j)" if "j \<in> live s - X" for j
    using assms(2,3) that by auto
  have "(\<forall>f\<in>set (retry_queue s). connection f \<in> live s - X \<and> phase (peer_at (set_peer i p s) (connection f)) = Waiting
      \<and> cached_generation f = generation_at s (connection f)) \<longleftrightarrow>
    (\<forall>f\<in>set (retry_queue s). connection f \<in> live s - X \<and> phase (peer_at s (connection f)) = Waiting
      \<and> cached_generation f = generation_at s (connection f))"
    using same by metis
  moreover have "(\<forall>j\<in>live s - X. phase (peer_at (set_peer i p s) j) = Waiting \<longrightarrow> j \<in> connection ` set (retry_queue s)) \<longleftrightarrow>
    (\<forall>j\<in>live s - X. phase (peer_at s j) = Waiting \<longrightarrow> j \<in> connection ` set (retry_queue s))"
    using same by metis
  ultimately show ?thesis using assms(1) unfolding retry_inv_def set_peer_select by argo
qed

lemma set_cache: "cache_inv s \<Longrightarrow> cache_inv (set_peer i p s)"
  by (simp add: cache_inv_def)

lemma set_peer_inv:
  assumes inv: "manager_inv X s" and i: "i \<in> live s" and loose: "loose p"
    and key: "contact_key (contact p) = contact_key (contact (peer_at s i))"
    and sock: "tcp_socket (tcp p) = socket_at s i"
    and ph: "i \<notin> X \<longrightarrow> phase p = phase (peer_at s i) \<and> conn_ok p"
  shows "manager_inv X (set_peer i p s)"
  using assms set_slots set_table set_fds set_counters set_retry set_cache
  unfolding manager_inv_def by (auto split: if_splits)

text \<open>A detached slot may lose or gain its descriptor.\<close>

lemma set_socket_inv:
  assumes inv: "manager_inv X s" and i: "i \<in> live s" "i \<in> X" and loose: "loose p"
    and key: "contact_key (contact p) = contact_key (contact (peer_at s i))"
    and fds: "fds_inv (set_peer i p (s\<lparr>kernel := k\<rparr>))"
  shows "manager_inv X (set_peer i p (s\<lparr>kernel := k\<rparr>))"
proof -
  have count: "phase_count X (s\<lparr>kernel := k\<rparr>) q = phase_count X s q" for q by (rule phase_count_cong) simp_all
  let ?s = "s\<lparr>kernel := k\<rparr>"
  have parts: "slots_inv ?s" "table_inv ?s" "counters_inv X ?s" "retry_inv X ?s" "cache_inv ?s"
    using inv by (simp_all add: manager_inv_def inv_defs count)
  have "slots_inv (set_peer i p ?s)" using set_slots [of ?s i p] parts i loose by simp
  moreover have "table_inv (set_peer i p ?s)" using set_table [of ?s i p] parts i key by simp
  moreover have "counters_inv X (set_peer i p ?s)" using set_counters [of X ?s i p] parts i by simp
  moreover have "retry_inv X (set_peer i p ?s)" using set_retry [of X ?s i p] parts i by simp
  moreover have "cache_inv (set_peer i p ?s)" using set_cache [of ?s i p] parts by simp
  ultimately show ?thesis using inv i fds by (auto simp: manager_inv_def split: if_splits)
qed

lemma closed_fds:
  assumes inv: "fds_inv s" and i: "i \<in> live s" and p: "tcp_socket (tcp p) = - 1"
    and k: "open_fds k = (if socket_at s i = - 1 then open_fds (kernel s) else remove1 (socket_at s i) (open_fds (kernel s)))"
  shows "fds_inv (set_peer i p (s\<lparr>kernel := k\<rparr>))"
proof -
  have own: "j = i" if "j \<in> live s" "socket_at s j = socket_at s i" "socket_at s i \<noteq> - 1" for j
    using inv i that by (auto simp: fds_inv_def)
  have no: "- 1 \<notin> set (open_fds (kernel s))" "distinct (open_fds (kernel s))" using inv by (auto simp: fds_inv_def)
  have set: "set (open_fds k) = set (open_fds (kernel s)) - {socket_at s i}" "distinct (open_fds k)"
    using k no by (auto simp: set_remove1_eq)
  show ?thesis
    using inv i p own no set unfolding fds_inv_def by (auto 4 4 split: if_splits)
qed

lemma opened_fds:
  assumes inv: "fds_inv s" and i: "i \<in> live s" "socket_at s i = - 1" and p: "tcp_socket (tcp p) = fd"
    and fd: "0 \<le> fd" "fd \<notin> set (open_fds (kernel s))" and k: "open_fds k = fd # open_fds (kernel s)"
  shows "fds_inv (set_peer i p (s\<lparr>kernel := k\<rparr>))"
proof -
  let ?s = "set_peer i p (s\<lparr>kernel := k\<rparr>)"
  have sock: "socket_at ?s j = (if j = i then fd else socket_at s j)" for j using i p by simp
  have other: "socket_at s j \<noteq> fd" if "j \<in> live s" for j
    using inv that fd by (fastforce simp: fds_inv_def)
  have fds: "open_fds (kernel ?s) = fd # open_fds (kernel s)" "live ?s = live s" using k by simp_all
  have owner: "\<exists>j\<in>live s. socket_at ?s j = x" if "x \<in> set (fd # open_fds (kernel s))" for x
  proof (cases "x = fd")
    case True
    then show ?thesis using i by (intro bexI [of _ i]) (simp_all add: p)
  next
    case False
    then have "x \<in> set (open_fds (kernel s))" using that by simp
    then obtain j where "j \<in> live s" "socket_at s j = x" using inv unfolding fds_inv_def by blast
    moreover have "x \<noteq> - 1" using inv that False by (auto simp: fds_inv_def)
    ultimately show ?thesis using sock i by metis
  qed
  have inj: "a = b" if "a \<in> live s" "b \<in> live s" "socket_at ?s a = socket_at ?s b" "socket_at ?s a \<noteq> - 1" for a b
  proof (cases "a = i \<or> b = i")
    case True
    then show ?thesis using that(3) other [OF that(1)] other [OF that(2)] unfolding sock by metis
  next
    case False
    then have "socket_at s a = socket_at s b" "socket_at s a \<noteq> - 1" using that(3,4) unfolding sock by simp_all
    then show ?thesis using inv that(1,2) unfolding fds_inv_def by blast
  qed
  have inv_s: "distinct (open_fds (kernel s))" "- 1 \<notin> set (open_fds (kernel s))"
    "\<forall>j\<in>live s. socket_at s j \<noteq> - 1 \<longrightarrow> socket_at s j \<in> set (open_fds (kernel s))"
    using inv unfolding fds_inv_def by blast+
  show ?thesis
    unfolding fds_inv_def fds
  proof (intro conjI)
    show "distinct (fd # open_fds (kernel s))" "- 1 \<notin> set (fd # open_fds (kernel s))" using inv_s(1,2) fd by auto
    show "\<forall>j\<in>live s. socket_at ?s j \<noteq> - 1 \<longrightarrow> socket_at ?s j \<in> set (fd # open_fds (kernel s))"
      unfolding sock using inv_s(3) by simp
  qed (use owner inj in blast)+
qed

section \<open>Closing, deleting and acquiring\<close>

lemma close_socket_result:
  "close_socket t k = (t\<lparr>tcp_socket := - 1, perrno := - 1\<rparr>,
     if tcp_socket t = - 1 then k else close_fd (tcp_socket t) k)"
  by (cases t) (simp add: close_socket_def)

lemma close_peer_socket_eq:
  "close_peer_socket i s = set_peer i ((peer_at s i)\<lparr>tcp := (tcp (peer_at s i))\<lparr>tcp_socket := - 1, perrno := - 1\<rparr>\<rparr>)
     (s\<lparr>kernel := if socket_at s i = - 1 then kernel s else close_fd (socket_at s i) (kernel s)\<rparr>)"
  by (simp add: close_peer_socket_def close_socket_result)

lemma close_inv:
  assumes inv: "manager_inv X s" and i: "i \<in> live s" "i \<in> X"
  shows "manager_inv X (close_peer_socket i s)"
  unfolding close_peer_socket_eq
proof (rule set_socket_inv [OF inv i])
  show "loose ((peer_at s i)\<lparr>tcp := (tcp (peer_at s i))\<lparr>tcp_socket := - 1, perrno := - 1\<rparr>\<rparr>)"
    using inv_loose [OF inv i(1)] by (simp add: loose_def buffers_ok_def)
  have "fds_inv s" using inv by (simp add: manager_inv_def)
  from closed_fds [OF this i(1), of "(peer_at s i)\<lparr>tcp := (tcp (peer_at s i))\<lparr>tcp_socket := - 1, perrno := - 1\<rparr>\<rparr>"
      "if socket_at s i = - 1 then kernel s else close_fd (socket_at s i) (kernel s)"]
  show "fds_inv (set_peer i ((peer_at s i)\<lparr>tcp := (tcp (peer_at s i))\<lparr>tcp_socket := - 1, perrno := - 1\<rparr>\<rparr>)
     (s\<lparr>kernel := if socket_at s i = - 1 then kernel s else close_fd (socket_at s i) (kernel s)\<rparr>))"
    by (simp add: close_fd_def)
qed simp

lemma reset_ring:
  "ring_valid b \<Longrightarrow> ring_valid (ring_reset b)" "capacity (ring_reset b) = capacity b" "readable (ring_reset b) = 0"
  using reset_valid by (auto simp: ring_reset_def)

lemma teardown_blank:
  assumes "buffers_ok p" and "tcp_socket (tcp p) = - 1"
  shows "\<exists>p'. teardown_connection p = Inr p' \<and> blank p'"
  using assms reset_ring
  by (auto simp: teardown_connection_def watchers_stop_def io_stop_def timer_stop_def blank_def buffers_ok_def
      buffers_empty_def io_quiet_def Let_def)

text \<open>Deleting a detached connection frees its slot and its entry of the table.\<close>

definition freed :: "nat \<Rightarrow> manager \<Rightarrow> manager \<Rightarrow> bool" where
  "freed i s s' \<longleftrightarrow> live s' = live s - {i} \<and> peers s' = (peers s)(contact_key (contact (peer_at s i)) := None)
     \<and> kernel s' = kernel s \<and> statistics s' = statistics s \<and> sources s' = sources s \<and> connects s' = connects s
     \<and> (\<forall>j. j \<noteq> i \<longrightarrow> peer_at s' j = peer_at s j)
     \<and> generation_at s' i = sz_add (generation_at s i) 1 \<and> (\<forall>j. j \<noteq> i \<longrightarrow> generation_at s' j = generation_at s j)
     \<and> available (connection_pool s') = available (connection_pool s) + 1 \<and> blank (peer_at s' i)"

lemma delete_result:
  assumes i: "i \<in> live s" and ok: "buffers_ok (peer_at s i)" and sock: "socket_at s i = - 1"
    and pool: "pool_valid (connection_pool s)"
  shows "\<exists>s'. delete_peer_connection i s = Inr s' \<and> freed i s s' \<and> pool_valid (connection_pool s')
    \<and> length (pool (connection_pool s')) = length (pool (connection_pool s))
    \<and> discovered s' = discovered s \<and> info_hash s' = info_hash s \<and> handshake s' = handshake s"
proof -
  obtain p where p: "teardown_connection (peer_at s i) = Inr p" "blank p" using teardown_blank [OF ok sock] by blast
  let ?cp = "set_object i p (connection_pool s)"
  have live: "i \<in> live_slots ?cp" "pool_valid ?cp" using i pool by simp_all
  obtain q where q: "release i ?cp = Inr q" "pool_valid q" "live_slots q = live s - {i}"
    "length (pool q) = length (pool (connection_pool s))"
    "map generation (pool q) = (map generation (pool ?cp))[i := sz_add (generation (pool ?cp ! i)) 1]"
    "map object (pool q) = map object (pool ?cp)" "available_slots q = available_slots ?cp @ [i]"
    using release_live_pool [OF live(2,1)] by auto
  let ?s = "s\<lparr>peers := (peers s)(contact_key (contact (peer_at s i)) := None), connection_pool := q\<rparr>"
  have del: "delete_peer_connection i s = Inr ?s"
    using p(1) q(1) by (simp add: delete_peer_connection_def deregister_from_map_def release_slot_def set_peer_def peer_at_def Let_def)
  have bound: "i < length (pool (connection_pool s))" using i by (rule live_bound)
  have out: "pool q ! j = pool (connection_pool s) ! j" if "\<not> j < length (pool (connection_pool s))" for j
    using that q(1) bound by (auto simp: release_def Let_def set_object_def split: if_splits)
  have obj: "object (pool q ! j) = (if j = i then p else object (pool (connection_pool s) ! j))" for j
  proof (cases "j < length (pool (connection_pool s))")
    case True
    then show ?thesis using arg_cong [OF q(6), of "\<lambda>xs. xs ! j"] q(4) bound by (simp add: object_set_object)
  next
    case False
    then show ?thesis using out bound by auto
  qed
  have gen: "generation (pool q ! j) = (if j = i then sz_add (generation (pool (connection_pool s) ! i)) 1
      else generation (pool (connection_pool s) ! j))" for j
  proof (cases "j < length (pool (connection_pool s))")
    case True
    then show ?thesis using arg_cong [OF q(5), of "\<lambda>xs. xs ! j"] q(4) bound
      by (auto simp: nth_list_update generation_set_object)
  next
    case False
    then show ?thesis using out bound by auto
  qed
  have "freed i s ?s"
    unfolding freed_def
    using q(3,7) p(2) obj gen by (simp add: peer_at_def generation_at_def sources_def available_def)
  with del q show ?thesis by auto
qed

lemma blank_loose: "blank p \<Longrightarrow> source p' \<noteq> Source_null \<Longrightarrow> contact_ok (contact p') \<Longrightarrow> failures p' \<le> max_reties \<Longrightarrow>
    recv_buffer p' = recv_buffer p \<Longrightarrow> send_buffer p' = send_buffer p \<Longrightarrow> loose p'"
  by (simp add: blank_def loose_def buffers_ok_def)

text \<open>Slots without a descriptor may come and go.\<close>

lemma fds_owners:
  assumes "fds_inv s" and k: "kernel s' = kernel s"
    and owners: "\<And>j fd. fd \<noteq> - 1 \<Longrightarrow> j \<in> live s' \<and> socket_at s' j = fd \<longleftrightarrow> j \<in> live s \<and> socket_at s j = fd"
  shows "fds_inv s'"
proof -
  have fds: "distinct (open_fds (kernel s))" "- 1 \<notin> set (open_fds (kernel s))"
    "\<And>j. j \<in> live s \<Longrightarrow> socket_at s j \<noteq> - 1 \<Longrightarrow> socket_at s j \<in> set (open_fds (kernel s))"
    "\<And>fd. fd \<in> set (open_fds (kernel s)) \<Longrightarrow> \<exists>j. j \<in> live s \<and> socket_at s j = fd"
    "\<And>a b. a \<in> live s \<Longrightarrow> b \<in> live s \<Longrightarrow> socket_at s a = socket_at s b \<Longrightarrow> socket_at s a \<noteq> - 1 \<Longrightarrow> a = b"
    using assms(1) unfolding fds_inv_def by blast+
  show ?thesis
    unfolding fds_inv_def k
  proof (intro conjI ballI impI)
    fix j assume "j \<in> live s'" "socket_at s' j \<noteq> - 1"
    with owners [of "socket_at s' j" j] fds(3) [of j] show "socket_at s' j \<in> set (open_fds (kernel s))" by simp
  next
    fix fd assume fd: "fd \<in> set (open_fds (kernel s))"
    then obtain j where "j \<in> live s \<and> socket_at s j = fd" using fds(4) by blast
    moreover have "fd \<noteq> - 1" using fd fds(2) by blast
    ultimately show "\<exists>j\<in>live s'. socket_at s' j = fd" using owners by blast
  next
    fix a b assume ab: "a \<in> live s'" "b \<in> live s'" "socket_at s' a = socket_at s' b" "socket_at s' a \<noteq> - 1"
    with owners [of "socket_at s' a" a] owners [of "socket_at s' a" b] fds(5) [of a b] show "a = b" by simp
  qed (use fds in blast)+
qed

lemma delete_inv:
  assumes inv: "manager_inv X s" and i: "i \<in> live s" "i \<in> X" and sock: "socket_at s i = - 1"
  shows "\<exists>s'. delete_peer_connection i s = Inr s' \<and> manager_inv (X - {i}) s' \<and> freed i s s'"
proof -
  have "buffers_ok (peer_at s i)" "pool_valid (connection_pool s)"
    using inv i by (auto simp: manager_inv_def slots_inv_def loose_def)
  from delete_result [OF i(1) this(1) sock this(2)] obtain s' where s': "delete_peer_connection i s = Inr s'"
    "freed i s s'" "pool_valid (connection_pool s')" "length (pool (connection_pool s')) = length (pool (connection_pool s))"
    "discovered s' = discovered s" "info_hash s' = info_hash s" "handshake s' = handshake s" by blast
  have f: "live s' = live s - {i}" "kernel s' = kernel s" "statistics s' = statistics s" "connects s' = connects s"
    "peers s' = (peers s)(contact_key (contact (peer_at s i)) := None)"
    "discovery_cache s' = discovery_cache s" "disconnects s' = disconnects s" "retry_queue s' = retry_queue s"
    "blank (peer_at s' i)"
    and peer: "\<And>j. j \<noteq> i \<Longrightarrow> peer_at s' j = peer_at s j"
    and gen: "\<And>j. j \<noteq> i \<Longrightarrow> generation_at s' j = generation_at s j"
    using s'(2) by (auto simp: freed_def sources_def)
  have rest: "live s' - (X - {i}) = live s - X" "\<And>j. j \<in> live s - X \<Longrightarrow> peer_at s' j = peer_at s j"
    "\<And>j. j \<in> live s - X \<Longrightarrow> generation_at s' j = generation_at s j"
    using f(1) i peer gen by auto
  have count: "phase_count (X - {i}) s' ph = phase_count X s ph" for ph
    using rest by (auto simp: phase_count_def intro!: arg_cong [of _ _ card])
  have "blank (peer_at s' j)" if "j < pool_capacity" "j \<notin> live s'" for j
    using inv that f(1,9) peer by (cases "j = i") (auto simp: manager_inv_def slots_inv_def)
  then have "slots_inv s'" using inv s'(3,4) f(1) peer by (auto simp: manager_inv_def slots_inv_def)
  moreover have "table_inv s'"
    using inv i(1) peer unfolding manager_inv_def table_inv_def f(1,5) by (intro indexes_remove) auto
  moreover have "fds_inv s'"
  proof -
    have "fds_inv s" using inv by (simp add: manager_inv_def)
    moreover have "j \<in> live s' \<and> socket_at s' j = fd \<longleftrightarrow> j \<in> live s \<and> socket_at s j = fd" if "fd \<noteq> - 1" for j fd
      using that f(1) sock peer [of j] by (cases "j = i") auto
    ultimately show ?thesis using f(2) by (intro fds_owners [of s s'])
  qed
  moreover have "counters_inv (X - {i}) s'" using inv f(3,4) count by (simp add: manager_inv_def counters_inv_def)
  moreover have "retry_inv (X - {i}) s'"
    using inv unfolding manager_inv_def retry_inv_def rest(1) f(3,8) using rest(2,3) by metis
  moreover have "cache_inv s'" using inv f(3,6) s'(5) by (simp add: manager_inv_def cache_inv_def)
  moreover have "\<forall>j\<in>live s' - (X - {i}). conn_ok (peer_at s' j)" unfolding rest(1) using inv rest(2) by (simp add: manager_inv_def)
  ultimately show ?thesis using s'(1,2,6,7) f(7) inv by (simp add: manager_inv_def)
qed

text \<open>A slot that has been acquired and registered for a new contact is detached.\<close>

lemma acquire_result:
  assumes "acquire cp = (Some i, cp')"
  shows "pool cp' = pool cp \<and> available cp' = available cp - 1"
  using assms by (auto simp: acquire_def available_def Let_def split: if_splits)

lemma acquire_inv:
  assumes inv: "manager_inv X s" and a: "acquire (connection_pool s) = (Some i, cp)"
    and new: "peers s (contact_key c) = None" and p: "contact_key (contact p) = contact_key c" "loose p" "tcp_socket (tcp p) = - 1"
  defines "s' \<equiv> set_peer i p (s\<lparr>connection_pool := cp, peers := (peers s)(contact_key c \<mapsto> i)\<rparr>)"
  shows "i \<notin> live s \<and> i < pool_capacity \<and> blank (peer_at s i) \<and> live s' = insert i (live s) \<and> manager_inv (insert i X) s'"
proof -
  have v: "pool_valid (connection_pool s)" "length (pool (connection_pool s)) = pool_capacity"
    using inv by (auto simp: manager_inv_def slots_inv_def)
  have cp: "pool_valid cp" "i < pool_capacity" "i \<notin> live s" "live_slots cp = insert i (live s)"
    "pool cp = pool (connection_pool s)"
    using acquire_some_pool [OF v(1) a] v(2) by auto
  have blank: "blank (peer_at s i)" using inv cp(2,3) by (simp add: manager_inv_def slots_inv_def)
  let ?s = "s\<lparr>connection_pool := cp, peers := (peers s)(contact_key c \<mapsto> i)\<rparr>"
  have at: "peer_at ?s j = peer_at s j" "generation_at ?s j = generation_at s j" for j
    using cp(5) by (simp_all add: peer_at_def generation_at_def)
  have peer: "peer_at s' j = (if j = i then p else peer_at s j)" for j
    unfolding s'_def using cp(2,5) v(2) at(1) by (subst peer_at_set) simp_all
  have live: "live s' = insert i (live s)" using cp(4) by (simp add: s'_def)
  have rest: "live s' - insert i X = live s - X" "\<And>j. j \<in> live s - X \<Longrightarrow> peer_at s' j = peer_at s j"
    using live peer cp(3) by auto
  have count: "phase_count (insert i X) s' ph = phase_count X s ph" for ph
    using rest by (auto simp: phase_count_def intro!: arg_cong [of _ _ card])
  have f: "kernel s' = kernel s" "statistics s' = statistics s" "connects s' = connects s"
    "discovery_cache s' = discovery_cache s" "disconnects s' = disconnects s" "retry_queue s' = retry_queue s"
    "discovered s' = discovered s" "info_hash s' = info_hash s" "handshake s' = handshake s"
    "peers s' = (peers s)(contact_key c \<mapsto> i)" "generation_at s' j = generation_at s j" for j
    using at(2) by (simp_all add: s'_def)
  have "pool_valid (connection_pool s')" "length (pool (connection_pool s')) = pool_capacity"
    using cp(1,5) v(2) by (simp_all add: s'_def)
  then have "slots_inv s'"
    using inv p(2) peer live unfolding manager_inv_def slots_inv_def by simp
  moreover have "table_inv s'"
  proof -
    have "indexes (\<lambda>j. contact_key (contact (peer_at s j))) (live s) (peers s)"
      using inv by (simp add: manager_inv_def table_inv_def)
    moreover have key: "contact_key (contact (peer_at s' i)) = contact_key c" using peer p(1) by simp
    moreover have "contact_key (contact (peer_at s' j)) = contact_key (contact (peer_at s j))" if "j \<in> live s" for j
      using that peer cp(3) by auto
    ultimately show ?thesis
      using new indexes_insert [of "\<lambda>j. contact_key (contact (peer_at s j))" "live s" "peers s"
          "\<lambda>j. contact_key (contact (peer_at s' j))" i] unfolding table_inv_def f(10) live by simp
  qed
  moreover have "fds_inv s'"
  proof -
    have "socket_at s' i = - 1" "\<And>j. j \<in> live s \<Longrightarrow> socket_at s' j = socket_at s j" using peer p(3) cp(3) by auto
    moreover have "fds_inv s" using inv by (simp add: manager_inv_def)
    ultimately show ?thesis using f(1) live by (intro fds_owners [of s s']) auto
  qed
  moreover have "counters_inv (insert i X) s'" using inv f(2,3) count by (simp add: manager_inv_def counters_inv_def)
  moreover have "retry_inv (insert i X) s'"
    using inv unfolding manager_inv_def retry_inv_def rest(1) f using rest(2) by metis
  moreover have "cache_inv s'" using inv f by (simp add: manager_inv_def cache_inv_def)
  moreover have "\<forall>j\<in>live s' - insert i X. conn_ok (peer_at s' j)" unfolding rest(1) using inv rest(2) by (simp add: manager_inv_def)
  ultimately show ?thesis using inv cp(2,3) blank live f by (simp add: manager_inv_def)
qed

section \<open>Attempts in flight\<close>

lemma resolved_eq:
  "inflight_resolved src s = (if src = Tcp_server then s\<lparr>statistics := single_outbound_resolved (statistics s)\<rparr>
     else send_notification (s\<lparr>statistics := single_inbound_resolved (statistics s)\<rparr>))"
  by (simp add: inflight_resolved_def)

lemma flight_source:
  assumes "manager_inv X s" and "i \<in> live s" and "phase (peer_at s i) = Outbound \<longleftrightarrow> source (peer_at s i) = Tcp_server"
  shows "source (peer_at s i) = (if phase (peer_at s i) = Outbound then Tcp_server else Tracker)"
  using inv_loose [OF assms(1,2)] assms(3) by (cases "source (peer_at s i)") (auto simp: loose_def)

lemma phase_flight:
  "phase p \<in> {Inbound, Outbound} \<Longrightarrow> phase p = Outbound \<longleftrightarrow> source p = Tcp_server"
  by (auto simp: phase_def split: if_splits)

lemma counted_intro:
  assumes inv: "manager_inv {} s" and i: "i \<in> live s" and ph: "phase (peer_at s i) \<in> {Inbound, Outbound}"
  shows "counted i s"
proof -
  have "manager_inv {i} (s\<lparr>statistics := uncount (phase (peer_at s i)) (statistics s)\<rparr>)"
    using detach [OF inv, of i] i ph by auto
  moreover have src: "phase (peer_at s i) = Outbound \<longleftrightarrow> source (peer_at s i) = Tcp_server"
    using ph by (rule phase_flight)
  ultimately have "manager_inv {i} (inflight_resolved (source (peer_at s i)) s)"
    using ph by (auto simp: resolved_eq)
  moreover have "failures (peer_at s i) < max_reties" using inv_conn_ok [OF inv, of i] i by (simp add: conn_ok_def)
  moreover have "0 < phase_count {} s (phase (peer_at s i))"
    using phase_count_insert [of i s "{}"] i by simp
  ultimately show ?thesis using inv i ph src by (auto simp: counted_def manager_inv_def counters_inv_def)
qed

lemma counted_set:
  assumes c: "counted i s" and loose: "loose p" and key: "contact_key (contact p) = contact_key (contact (peer_at s i))"
    and sock: "tcp_socket (tcp p) = socket_at s i" and src: "source p = source (peer_at s i)"
    and f: "failures p < max_reties"
  shows "counted i (set_peer i p s)"
proof -
  have i: "i \<in> live s" and inv: "manager_inv {i} (inflight_resolved (source (peer_at s i)) s)"
    using c by (auto simp: counted_def)
  have "manager_inv {i} (set_peer i p (inflight_resolved (source (peer_at s i)) s))"
    using set_peer_inv [OF inv, of i p] i loose key sock by simp
  then show ?thesis using c i src f by (simp add: counted_def)
qed

lemma counted_kernel:
  assumes "counted i s" and "open_fds k = open_fds (kernel s)"
  shows "counted i (s\<lparr>kernel := k\<rparr>)"
  using assms kernel_frame [of k "inflight_resolved (source (peer_at s i)) s" "{i}"]
  by (simp add: counted_def)

lemma counted_loose: "counted i s \<Longrightarrow> loose (peer_at s i)"
  using inv_loose [of "{i}" "inflight_resolved (source (peer_at s i)) s" i] by (simp add: counted_def)

lemma counted_attach:
  assumes c: "counted i s" and ok: "conn_ok (peer_at s i)" and ph: "phase (peer_at s i) \<in> {Inbound, Outbound}"
  shows "manager_inv {} s"
proof -
  let ?r = "inflight_resolved (source (peer_at s i)) s"
  have i: "i \<in> live s" and inv: "manager_inv {i} ?r" using c by (auto simp: counted_def)
  have src: "phase (peer_at s i) = Outbound \<longleftrightarrow> source (peer_at s i) = Tcp_server"
    using ph by (rule phase_flight)
  have loose: "source (peer_at s i) \<noteq> Source_null" using counted_loose [OF c] by (simp add: loose_def)
  have "below_limit (phase (peer_at s i)) (statistics ?r) \<and> recount (phase (peer_at s i)) (statistics ?r) = statistics s"
  proof (cases "source (peer_at s i)")
    case Tracker
    then have n: "0 < inbound_inflight (statistics s)" "inbound_inflight (statistics s) \<le> max_inbound_inflight"
      "inbound_inflight (statistics s) < 2 ^ 63" and "phase (peer_at s i) = Inbound"
      using c ph src by (auto simp: counted_def max_inbound_inflight_def)
    then show ?thesis using Tracker by (simp add: resolved_eq send_notification_def counting sz_step)
  next
    case Tcp_server
    then have n: "0 < outbound_inflight (statistics s)" "outbound_inflight (statistics s) \<le> max_outbound_inflight"
      "outbound_inflight (statistics s) < 2 ^ 63" and "phase (peer_at s i) = Outbound"
      using c ph src by (auto simp: counted_def max_outbound_inflight_def)
    then show ?thesis using Tcp_server by (simp add: resolved_eq counting sz_step)
  qed (use loose in simp)
  moreover have "phase (peer_at s i) \<noteq> Waiting" using ph by auto
  ultimately have "manager_inv ({i} - {i}) (?r\<lparr>statistics := statistics s\<rparr>)"
    using attach [OF inv, of i] i ok by simp
  moreover have "?r\<lparr>statistics := statistics s\<rparr> = s\<lparr>daemon_pending := daemon_pending ?r\<rparr>"
    by (simp add: resolved_eq send_notification_def)
  ultimately show ?thesis by simp
qed

lemma resolved_close: "inflight_resolved src (close_peer_socket i s) = close_peer_socket i (inflight_resolved src s)"
  by (simp add: close_peer_socket_eq)

lemma closed_socket: "i \<in> live s \<Longrightarrow> peer_at (close_peer_socket i s) j =
    (if j = i then (peer_at s i)\<lparr>tcp := (tcp (peer_at s i))\<lparr>tcp_socket := - 1, perrno := - 1\<rparr>\<rparr> else peer_at s j)"
  "live (close_peer_socket i s) = live s"
  by (simp_all add: close_peer_socket_eq)

section \<open>Failures\<close>

lemma hard_delete_inv:
  assumes c: "counted i s"
  shows "\<exists>s'. hard_delete_peer_connection i s = Inr s' \<and> manager_inv {} s' \<and> live s' = live s - {i}"
proof -
  let ?r = "close_peer_socket i (inflight_resolved (source (peer_at s i)) s)"
  have i: "i \<in> live s" and inv: "manager_inv {i} (inflight_resolved (source (peer_at s i)) s)"
    using c by (auto simp: counted_def)
  have "manager_inv {i} ?r" using close_inv [OF inv] i by simp
  moreover have "i \<in> live ?r" "socket_at ?r i = - 1" using i closed_socket by simp_all
  ultimately obtain s' where "delete_peer_connection i ?r = Inr s'" "manager_inv ({i} - {i}) s'" "freed i ?r s'"
    using delete_inv [of "{i}" ?r i] by auto
  then show ?thesis
    using i closed_socket by (auto simp: hard_delete_peer_connection_def resolved_close Let_def freed_def)
qed

text \<open>What is left of a connection that failed: nothing, or a slot that waits for its timer.\<close>

definition failure_outcome :: "nat \<Rightarrow> manager \<Rightarrow> manager \<Rightarrow> bool" where
  "failure_outcome i s s' \<longleftrightarrow>
     (if max_reties \<le> failures (peer_at s i) + 1 \<or> source (peer_at s i) = Tcp_server then i \<notin> live s'
      else i \<in> live s' \<and> state (peer_at s' i) = FAILED \<and> failures (peer_at s' i) = failures (peer_at s i) + 1
        \<and> for_timer (peer_at s' i) = \<lparr>timer_active = True, timer_after = retry_timeout * failures (peer_at s' i)\<rparr>)"

lemma handle_peer_failure_outcome:
  assumes c: "counted i s"
  shows "\<exists>s'. handle_peer_failure i s = Inr s' \<and> manager_inv {} s' \<and> failure_outcome i s s'"
proof -
  let ?p = "peer_at s i" and ?src = "source (peer_at s i)"
  let ?p1 = "?p\<lparr>state := FAILED, failures := failures ?p + 1\<rparr>"
  let ?r = "close_peer_socket i (set_peer i ?p1 (inflight_resolved ?src s))"
  have i: "i \<in> live s" and inv: "manager_inv {i} (inflight_resolved ?src s)" and f: "failures ?p < max_reties"
    using c by (auto simp: counted_def)
  have loose: "loose ?p" using c by (rule counted_loose)
  have f1: "sz_add (failures ?p) 1 = failures ?p + 1" using f by (simp add: max_reties_def sz_step)
  have "manager_inv {i} (set_peer i ?p1 (inflight_resolved ?src s))"
    using set_peer_inv [OF inv, of i ?p1] i loose f by (simp add: loose_def buffers_ok_def)
  then have r: "manager_inv {i} ?r" using close_inv i by simp
  have live_r: "i \<in> live ?r" "live ?r = live s" using i closed_socket by simp_all
  have at_r: "peer_at ?r i = ?p1\<lparr>tcp := (tcp ?p)\<lparr>tcp_socket := - 1, perrno := - 1\<rparr>\<rparr>" using i closed_socket by simp
  have src_at: "source (peer_at (close_peer_socket i (set_peer i ?p1 s)) i) = ?src"
    "failures (peer_at (close_peer_socket i (set_peer i ?p1 s)) i) = failures ?p + 1"
    using i closed_socket by simp_all
  show ?thesis
  proof (cases "max_reties \<le> failures ?p + 1 \<or> ?src = Tcp_server")
    case True
    then have "handle_peer_failure i s = delete_peer_connection i ?r"
      using loose src_at unfolding handle_peer_failure_def f1 Let_def
      by (simp add: resolved_close loose_def)
    moreover obtain s' where "delete_peer_connection i ?r = Inr s'" "manager_inv ({i} - {i}) s'" "freed i ?r s'"
      using delete_inv [OF r live_r(1)] at_r by auto
    ultimately show ?thesis using True by (simp add: failure_outcome_def freed_def)
  next
    case False
    then have src: "?src = Tracker" using loose by (cases ?src) (auto simp: loose_def)
    let ?q = "peer_at ?r i"
    let ?p2 = "(watchers_stop ?q)\<lparr>outgoing_frame_cursor := 0, recv_buffer := ring_reset (recv_buffer ?q),
      send_buffer := ring_reset (send_buffer ?q),
      for_timer := timer_start (retry_timeout * failures ?q) (timer_stop (for_timer ?q))\<rparr>"
    have res: "handle_peer_failure i s = Inr ((set_peer i ?p2 ?r)\<lparr>statistics := increment_failed (statistics ?r)\<rparr>)"
      using False src src_at live_r i at_r unfolding handle_peer_failure_def f1 Let_def
      by (simp add: resolved_close stop_connection_watchers_def watchers_stop_def)
    have ok: "conn_ok ?p2" "phase ?p2 = Broken" "loose ?p2"
      using loose False src reset_ring unfolding at_r
      by (auto simp: conn_ok_def phase_def loose_def buffers_ok_def buffers_empty_def io_quiet_def watchers_stop_def
          io_stop_def timer_start_def)
    have "manager_inv {i} (set_peer i ?p2 ?r)"
      using set_peer_inv [OF r live_r(1) ok(3)] by (simp add: watchers_stop_def)
    from attach [OF this, of i] ok live_r have "manager_inv {} ((set_peer i ?p2 ?r)\<lparr>statistics := increment_failed (statistics ?r)\<rparr>)"
      by simp
    moreover have "failure_outcome i s ((set_peer i ?p2 ?r)\<lparr>statistics := increment_failed (statistics ?r)\<rparr>)"
      using False live_r(1) at_r i by (simp add: failure_outcome_def watchers_stop_def timer_start_def)
    ultimately show ?thesis using res by blast
  qed
qed

lemma handle_peer_failure_inv:
  "counted i s \<Longrightarrow> \<exists>s'. handle_peer_failure i s = Inr s' \<and> manager_inv {} s'"
  using handle_peer_failure_outcome by blast

section \<open>Sending and receiving\<close>

lemma retry_eintr_guarantees: "(\<And>r rest. Q (r, rest)) \<Longrightarrow> guarantees (retry_eintr answers) Q"
  by (induction answers rule: retry_eintr.induct) auto

lemma tcp_send_spec:
  assumes v: "ring_valid b"
  shows "guarantees (tcp_send b t k) (\<lambda>(r, b', t', k'). open_fds k' = open_fds k \<and> tcp_socket t' = tcp_socket t
    \<and> ring_valid b' \<and> capacity b' = capacity b \<and> (buffer_empty r \<longleftrightarrow> readable b' = 0)
    \<and> contents b' = drop (sent_bytes r) (contents b))"
proof -
  have "guarantees (commit_read n b) (\<lambda>b'. ring_valid b' \<and> capacity b' = capacity b \<and> contents b' = drop n (contents b))"
    if "\<not> readable b < n" for n
    using commit_read_contents [OF v, of n] that by (auto simp: r_available_def)
  then show ?thesis
    using v unfolding tcp_send_def Let_def
    by (intro guarantees_then [OF retry_eintr_guarantees])
      (auto simp: prepared_bytes_read handle_send_perrno_def ring_empty_def intro!: guarantees_then split: sum.splits)
qed

lemma tcp_recv_spec:
  assumes v: "ring_valid b"
  shows "guarantees (tcp_recv b t k) (\<lambda>(r, b', t', k'). open_fds k' = open_fds k \<and> tcp_socket t' = tcp_socket t
    \<and> ring_valid b' \<and> capacity b' = capacity b \<and> (\<exists>bytes. contents b' = contents b @ bytes \<and> length bytes = recvd_bytes r))"
proof -
  have "guarantees (ring_receive bytes b) (\<lambda>b'. ring_valid b' \<and> capacity b' = capacity b \<and> contents b' = contents b @ bytes)"
    if "\<not> w_available b < length bytes" for bytes
    using ring_receive_contents [OF v, of bytes] that by auto
  then show ?thesis
    using v unfolding tcp_recv_def Let_def
    by (intro guarantees_then [OF retry_eintr_guarantees])
      (auto simp: prepared_bytes_write handle_recv_perrno_def intro!: guarantees_then split: sum.splits)
qed

lemma looseD:
  "loose p \<Longrightarrow> ring_valid (recv_buffer p)" "loose p \<Longrightarrow> capacity (recv_buffer p) = 68"
  "loose p \<Longrightarrow> ring_valid (send_buffer p)" "loose p \<Longrightarrow> capacity (send_buffer p) = 68"
  "loose p \<Longrightarrow> contact_ok (contact p)" "loose p \<Longrightarrow> source p \<noteq> Source_null"
  by (simp_all add: loose_def buffers_ok_def)

lemma loose_buffers:
  "loose p \<Longrightarrow> ring_valid b \<Longrightarrow> capacity b = 68 \<Longrightarrow> loose (p\<lparr>send_buffer := b, tcp := t\<rparr>)"
  "loose p \<Longrightarrow> ring_valid b \<Longrightarrow> capacity b = 68 \<Longrightarrow> loose (p\<lparr>recv_buffer := b, tcp := t\<rparr>)"
  by (simp_all add: loose_def buffers_ok_def)

lemma counted_update:
  assumes "counted i s" and "open_fds k = open_fds (kernel s)" and "loose p"
    and "contact_key (contact p) = contact_key (contact (peer_at s i))"
    and "tcp_socket (tcp p) = socket_at s i" and "source p = source (peer_at s i)" and "failures p < max_reties"
  shows "counted i (set_peer i p (s\<lparr>kernel := k\<rparr>))"
  using counted_set [OF counted_kernel [OF assms(1,2)], of p] assms by simp

lemma counted_failures: "counted i s \<Longrightarrow> failures (peer_at s i) < max_reties"
  by (simp add: counted_def)

lemma counted_live: "counted i s \<Longrightarrow> i \<in> live s"
  by (simp add: counted_def)

text \<open>What one transfer leaves: the connection with its new buffer, still counted.\<close>

definition sent_to :: "nat \<Rightarrow> manager \<Rightarrow> send_transact \<Rightarrow> manager \<Rightarrow> bool" where
  "sent_to i s r s' \<longleftrightarrow> (\<exists>b t k. s' = set_peer i ((peer_at s i)\<lparr>send_buffer := b, tcp := t\<rparr>) (s\<lparr>kernel := k\<rparr>)
     \<and> tcp_socket t = socket_at s i \<and> ring_valid b \<and> capacity b = 68 \<and> (buffer_empty r \<longleftrightarrow> readable b = 0)
     \<and> contents b = drop (sent_bytes r) (contents (send_buffer (peer_at s i)))) \<and> counted i s'"

lemma sent_toI:
  "counted i (set_peer i ((peer_at s i)\<lparr>send_buffer := b, tcp := t\<rparr>) (s\<lparr>kernel := k\<rparr>)) \<Longrightarrow>
   tcp_socket t = socket_at s i \<Longrightarrow> ring_valid b \<Longrightarrow> capacity b = 68 \<Longrightarrow> (buffer_empty r \<longleftrightarrow> readable b = 0) \<Longrightarrow>
   contents b = drop (sent_bytes r) (contents (send_buffer (peer_at s i))) \<Longrightarrow>
   sent_to i s r (set_peer i ((peer_at s i)\<lparr>send_buffer := b, tcp := t\<rparr>) (s\<lparr>kernel := k\<rparr>))"
  unfolding sent_to_def by (intro conjI exI [of _ b] exI [of _ t] exI [of _ k]) simp_all

lemma peer_send_spec:
  assumes c: "counted i s"
  shows "guarantees (peer_send i s) (\<lambda>(r, s'). sent_to i s r s')"
proof -
  have loose: "loose (peer_at s i)" using c by (rule counted_loose)
  show ?thesis
    unfolding peer_send_def send_messages_def bind_fault_assoc
    by (rule guarantees_then [OF tcp_send_spec [OF looseD(3) [OF loose]]])
      (auto simp: looseD [OF loose] intro!: sent_toI counted_update [OF c] loose_buffers [OF loose]
        counted_failures [OF c])
qed

definition received_to :: "nat \<Rightarrow> manager \<Rightarrow> recv_transact \<Rightarrow> manager \<Rightarrow> bool" where
  "received_to i s r s' \<longleftrightarrow> (\<exists>b t k. s' = set_peer i ((peer_at s i)\<lparr>recv_buffer := b, tcp := t\<rparr>) (s\<lparr>kernel := k\<rparr>)
     \<and> tcp_socket t = socket_at s i \<and> ring_valid b \<and> capacity b = 68
     \<and> (\<exists>bytes. contents b = contents (recv_buffer (peer_at s i)) @ bytes \<and> length bytes = recvd_bytes r)) \<and> counted i s'"

lemma received_toI:
  "counted i (set_peer i ((peer_at s i)\<lparr>recv_buffer := b, tcp := t\<rparr>) (s\<lparr>kernel := k\<rparr>)) \<Longrightarrow>
   tcp_socket t = socket_at s i \<Longrightarrow> ring_valid b \<Longrightarrow> capacity b = 68 \<Longrightarrow>
   contents b = contents (recv_buffer (peer_at s i)) @ bytes \<Longrightarrow> length bytes = recvd_bytes r \<Longrightarrow>
   received_to i s r (set_peer i ((peer_at s i)\<lparr>recv_buffer := b, tcp := t\<rparr>) (s\<lparr>kernel := k\<rparr>))"
  unfolding received_to_def
  by (intro conjI exI [of _ b] exI [of _ t] exI [of _ k] exI [of _ bytes]) simp_all

lemma peer_recv_spec:
  assumes c: "counted i s"
  shows "guarantees (peer_recv i s) (\<lambda>(r, s'). received_to i s r s')"
proof -
  have loose: "loose (peer_at s i)" using c by (rule counted_loose)
  show ?thesis
    unfolding peer_recv_def recv_messages_def bind_fault_assoc
    by (rule guarantees_then [OF tcp_recv_spec [OF looseD(1) [OF loose]]])
      (auto simp: looseD [OF loose] intro!: received_toI counted_update [OF c] loose_buffers [OF loose]
        counted_failures [OF c])
qed

lemma encode_handshake_spec:
  assumes c: "counted i s" and len: "length (handshake s) = 68" and e: "readable (send_buffer (peer_at s i)) = 0"
  shows "\<exists>b. encode_handshake i s =
      Inr (True, set_peer i ((peer_at s i)\<lparr>outgoing_frame_cursor := 68, send_buffer := b\<rparr>) s)
    \<and> ring_valid b \<and> capacity b = 68 \<and> contents b = handshake s
    \<and> counted i (set_peer i ((peer_at s i)\<lparr>outgoing_frame_cursor := 68, send_buffer := b\<rparr>) s)"
proof -
  note l = looseD [OF counted_loose [OF c]]
  have "contents (send_buffer (peer_at s i)) = []" using e by (metis length_contents length_0_conv)
  then obtain b where b: "handshake_encode (handshake s) (send_buffer (peer_at s i)) 0 = Inr (True, 68, b)"
    "ring_valid b" "capacity b = 68" "contents b = handshake s"
    using handshake_encode_some [OF l(3), of "handshake s" 0] len l(4) e
    by (auto simp: encoded_some_def Let_def length_handshake_def w_available_def subspan_def)
  moreover have "counted i (set_peer i ((peer_at s i)\<lparr>outgoing_frame_cursor := 68, send_buffer := b\<rparr>) s)"
    using counted_loose [OF c] b counted_failures [OF c]
    by (intro counted_set [OF c]) (simp_all add: loose_def buffers_ok_def)
  ultimately show ?thesis using e by (intro exI [of _ b]) (simp add: encode_handshake_def ring_empty_def Let_def)
qed

section \<open>Reaching the end of the handshake\<close>

lemma resolved_increment:
  "(inflight_resolved src s)\<lparr>statistics := increment_connected (statistics (inflight_resolved src s))\<rparr> =
     inflight_resolved src (s\<lparr>statistics := increment_connected (statistics s)\<rparr>)"
  by (simp add: resolved_eq send_notification_def counting)

lemma dispatch_inv:
  assumes c: "counted i s" and sock: "socket_at s i \<noteq> - 1"
    and quota: "connected_bittorrent_peers (statistics s) < healthy_peer_count"
  shows "manager_inv {} (handle_peer_connection_and_dispatch i s)"
proof -
  let ?src = "source (peer_at s i)"
  let ?p = "watchers_stop ((peer_at s i)\<lparr>state := CONNECTED\<rparr>)"
  have i: "i \<in> live s" using c by (rule counted_live)
  note l = counted_loose [OF c]
  have p: "loose ?p" "phase ?p = Linked" "conn_ok ?p" "tcp_socket (tcp ?p) = socket_at s i" "source ?p = ?src"
    using l sock counted_failures [OF c]
    by (simp_all add: loose_def buffers_ok_def watchers_stop_def phase_def conn_ok_def io_quiet_def io_stop_def timer_stop_def)
  let ?s = "set_peer i ?p s"
  have "counted i ?s" using p counted_failures [OF c]
    by (intro counted_set [OF c]) (simp_all add: watchers_stop_def)
  then have inv: "manager_inv {i} (inflight_resolved ?src ?s)" using i p(5) by (simp add: counted_def)
  have same: "connected_bittorrent_peers (statistics (inflight_resolved ?src s)) = connected_bittorrent_peers (statistics s)"
    by (simp add: resolved_eq send_notification_def counting)
  let ?t = "set_peer i ?p (inflight_resolved ?src (s\<lparr>statistics := increment_connected (statistics s)\<rparr>))"
  have t: "manager_inv {} ?t"
    using attach [OF inv, of i] i p quota same resolved_increment [of ?src s] by simp
  let ?u = "\<lparr>cu_peer = i, cu_socket = tcp_socket (tcp ?p), cu_id = 0, cu_generation = generation_at s i\<rparr>"
  let ?q = "if length (connects s) < connects_capacity then connects s @ [?u] else connects s"
  have n: "length (connects s) \<le> connected_bittorrent_peers (statistics s)"
    using inv same by (simp add: manager_inv_def counters_inv_def)
  have more: "connected_bittorrent_peers (statistics ?t) = connected_bittorrent_peers (statistics s) + 1"
    using quota by (simp add: resolved_eq send_notification_def counting sz_step healthy_peer_count_def)
  have "manager_inv {} (?t\<lparr>connects := ?q\<rparr>)"
    by (rule connects_frame [OF _ t]) (use n more in \<open>simp del: set_peer_select\<close>)
  moreover have "handle_peer_connection_and_dispatch i s = ?t\<lparr>connects := ?q\<rparr>"
  proof -
    have swap: "s\<lparr>statistics := a, connects := q\<rparr> = s\<lparr>connects := q, statistics := a\<rparr>" for a q by simp
    show ?thesis
      using i unfolding handle_peer_connection_and_dispatch_def Let_def stop_connection_watchers_def
      by (simp add: watchers_stop_def swap)
  qed
  ultimately show ?thesis by simp
qed

lemma dispatch_live: "i \<in> live s \<Longrightarrow> live (handle_peer_connection_and_dispatch i s) = live s"
  by (simp add: handle_peer_connection_and_dispatch_def stop_connection_watchers_def Let_def)

text \<open>A connection that goes on with its handshake.\<close>

definition handshaking :: "PeerConnection \<Rightarrow> bool" where
  "handshaking p \<longleftrightarrow> state p = HANDSHAKE \<and> tcp_socket (tcp p) \<noteq> - 1 \<and> timer_active (for_timer p)"

lemma modify_eq: "modify_peer_socket_w_event i events s = set_peer i ((peer_at s i)\<lparr>for_sock :=
    \<lparr>io_active = True, io_fd = socket_at s i, io_events = events, io_pending = {}\<rparr>\<rparr>) s"
  by (cases "for_sock (peer_at s i)") (simp add: modify_peer_socket_w_event_def io_stop_def Let_def)

lemma modify_inv:
  assumes c: "counted i s" and h: "handshaking (peer_at s i)" and e: "events \<in> {{EV_READ}, {EV_WRITE}}"
    and server: "source (peer_at s i) = Tcp_server \<longrightarrow> events = {EV_READ} \<longrightarrow> readable (send_buffer (peer_at s i)) = 0"
  shows "manager_inv {} (modify_peer_socket_w_event i events s)"
proof -
  let ?p = "(peer_at s i)\<lparr>for_sock := \<lparr>io_active = True, io_fd = socket_at s i, io_events = events, io_pending = {}\<rparr>\<rparr>"
  note l = counted_loose [OF c]
  have "counted i (set_peer i ?p s)"
    using l counted_failures [OF c] by (intro counted_set [OF c]) (simp_all add: loose_def buffers_ok_def)
  moreover have "phase ?p \<in> {Inbound, Outbound}" using h by (simp add: phase_def handshaking_def)
  moreover have "conn_ok ?p"
    using h e server counted_failures [OF c] unfolding conn_ok_def in_flight_def handshaking_def
    by (auto simp: phase_def)
  ultimately show ?thesis
    unfolding modify_eq using counted_attach [of i "set_peer i ?p s"] counted_live [OF c] by simp
qed

lemma failure_guarantee: "counted i s \<Longrightarrow> guarantees (handle_peer_failure i s) (manager_inv {})"
  using handle_peer_failure_inv by fastforce

section \<open>The callbacks of a connection\<close>

definition option_sane :: "manager \<Rightarrow> bool" where
  "option_sane s \<longleftrightarrow> (case option_answers (kernel s) of Inl _ # _ \<Rightarrow> False | _ \<Rightarrow> True)"

lemma transport_connected_spec:
  assumes c: "counted i s" and sane: "option_sane s"
  shows "guarantees (peer_transport_level_connected i s) (\<lambda>(ok, s'). counted i s' \<and>
    (\<exists>t k. s' = set_peer i ((peer_at s i)\<lparr>tcp := t\<rparr>) (s\<lparr>kernel := k\<rparr>) \<and> tcp_socket t = socket_at s i))"
proof (cases "option_answers (kernel s)")
  case (Cons a answers)
  then obtain err where a: "a = Inr err" using sane by (cases a) (auto simp: option_sane_def)
  let ?k = "(kernel s)\<lparr>option_answers := answers\<rparr>"
  have noop: "set_peer i (peer_at s i) (s\<lparr>kernel := ?k\<rparr>) = s\<lparr>kernel := ?k\<rparr>"
    by (simp add: set_peer_def set_object_def peer_at_def)
  have "counted i (set_peer i ((peer_at s i)\<lparr>tcp := t\<rparr>) (s\<lparr>kernel := ?k\<rparr>))" if "tcp_socket t = socket_at s i" for t
    using counted_loose [OF c] counted_failures [OF c] that
    by (intro counted_update [OF c]) (simp_all add: loose_def buffers_ok_def)
  moreover have "counted i (s\<lparr>kernel := ?k\<rparr>)" by (rule counted_kernel [OF c]) simp
  moreover have "s\<lparr>kernel := ?k\<rparr> = set_peer i ((peer_at s i)\<lparr>tcp := tcp (peer_at s i)\<rparr>) (s\<lparr>kernel := ?k\<rparr>)"
    using noop by simp
  ultimately show ?thesis
    using Cons a by (auto simp: peer_transport_level_connected_def Let_def intro!: exI)
qed (simp add: peer_transport_level_connected_def)

lemma transport_inv:
  assumes inv: "manager_inv {} s" and i: "i \<in> live s" and st: "state (peer_at s i) = TRANSPORT" "socket_at s i \<noteq> - 1"
    and sane: "option_sane s"
  shows "guarantees (handle_peer_transport_level_initiations i event s) (manager_inv {})"
proof (cases "EV_WRITE \<in> event")
  case True
  have flight: "phase (peer_at s i) \<in> {Inbound, Outbound}" using st by (simp add: phase_def)
  then have c: "counted i s" by (rule counted_intro [OF inv i])
  have "in_flight (peer_at s i)" using inv_conn_ok [OF inv, of i] i flight by (auto simp: conn_ok_def)
  then have p: "timer_active (for_timer (peer_at s i))" "readable (send_buffer (peer_at s i)) = 0" "source (peer_at s i) = Tracker"
    using st by (auto simp: in_flight_def buffers_empty_def)
  have len: "length (handshake s) = 68" using inv by (simp add: manager_inv_def)
  have connected: "guarantees
      (let s = set_peer i ((peer_at s1 i)\<lparr>state := HANDSHAKE\<rparr>) s1
       in bind_fault (encode_handshake i s) (\<lambda>(encode_completed, s).
            if \<not> encode_completed then Inl Assertion_failed
            else bind_fault (peer_send i s) (\<lambda>(r, s).
              if send_ok r
              then Inr (modify_peer_socket_w_event i (if buffer_empty r then {EV_READ} else {EV_WRITE}) s)
              else handle_peer_failure i s))) (manager_inv {})"
    if s1: "counted i s1" "s1 = set_peer i ((peer_at s i)\<lparr>tcp := t\<rparr>) (s\<lparr>kernel := k\<rparr>)" "tcp_socket t = socket_at s i" for s1 t k
  proof -
    let ?s2 = "set_peer i ((peer_at s1 i)\<lparr>state := HANDSHAKE\<rparr>) s1"
    have at1: "peer_at s1 i = (peer_at s i)\<lparr>tcp := t\<rparr>" "i \<in> live s1" using s1(2) i by simp_all
    have c2: "counted i ?s2" using counted_loose [OF s1(1)] counted_failures [OF s1(1)]
      by (intro counted_set [OF s1(1)]) (simp_all add: loose_def buffers_ok_def)
    have at2: "peer_at ?s2 i = (peer_at s i)\<lparr>tcp := t, state := HANDSHAKE\<rparr>" using at1 by simp
    have "length (handshake ?s2) = 68" "readable (send_buffer (peer_at ?s2 i)) = 0"
      unfolding at2 using len s1(2) p by simp_all
    from encode_handshake_spec [OF c2 this] obtain b where b: "encode_handshake i ?s2 =
        Inr (True, set_peer i ((peer_at ?s2 i)\<lparr>outgoing_frame_cursor := 68, send_buffer := b\<rparr>) ?s2)"
      "counted i (set_peer i ((peer_at ?s2 i)\<lparr>outgoing_frame_cursor := 68, send_buffer := b\<rparr>) ?s2)" by blast
    let ?s3 = "set_peer i ((peer_at ?s2 i)\<lparr>outgoing_frame_cursor := 68, send_buffer := b\<rparr>) ?s2"
    have at3: "handshaking (peer_at ?s3 i)" "source (peer_at ?s3 i) = Tracker"
      using at2 counted_live [OF c2] st(2) s1(3) p by (simp_all add: handshaking_def)
    have "guarantees (bind_fault (peer_send i ?s3) (\<lambda>(r, s).
        if send_ok r then Inr (modify_peer_socket_w_event i (if buffer_empty r then {EV_READ} else {EV_WRITE}) s)
        else handle_peer_failure i s)) (manager_inv {})"
    proof (rule guarantees_then [OF peer_send_spec [OF b(2)]], clarify)
      fix r s4 assume sent: "sent_to i ?s3 r s4"
      then have c4: "counted i s4" by (simp add: sent_to_def)
      have "handshaking (peer_at s4 i)" "source (peer_at s4 i) = Tracker"
        using sent at3 counted_live [OF b(2)] by (auto simp: sent_to_def handshaking_def)
      then have "manager_inv {} (modify_peer_socket_w_event i e s4)" if "e \<in> {{EV_READ}, {EV_WRITE}}" for e
        using modify_inv [OF c4] that by simp
      then show "guarantees (if send_ok r
          then Inr (modify_peer_socket_w_event i (if buffer_empty r then {EV_READ} else {EV_WRITE}) s4)
          else handle_peer_failure i s4) (manager_inv {})"
        using failure_guarantee [OF c4] by simp
    qed
    then show ?thesis unfolding Let_def b(1) by simp
  qed
  show ?thesis
    unfolding handle_peer_transport_level_initiations_def if_P [OF True]
    by (rule guarantees_then [OF transport_connected_spec [OF c sane]])
      (use connected failure_guarantee in \<open>fastforce simp del: guarantees_simps\<close>)
qed (simp add: handle_peer_transport_level_initiations_def inv)

lemma goes_on_ok:
  assumes "conn_ok p" and "in_flight p" and "state p = HANDSHAKE"
    and same: "tcp_socket (tcp p') = tcp_socket (tcp p)" "for_timer p' = for_timer p" "for_sock p' = for_sock p"
      "source p' = source p" "state p' = state p" "failures p' = failures p"
    and server: "source p = Tcp_server \<longrightarrow> io_events (for_sock p) = {EV_READ} \<longrightarrow> readable (send_buffer p') = 0"
  shows "conn_ok p' \<and> phase p' \<in> {Inbound, Outbound}"
proof -
  have "phase p' \<in> {Inbound, Outbound}" using assms(3) same(5) by (simp add: phase_def)
  moreover have "in_flight p'" using assms(2,3) server unfolding in_flight_def same by simp
  ultimately show ?thesis using assms(1) same(6) by (auto simp: conn_ok_def)
qed

lemma handshake_write_inv:
  assumes inv: "manager_inv {} s" and i: "i \<in> live s" and st: "state (peer_at s i) = HANDSHAKE"
    and quota: "connected_bittorrent_peers (statistics s) < healthy_peer_count"
    and armed: "source (peer_at s i) = Tcp_server \<longrightarrow> io_events (for_sock (peer_at s i)) = {EV_WRITE}"
  shows "guarantees (handshake_write i s) (manager_inv {})"
proof -
  have flight: "phase (peer_at s i) \<in> {Inbound, Outbound}" using st by (simp add: phase_def)
  then have c: "counted i s" by (rule counted_intro [OF inv i])
  have fl: "in_flight (peer_at s i)" using inv_conn_ok [OF inv, of i] i flight by (auto simp: conn_ok_def)
  show ?thesis
    unfolding handshake_write_def
  proof (rule guarantees_then [OF peer_send_spec [OF c]], clarify)
    fix r s1 assume sent: "sent_to i s r s1"
    then obtain b t k where s1: "s1 = set_peer i ((peer_at s i)\<lparr>send_buffer := b, tcp := t\<rparr>) (s\<lparr>kernel := k\<rparr>)"
      "tcp_socket t = socket_at s i" "buffer_empty r \<longleftrightarrow> readable b = 0" and c1: "counted i s1"
      by (auto simp: sent_to_def)
    have at1: "peer_at s1 i = (peer_at s i)\<lparr>send_buffer := b, tcp := t\<rparr>" using s1(1) i by simp
    have h: "handshaking (peer_at s1 i)" using at1 st fl s1(2) by (simp add: handshaking_def in_flight_def)
    have src: "source (peer_at s1 i) = Tracker \<or> source (peer_at s1 i) = Tcp_server"
      using looseD(6) [OF counted_loose [OF c1]] by (cases "source (peer_at s1 i)") auto
    have goes_on: "manager_inv {} s1" if "\<not> buffer_empty r"
    proof -
      have "conn_ok (peer_at s1 i) \<and> phase (peer_at s1 i) \<in> {Inbound, Outbound}"
        by (rule goes_on_ok [OF inv_conn_ok [OF inv, of i] fl st]) (use i armed s1(2) at1 in simp_all)
      then show ?thesis using counted_attach [OF c1] by blast
    qed
    have read: "manager_inv {} (modify_peer_socket_w_event i {EV_READ} s1)" if "source (peer_at s1 i) = Tracker"
      using modify_inv [OF c1 h] that by simp
    have done_sending: "manager_inv {} (handle_peer_connection_and_dispatch i s1)"
      using dispatch_inv [OF c1] h quota s1(1) by (simp add: handshaking_def)
    have same: "source (peer_at (modify_peer_socket_w_event i {EV_READ} s1) i) = source (peer_at s1 i)"
      using counted_live [OF c1] by (simp add: modify_eq)
    show "guarantees (if \<not> send_ok r then handle_peer_failure i s1
       else if buffer_empty r then
         let s = (if source (peer_at s1 i) = Tracker then modify_peer_socket_w_event i {EV_READ} s1 else s1)
         in Inr (if source (peer_at s i) = Tcp_server then handle_peer_connection_and_dispatch i s else s)
       else Inr s1) (manager_inv {})"
      using failure_guarantee [OF c1] goes_on read done_sending same src by auto
  qed
qed

lemma handshake_reply_inv:
  assumes c: "counted i s" and h: "handshaking (peer_at s i)" and src: "source (peer_at s i) = Tcp_server"
    and empty: "readable (send_buffer (peer_at s i)) = 0" and len: "length (handshake s) = 68"
    and quota: "connected_bittorrent_peers (statistics s) < healthy_peer_count"
  shows "guarantees (handshake_reply i s) (manager_inv {})"
proof -
  obtain b where b: "encode_handshake i s =
      Inr (True, set_peer i ((peer_at s i)\<lparr>outgoing_frame_cursor := 68, send_buffer := b\<rparr>) s)"
    "counted i (set_peer i ((peer_at s i)\<lparr>outgoing_frame_cursor := 68, send_buffer := b\<rparr>) s)"
    using encode_handshake_spec [OF c len empty] by blast
  let ?s = "set_peer i ((peer_at s i)\<lparr>outgoing_frame_cursor := 68, send_buffer := b\<rparr>) s"
  have at: "handshaking (peer_at ?s i)" "source (peer_at ?s i) = Tcp_server"
    using counted_live [OF c] h src by (simp_all add: handshaking_def)
  have "guarantees (bind_fault (peer_send i ?s) (\<lambda>(r, s).
       if \<not> True then Inl Assertion_failed
       else if \<not> send_ok r then handle_peer_failure i s
       else if \<not> buffer_empty r then Inr (modify_peer_socket_w_event i {EV_WRITE} s)
       else Inr (handle_peer_connection_and_dispatch i s))) (manager_inv {})"
  proof (rule guarantees_then [OF peer_send_spec [OF b(2)]], clarify)
    fix r s1 assume sent: "sent_to i ?s r s1"
    then have c1: "counted i s1" by (simp add: sent_to_def)
    have h1: "handshaking (peer_at s1 i)" "source (peer_at s1 i) = Tcp_server" "statistics s1 = statistics s"
      using sent at counted_live [OF b(2)] by (auto simp: sent_to_def handshaking_def)
    then have "manager_inv {} (modify_peer_socket_w_event i {EV_WRITE} s1)"
      using modify_inv [OF c1 h1(1), of "{EV_WRITE}"] by simp
    moreover have "manager_inv {} (handle_peer_connection_and_dispatch i s1)"
      using dispatch_inv [OF c1] h1 quota by (simp add: handshaking_def)
    ultimately show "guarantees (if \<not> True then Inl Assertion_failed
       else if \<not> send_ok r then handle_peer_failure i s1
       else if \<not> buffer_empty r then Inr (modify_peer_socket_w_event i {EV_WRITE} s1)
       else Inr (handle_peer_connection_and_dispatch i s1)) (manager_inv {})"
      using failure_guarantee [OF c1] by simp
  qed
  then show ?thesis unfolding handshake_reply_def b(1) by simp
qed

lemma handshake_decode_spec:
  assumes "ring_valid b" and "capacity b = 68" and "length info = 20" and "\<And>p. pid = Some p \<Longrightarrow> length p = 20"
  shows "\<exists>r pid' b'. handshake_decode b info pid = Inr (r, pid', b') \<and> ring_valid b' \<and> capacity b' = 68
    \<and> (\<forall>p. pid' = Some p \<longrightarrow> length p = 20)"
proof (cases "readable b < 68")
  case True
  then show ?thesis using handshake_decode_short [OF assms(1)] assms by auto
next
  case False
  then have full: "readable b = 68" using assms(1,2) by (simp add: ring_valid_def)
  then have "length (contents b) = 68" by simp
  then have "length (subspan 48 20 (contents b)) = 20" by (simp add: subspan_def)
  moreover obtain b' where "handshake_decode b info pid = Inr (\<lparr>complete = True, is_valid = verdict info (contents b)\<rparr>,
      if verdict info (contents b) then Some (subspan 48 20 (contents b)) else pid, b')"
    "ring_valid b'" "capacity b' = capacity b"
    using handshake_decode_full [OF assms(1,2) full assms(3), of pid] assms(4) by blast
  ultimately show ?thesis using assms(2,4) by (intro exI conjI) (auto split: if_splits)
qed

lemma handshake_read_inv:
  assumes inv: "manager_inv {} s" and i: "i \<in> live s" and st: "state (peer_at s i) = HANDSHAKE"
    and quota: "connected_bittorrent_peers (statistics s) < healthy_peer_count"
    and armed: "source (peer_at s i) = Tcp_server \<longrightarrow> io_events (for_sock (peer_at s i)) = {EV_READ}"
  shows "guarantees (handshake_read i s) (manager_inv {})"
proof -
  have flight: "phase (peer_at s i) \<in> {Inbound, Outbound}" using st by (simp add: phase_def)
  then have c: "counted i s" by (rule counted_intro [OF inv i])
  have fl: "in_flight (peer_at s i)" using inv_conn_ok [OF inv, of i] i flight by (auto simp: conn_ok_def)
  have len: "length (handshake s) = 68" "length (info_hash s) = 20" using inv by (auto simp: manager_inv_def)
  have open_sock: "socket_at s i \<noteq> - 1" "timer_active (for_timer (peer_at s i))"
    using fl unfolding in_flight_def by blast+
  have after: "guarantees
        (let p = peer_at s1 i
         in bind_fault (handshake_decode (recv_buffer p) (info_hash s1) (peer_id (contact p))) (\<lambda>(result, pid, b).
              let s = set_peer i (p\<lparr>recv_buffer := b, contact := (contact p)\<lparr>peer_id := pid\<rparr>\<rparr>) s1
              in if \<not> complete result then Inr s
                 else if \<not> is_valid result then hard_delete_peer_connection i s
                 else
                   let s = (if source (peer_at s i) = Tracker then handle_peer_connection_and_dispatch i s else s)
                   in if source (peer_at s i) = Tcp_server then handshake_reply i s else Inr s)) (manager_inv {})"
    if s1: "received_to i s r s1" for r s1
  proof -
    have c1: "counted i s1" using s1 by (simp add: received_to_def)
    have at1: "handshaking (peer_at s1 i)" "statistics s1 = statistics s" "info_hash s1 = info_hash s" "handshake s1 = handshake s"
      "source (peer_at s1 i) = source (peer_at s i)" "send_buffer (peer_at s1 i) = send_buffer (peer_at s i)"
      "for_sock (peer_at s1 i) = for_sock (peer_at s i)" "for_timer (peer_at s1 i) = for_timer (peer_at s i)"
      "state (peer_at s1 i) = HANDSHAKE" "socket_at s1 i = socket_at s i"
      using s1 i st open_sock by (auto simp: received_to_def handshaking_def)
    have fails: "failures (peer_at s1 i) = failures (peer_at s i)" using s1 i by (auto simp: received_to_def)
    note l1 = counted_loose [OF c1]
    obtain result pid b where dec: "handshake_decode (recv_buffer (peer_at s1 i)) (info_hash s1) (peer_id (contact (peer_at s1 i))) =
        Inr (result, pid, b)" "ring_valid b" "capacity b = 68" "\<forall>p. pid = Some p \<longrightarrow> length p = 20"
      using handshake_decode_spec [OF looseD(1,2) [OF l1], of "info_hash s1" "peer_id (contact (peer_at s1 i))"]
        looseD(5) [OF l1] len at1(3) by (auto simp: contact_ok_def)
    let ?p = "(peer_at s1 i)\<lparr>recv_buffer := b, contact := (contact (peer_at s1 i))\<lparr>peer_id := pid\<rparr>\<rparr>"
    let ?s = "set_peer i ?p s1"
    have i1: "i \<in> live s1" using c1 by (rule counted_live)
    have c2: "counted i ?s"
      using l1 dec counted_failures [OF c1]
      by (intro counted_set [OF c1]) (simp_all add: loose_def buffers_ok_def contact_ok_def contact_key_def)
    have h2: "handshaking (peer_at ?s i)" "source (peer_at ?s i) = source (peer_at s i)"
      using at1 i1 by (simp_all add: handshaking_def)
    have stays: "manager_inv {} ?s"
    proof -
      have "readable (send_buffer (peer_at s i)) = 0" if "source (peer_at s i) = Tcp_server"
        using that fl armed st by (simp add: in_flight_def)
      then have "conn_ok (peer_at ?s i) \<and> phase (peer_at ?s i) \<in> {Inbound, Outbound}"
        by (intro goes_on_ok [OF inv_conn_ok [OF inv, of i] fl st]) (use i i1 st at1 fails in simp_all)
      then show ?thesis using counted_attach [OF c2] by blast
    qed
    have gone: "guarantees (hard_delete_peer_connection i ?s) (manager_inv {})" using hard_delete_inv [OF c2] by fastforce
    have sent: "manager_inv {} (handle_peer_connection_and_dispatch i ?s)"
      using dispatch_inv [OF c2] h2 quota at1(2) by (simp add: handshaking_def)
    have same: "source (peer_at (handle_peer_connection_and_dispatch i ?s) i) = source (peer_at s i)"
      using i1 at1(5) by (simp add: handle_peer_connection_and_dispatch_def stop_connection_watchers_def watchers_stop_def Let_def)
    have reply: "guarantees (handshake_reply i ?s) (manager_inv {})" if "source (peer_at s i) = Tcp_server"
    proof (rule handshake_reply_inv [OF c2 h2(1)])
      show "readable (send_buffer (peer_at ?s i)) = 0"
        using that fl armed st i1 at1(6) by (simp add: in_flight_def)
    qed (use that h2 len at1 quota in simp_all)
    show ?thesis
      unfolding Let_def dec(1) using stays gone sent same reply h2(2) by auto
  qed
  show ?thesis
    unfolding handshake_read_def
  proof (rule guarantees_then [OF peer_recv_spec [OF c]], clarify)
    fix r s1 assume s1: "received_to i s r s1"
    then have "counted i s1" by (simp add: received_to_def)
    from failure_guarantee [OF this] after [OF s1] show "guarantees (if \<not> recv_ok r then handle_peer_failure i s1
       else let p = peer_at s1 i
         in bind_fault (handshake_decode (recv_buffer p) (info_hash s1) (peer_id (contact p))) (\<lambda>(result, pid, b).
              let s = set_peer i (p\<lparr>recv_buffer := b, contact := (contact p)\<lparr>peer_id := pid\<rparr>\<rparr>) s1
              in if \<not> complete result then Inr s
                 else if \<not> is_valid result then hard_delete_peer_connection i s
                 else
                   let s = (if source (peer_at s i) = Tracker then handle_peer_connection_and_dispatch i s else s)
                   in if source (peer_at s i) = Tcp_server then handshake_reply i s else Inr s)) (manager_inv {})"
      by simp
  qed
qed

text \<open>
  What the event loop promises: it reports only events that the active watcher asked for, an
  error, or what has been fed to it.
\<close>

definition may_fire :: "PeerConnection \<Rightarrow> ev_flag set \<Rightarrow> bool" where
  "may_fire p event \<longleftrightarrow> (io_active (for_sock p) \<and> event \<subseteq> insert EV_ERROR (io_events (for_sock p)))
     \<or> (io_pending (for_sock p) \<noteq> {} \<and> event = io_pending (for_sock p))"

lemma fired_in_flight:
  assumes inv: "manager_inv {} s" and i: "i \<in> live s" and fire: "may_fire (peer_at s i) event"
  shows "phase (peer_at s i) \<in> {Inbound, Outbound} \<and> in_flight (peer_at s i)"
  using inv_conn_ok [OF inv, of i] i fire
  by (cases "phase (peer_at s i)") (auto simp: conn_ok_def io_quiet_def may_fire_def)

lemma fired_armed:
  assumes "in_flight p" and "may_fire p event" and "source p = Tcp_server"
  shows "EV_WRITE \<in> event \<Longrightarrow> io_events (for_sock p) = {EV_WRITE}"
    and "EV_READ \<in> event \<Longrightarrow> io_events (for_sock p) = {EV_READ}"
  using assms by (auto simp: in_flight_def may_fire_def)

lemma socket_callback_inv:
  assumes inv: "manager_inv {} s" and i: "i \<in> live s" and fire: "may_fire (peer_at s i) event" and sane: "option_sane s"
  shows "guarantees (peer_socket_callback i event s) (manager_inv {})"
proof -
  have fl: "phase (peer_at s i) \<in> {Inbound, Outbound}" "in_flight (peer_at s i)"
    using fired_in_flight [OF inv i fire] by auto
  have c: "counted i s" by (rule counted_intro [OF inv i fl(1)])
  have src: "source (peer_at s i) \<noteq> Source_null" by (rule looseD(6) [OF counted_loose [OF c]])
  show ?thesis
  proof (cases "has_met_connection_quota (statistics s) \<or> EV_ERROR \<in> event")
    case True
    have "guarantees (hard_delete_peer_connection i s) (manager_inv {})" using hard_delete_inv [OF c] by fastforce
    moreover have "state (peer_at s i) \<noteq> CONNECTED" using fl(1) by (auto simp: phase_def)
    ultimately show ?thesis
      using True src failure_guarantee [OF c] by (auto simp: peer_socket_callback_def Let_def)
  next
    case False
    then have quota: "connected_bittorrent_peers (statistics s) < healthy_peer_count"
      by (simp add: has_met_connection_quota_def split: if_splits)
    have "state (peer_at s i) = TRANSPORT \<and> socket_at s i \<noteq> - 1 \<or> state (peer_at s i) = HANDSHAKE"
      using fl(2) unfolding in_flight_def by blast
    then show ?thesis
    proof
      assume st: "state (peer_at s i) = TRANSPORT \<and> socket_at s i \<noteq> - 1"
      then show ?thesis
        using transport_inv [OF inv i _ _ sane, of event] False src by (simp add: peer_socket_callback_def Let_def)
    next
      assume st: "state (peer_at s i) = HANDSHAKE"
      have "guarantees (handle_peer_application_level_handshake i event s) (manager_inv {})"
        using handshake_write_inv [OF inv i st quota] handshake_read_inv [OF inv i st quota] fired_armed [OF fl(2) fire] inv
        by (auto simp: handle_peer_application_level_handshake_def)
      then show ?thesis using st False src by (simp add: peer_socket_callback_def Let_def)
    qed
  qed
qed

section \<open>Timers and the retry queue\<close>

lemma retry_push:
  assumes inv: "manager_inv {i} s" and i: "i \<in> live s" and p: "conn_ok (peer_at s i)" "phase (peer_at s i) = Waiting"
  shows "manager_inv {} (s\<lparr>retry_queue := retry_queue s @ [\<lparr>connection = i, cached_generation = generation_at s i\<rparr>],
    statistics := increment_peers_in_retry (statistics s)\<rparr>)" (is "manager_inv {} ?s")
proof -
  have r: "retry_inv {i} s" using inv by (simp add: manager_inv_def)
  have sub: "connection ` set (retry_queue s) \<subseteq> {..<pool_capacity}"
  proof
    fix j assume "j \<in> connection ` set (retry_queue s)"
    then have "j \<in> live s" using r by (auto simp: retry_inv_def)
    then show "j \<in> {..<pool_capacity}" using live_bound [of j s] inv by simp
  qed
  have "length (retry_queue s) = card (connection ` set (retry_queue s))"
    using r distinct_card [of "map connection (retry_queue s)"] by (simp add: retry_inv_def)
  also have "\<dots> \<le> pool_capacity" using card_mono [OF _ sub] by simp
  finally have small: "peers_in_retry (statistics s) < 2 ^ 63"
    using r by (simp add: retry_inv_def pool_capacity_def)
  have "retry_inv {} ?s"
    using r i p small unfolding retry_inv_def
    by (auto simp: increment_peers_in_retry_def sz_step)
  moreover have "counters_inv {} ?s"
  proof -
    have "phase_count {} ?s q = phase_count {} s q" for q by (rule phase_count_cong) simp_all
    moreover have "phase_count {} s q = phase_count {i} s q" if "q \<noteq> Waiting" for q
      using phase_count_insert [of i s "{}" q] i p(2) that by simp
    ultimately show ?thesis using inv by (simp add: manager_inv_def counters_inv_def increment_peers_in_retry_def)
  qed
  moreover have "\<forall>j\<in>live s. conn_ok (peer_at s j)" using inv p(1) by (auto simp: manager_inv_def)
  ultimately show ?thesis
    using inv by (simp add: manager_inv_def slots_inv_def table_inv_def fds_inv_def cache_inv_def increment_peers_in_retry_def)
qed

lemma retry_pop:
  assumes inv: "manager_inv {} s" and q: "retry_queue s = f # queue"
  shows "manager_inv {connection f} (s\<lparr>retry_queue := queue, statistics := decrement_peers_in_retry (statistics s)\<rparr>)"
    (is "manager_inv {?i} ?s")
    and "connection f \<in> live s" "phase (peer_at s (connection f)) = Waiting" "generation_at s (connection f) = cached_generation f"
proof -
  have r: "retry_inv {} s" using inv by (simp add: manager_inv_def)
  then show f: "connection f \<in> live s" "phase (peer_at s (connection f)) = Waiting"
    "generation_at s (connection f) = cached_generation f"
    by (auto simp: retry_inv_def q)
  have "length queue < pool_capacity + 1"
  proof -
    have "connection ` set queue \<subseteq> {..<pool_capacity}"
    proof
      fix j assume "j \<in> connection ` set queue"
      then have "j \<in> live s" using r by (auto simp: retry_inv_def q)
      then show "j \<in> {..<pool_capacity}" using live_bound [of j s] inv by simp
    qed
    from card_mono [OF _ this] have "card (connection ` set queue) \<le> pool_capacity" by simp
    moreover have "length queue = card (connection ` set queue)"
      using r distinct_card [of "map connection queue"] by (simp add: retry_inv_def q)
    ultimately show ?thesis by simp
  qed
  then have small: "peers_in_retry (statistics s) < 2 ^ 63" "peers_in_retry (statistics s) = Suc (length queue)"
    using r by (simp_all add: retry_inv_def q pool_capacity_def)
  have "retry_inv {?i} ?s"
  proof -
    have "connection f \<notin> connection ` set queue" using r by (simp add: retry_inv_def q)
    then have "connection g \<noteq> connection f" if "g \<in> set queue" for g using that by (metis imageI)
    then show ?thesis
      using r f small unfolding retry_inv_def q by (auto simp: decrement_peers_in_retry_def sz_step)
  qed
  moreover have "counters_inv {?i} ?s"
  proof -
    have "phase_count {?i} ?s q = phase_count {?i} s q" for q by (rule phase_count_cong) simp_all
    moreover have "phase_count {} s q = phase_count {?i} s q" if "q \<noteq> Waiting" for q
      using phase_count_insert [of ?i s "{}" q] f that by simp
    ultimately show ?thesis using inv by (simp add: manager_inv_def counters_inv_def decrement_peers_in_retry_def)
  qed
  ultimately show "manager_inv {?i} ?s"
    using inv by (simp add: manager_inv_def slots_inv_def table_inv_def fds_inv_def cache_inv_def decrement_peers_in_retry_def)
qed

lemma timer_callback_inv:
  assumes inv: "manager_inv {} s" and i: "i \<in> live s" and timer: "timer_active (for_timer (peer_at s i))"
  shows "\<exists>s'. peer_timer_callback i s = Inr s' \<and> manager_inv {} s'"
proof (cases "state (peer_at s i) = FAILED")
  case True
  let ?p = "peer_at s i"
  let ?q = "(watchers_stop ?p)\<lparr>state := TRANSPORT\<rparr>"
  have ph: "phase ?p = Broken" using True by (simp add: phase_def)
  have ok: "conn_ok ?p" using inv_conn_ok [OF inv, of i] i by simp
  have "manager_inv {i} (s\<lparr>statistics := decrement_failed (statistics s)\<rparr>)"
    using detach [OF inv, of i] i ph by simp
  moreover have q: "loose ?q" "conn_ok ?q" "phase ?q = Waiting"
    using inv_loose [OF inv i] ok ph
    by (simp_all add: loose_def buffers_ok_def buffers_empty_def conn_ok_def phase_def io_quiet_def watchers_stop_def
        io_stop_def timer_stop_def)
  ultimately have "manager_inv {i} (set_peer i ?q (s\<lparr>statistics := decrement_failed (statistics s)\<rparr>))"
    using i by (intro set_peer_inv) (simp_all add: watchers_stop_def)
  from retry_push [OF this] i q have "manager_inv {} ((set_peer i ?q (s\<lparr>statistics := decrement_failed (statistics s)\<rparr>))
      \<lparr>retry_queue := retry_queue s @ [\<lparr>connection = i, cached_generation = generation_at s i\<rparr>],
       statistics := increment_peers_in_retry (decrement_failed (statistics s))\<rparr>)" by simp
  then show ?thesis
    using True i by (simp add: peer_timer_callback_def stop_connection_watchers_def Let_def)
next
  case False
  have "phase (peer_at s i) \<in> {Inbound, Outbound}"
    using inv_conn_ok [OF inv, of i] i timer False
    by (cases "phase (peer_at s i)") (auto simp: conn_ok_def phase_def split: if_splits)
  then have c: "counted i s" by (rule counted_intro [OF inv i])
  moreover have "state (peer_at s i) \<noteq> CONNECTED" using \<open>phase _ \<in> _\<close> by (auto simp: phase_def)
  ultimately show ?thesis using handle_peer_failure_inv [OF c] False by (simp add: peer_timer_callback_def)
qed

section \<open>Starting connections\<close>

text \<open>
  A detached slot that waits for its first or next attempt: the attempt is filed as in flight, or
  the slot is left as it was.
\<close>

definition waiting_slot :: "nat \<Rightarrow> manager \<Rightarrow> bool" where
  "waiting_slot i s \<longleftrightarrow> i \<in> live s \<and> manager_inv {i} s \<and> conn_ok (peer_at s i) \<and> phase (peer_at s i) = Waiting
     \<and> state (peer_at s i) = TRANSPORT"

lemma phase_waiting: "phase p = Waiting \<Longrightarrow> state p = TRANSPORT \<and> tcp_socket (tcp p) = - 1"
  by (simp add: phase_def split: if_splits)

definition connected_to :: "nat \<Rightarrow> manager \<Rightarrow> bool \<Rightarrow> manager \<Rightarrow> bool" where
  "connected_to i s ok s' \<longleftrightarrow> live s' = live s \<and> manager_inv {i} s' \<and> statistics s' = statistics s
     \<and> available (connection_pool s') = available (connection_pool s) \<and> peers s' = peers s
     \<and> contact (peer_at s' i) = contact (peer_at s i)
     \<and> (if ok then conn_ok (peer_at s' i) \<and> phase (peer_at s' i) = Inbound else socket_at s' i = - 1)"

lemma open_socket_spec:
  "tcp_socket t = - 1 \<Longrightarrow> guarantees (open_socket domain t k) (\<lambda>(ok, t', k').
     if ok then 0 \<le> tcp_socket t' \<and> tcp_socket t' \<notin> set (open_fds k) \<and> open_fds k' = tcp_socket t' # open_fds k
     else tcp_socket t' = - 1 \<and> open_fds k' = open_fds k)"
  unfolding open_socket_def Let_def
  by (auto simp: open_fd_def intro!: guarantees_then [OF retry_eintr_guarantees] split: sum.splits)

lemma pconnect_spec:
  "guarantees (pconnect domain t k) (\<lambda>(r, t', k'). tcp_socket t' = tcp_socket t \<and> open_fds k' = open_fds k)"
  unfolding pconnect_def Let_def
  by (auto intro!: guarantees_then [OF retry_eintr_guarantees] split: sum.splits)

lemma peer_connect_inv:
  assumes w: "waiting_slot i s"
  shows "guarantees (peer_connect i s) (\<lambda>(ok, s'). connected_to i s ok s')"
proof -
  let ?p = "peer_at s i"
  have i: "i \<in> live s" and inv: "manager_inv {i} s" and ph: "phase ?p = Waiting" using w by (auto simp: waiting_slot_def)
  have p: "source ?p = Tracker" "socket_at s i = - 1" "buffers_empty ?p" "state ?p = TRANSPORT" "failures ?p < max_reties"
    using w phase_waiting [OF ph] by (auto simp: waiting_slot_def conn_ok_def)
  have loose: "loose ?p" by (rule inv_loose [OF inv i])
  have idle: "manager_inv {i} (set_peer i (?p\<lparr>tcp := t\<rparr>) (s\<lparr>kernel := k\<rparr>))"
    if "tcp_socket t = - 1" "open_fds k = open_fds (kernel s)" for t k
  proof -
    have "manager_inv {i} (s\<lparr>kernel := k\<rparr>)" using inv kernel_frame [OF that(2)] by blast
    then show ?thesis using i loose p(2) that(1)
      by (intro set_peer_inv) (simp_all add: loose_def buffers_ok_def)
  qed
  have busy: "manager_inv {i} (set_peer i (?p\<lparr>tcp := t\<rparr>) (s\<lparr>kernel := k\<rparr>))"
    if "tcp_socket t = fd" "0 \<le> fd" "fd \<notin> set (open_fds (kernel s))" "open_fds k = fd # open_fds (kernel s)" for t k fd
  proof (rule set_socket_inv [OF inv i])
    show "fds_inv (set_peer i (?p\<lparr>tcp := t\<rparr>) (s\<lparr>kernel := k\<rparr>))"
      using inv i p(2) that by (intro opened_fds) (simp_all add: manager_inv_def)
  qed (use loose in \<open>simp_all add: loose_def buffers_ok_def\<close>)
  have closed: "connected_to i s False (close_peer_socket i s1)"
    if "s1 = set_peer i (?p\<lparr>tcp := t\<rparr>) (s\<lparr>kernel := k\<rparr>)" "manager_inv {i} s1" for s1 t k
    using close_inv [OF that(2)] i that(1) closed_socket [of i s1] close_peer_socket_eq [of i s1]
    by (simp add: connected_to_def)
  have armed: "connected_to i s True (set_peer i p' s1)"
    if "s1 = set_peer i (?p\<lparr>tcp := t\<rparr>) (s\<lparr>kernel := k\<rparr>)" "manager_inv {i} s1" "tcp_socket t \<noteq> - 1"
      "p' = ?p\<lparr>tcp := t, for_sock := \<lparr>io_active = True, io_fd = tcp_socket t, io_events = {EV_WRITE}, io_pending = pe\<rparr>,
         for_timer := timer_start connect_timeout ti, state := st\<rparr>"
      "st = TRANSPORT \<and> pe = {} \<or> st = HANDSHAKE \<and> pe = {EV_WRITE}" for s1 t k p' pe ti st
  proof -
    have i1: "i \<in> live s1" using that(1) i by simp
    have "manager_inv {i} (set_peer i p' s1)"
      using loose that(1,4) i by (intro set_peer_inv [OF that(2) i1]) (simp_all add: loose_def buffers_ok_def)
    moreover have "phase p' = Inbound" using that(3,4,5) p by (auto simp: phase_def)
    moreover have "conn_ok p'" using that(3,4,5) p by (auto simp: conn_ok_def phase_def in_flight_def timer_start_def buffers_empty_def)
    ultimately show ?thesis using i that(1,4) by (simp add: connected_to_def)
  qed
  have attempt: "guarantees
      (bind_fault (pconnect d (tcp (peer_at s1 i)) (kernel s1)) (\<lambda>(resolve, t, k).
         let s = set_peer i ((peer_at s1 i)\<lparr>tcp := t\<rparr>) (s1\<lparr>kernel := k\<rparr>)
         in if resolve = Failed then Inr (False, close_peer_socket i s)
            else
              let s = arm_connection_watchers i {EV_WRITE} s;
                  p = peer_at s i
              in if resolve = Connected
                 then Inr (True, set_peer i (p\<lparr>state := HANDSHAKE, for_sock := feed_event {EV_WRITE} (for_sock p)\<rparr>) s)
                 else Inr (True, s)))
      (\<lambda>(ok, s'). connected_to i s ok s')"
    if s1: "s1 = set_peer i (?p\<lparr>tcp := t1\<rparr>) (s\<lparr>kernel := k1\<rparr>)" "0 \<le> tcp_socket t1"
      "tcp_socket t1 \<notin> set (open_fds (kernel s))" "open_fds k1 = tcp_socket t1 # open_fds (kernel s)" for s1 t1 k1 d
  proof (rule guarantees_then [OF pconnect_spec], clarify)
    fix r and t :: peer_nonblock_tcp and k :: kernel assume tk: "tcp_socket t = tcp_socket (tcp (peer_at s1 i))" "open_fds k = open_fds (kernel s1)"
    let ?s2 = "set_peer i (?p\<lparr>tcp := t\<rparr>) (s\<lparr>kernel := k\<rparr>)"
    have s2: "set_peer i ((peer_at s1 i)\<lparr>tcp := t\<rparr>) (s1\<lparr>kernel := k\<rparr>) = ?s2" using s1(1) i by simp
    have t: "tcp_socket t = tcp_socket t1" "open_fds k = tcp_socket t1 # open_fds (kernel s)"
      using tk s1(1,4) i by simp_all
    have inv2: "manager_inv {i} ?s2" using t s1(2,3) by (intro busy) simp_all
    have sock: "tcp_socket t \<noteq> - 1" using t(1) s1(2) by simp
    let ?arm = "\<lambda>st pe. ?p\<lparr>tcp := t, for_sock := \<lparr>io_active = True, io_fd = tcp_socket t, io_events = {EV_WRITE}, io_pending = pe\<rparr>,
      for_timer := timer_start connect_timeout (timer_stop (for_timer ?p)), state := st\<rparr>"
    have same: "?arm TRANSPORT {} = ?p\<lparr>tcp := t,
      for_sock := \<lparr>io_active = True, io_fd = tcp_socket t, io_events = {EV_WRITE}, io_pending = {}\<rparr>,
      for_timer := timer_start connect_timeout (timer_stop (for_timer ?p))\<rparr>"
      using p(4) by (cases ?p) simp
    have arm: "arm_connection_watchers i {EV_WRITE} ?s2 = set_peer i (?arm TRANSPORT {}) ?s2"
      unfolding same using i by (simp add: arm_connection_watchers_def modify_eq Let_def)
    have fed: "set_peer i ((peer_at (set_peer i (?arm TRANSPORT {}) ?s2) i)\<lparr>state := HANDSHAKE,
        for_sock := feed_event {EV_WRITE} (for_sock (peer_at (set_peer i (?arm TRANSPORT {}) ?s2) i))\<rparr>)
        (set_peer i (?arm TRANSPORT {}) ?s2) = set_peer i (?arm HANDSHAKE {EV_WRITE}) ?s2"
      using i by (simp add: feed_event_def) (cases ?p, simp)
    have "connected_to i s True (set_peer i (?arm TRANSPORT {}) ?s2)" by (rule armed [OF refl inv2 sock refl]) simp
    moreover have "connected_to i s True (set_peer i (?arm HANDSHAKE {EV_WRITE}) ?s2)"
      by (rule armed [OF refl inv2 sock refl]) simp
    moreover have "connected_to i s False (close_peer_socket i ?s2)" by (rule closed [OF refl inv2])
    ultimately show "guarantees
         (let s = set_peer i ((peer_at s1 i)\<lparr>tcp := t\<rparr>) (s1\<lparr>kernel := k\<rparr>)
         in if r = Failed then Inr (False, close_peer_socket i s)
            else
              let s = arm_connection_watchers i {EV_WRITE} s;
                  p = peer_at s i
              in if r = Connected
                 then Inr (True, set_peer i (p\<lparr>state := HANDSHAKE, for_sock := feed_event {EV_WRITE} (for_sock p)\<rparr>) s)
                 else Inr (True, s)) (\<lambda>(ok, s'). connected_to i s ok s')"
      unfolding s2 arm Let_def fed by simp
  qed
  have quiet: "connected_to i s False (set_peer i (?p\<lparr>tcp := t\<rparr>) (s\<lparr>kernel := k\<rparr>))"
    if "tcp_socket t = - 1" "open_fds k = open_fds (kernel s)" for t k
    using idle [OF that] i that by (simp add: connected_to_def)
  have tracker: "source ?p \<noteq> Tracker \<longleftrightarrow> False" using p(1) by simp
  show ?thesis
    unfolding peer_connect_def tracker if_False Let_def [of "sa_family (store ?p)"]
  proof (rule guarantees_then [OF open_socket_spec], rule p(2), clarify)
    fix ok and t :: peer_nonblock_tcp and k :: kernel
    assume o: "if ok then 0 \<le> tcp_socket t \<and> tcp_socket t \<notin> set (open_fds (kernel s)) \<and> open_fds k = tcp_socket t # open_fds (kernel s)
       else tcp_socket t = - 1 \<and> open_fds k = open_fds (kernel s)"
    let ?s1 = "set_peer i (?p\<lparr>tcp := t\<rparr>) (s\<lparr>kernel := k\<rparr>)"
    show "guarantees
       (let s = ?s1 in if ok = False then Inr (False, s)
        else bind_fault (pconnect (sa_family (store ?p)) (tcp (peer_at s i)) (kernel s)) (\<lambda>(resolve, t, k).
          let s = set_peer i ((peer_at s i)\<lparr>tcp := t\<rparr>) (s\<lparr>kernel := k\<rparr>)
          in if resolve = Failed then Inr (False, close_peer_socket i s)
             else
               let s = arm_connection_watchers i {EV_WRITE} s;
                   p = peer_at s i
               in if resolve = Connected
                  then Inr (True, set_peer i (p\<lparr>state := HANDSHAKE, for_sock := feed_event {EV_WRITE} (for_sock p)\<rparr>) s)
                  else Inr (True, s))) (\<lambda>(ok, s'). connected_to i s ok s')"
    proof (cases ok)
      case True
      then show ?thesis using attempt [OF refl, of t k] o unfolding Let_def [of ?s1] by simp
    next
      case False
      then show ?thesis using quiet [of t k] o by simp
    qed
  qed
qed

lemma initiate_inv:
  assumes w: "waiting_slot i s" and room: "inbound_inflight (statistics s) < max_inbound_inflight"
  shows "guarantees (initiate_connect i s) (\<lambda>(ok, s'). live s' = live s
    \<and> available (connection_pool s') = available (connection_pool s)
    \<and> (if ok then manager_inv {} s' else manager_inv {i} s' \<and> socket_at s' i = - 1 \<and> statistics s' = statistics s))"
proof -
  have i: "i \<in> live s" and "phase (peer_at s i) = Waiting" using w by (auto simp: waiting_slot_def)
  then have "source (peer_at s i) = Tracker" using w by (auto simp: waiting_slot_def conn_ok_def)
  then have tracker: "source (peer_at s i) \<noteq> Tracker \<longleftrightarrow> False" by simp
  show ?thesis
    unfolding initiate_connect_def tracker if_False
  proof (rule guarantees_then [OF peer_connect_inv [OF w]], clarify)
    fix ok s1 assume c: "connected_to i s ok s1"
    have "manager_inv {} (s1\<lparr>statistics := increment_inbound_inflight (statistics s1)\<rparr>)" if ok
      using attach [of "{i}" s1 i] c that i room by (simp add: connected_to_def)
    with c show "guarantees (if ok then Inr (True, s1\<lparr>statistics := increment_inbound_inflight (statistics s1)\<rparr>) else Inr (False, s1))
       (\<lambda>(ok, s'). live s' = live s \<and> available (connection_pool s') = available (connection_pool s)
         \<and> (if ok then manager_inv {} s' else manager_inv {i} s' \<and> socket_at s' i = - 1 \<and> statistics s' = statistics s))"
      by (auto simp: connected_to_def)
  qed
qed

text \<open>What one entry of a scheduler's source leads to.\<close>

definition entry_done :: "manager \<Rightarrow> bool \<Rightarrow> manager \<Rightarrow> bool" where
  "entry_done s ok s' \<longleftrightarrow> manager_inv {} s' \<and>
     (\<not> ok \<longrightarrow> inbound_inflight (statistics s') = inbound_inflight (statistics s)
        \<and> available (connection_pool s) \<le> available (connection_pool s'))"

text \<open>Both schedulers end the same way: the attempt is started or the slot is given back.\<close>

lemma start_or_delete:
  assumes w: "waiting_slot i s" and room: "inbound_inflight (statistics s) < max_inbound_inflight"
    and same: "inbound_inflight (statistics s0) = inbound_inflight (statistics s)"
      "available (connection_pool s0) \<le> available (connection_pool s) + 1"
  shows "guarantees (bind_fault (initiate_connect i s) (\<lambda>(ok, s).
      if ok then Inr (True, s) else bind_fault (delete_peer_connection i s) (\<lambda>s. Inr (False, s))))
    (\<lambda>(ok, s'). entry_done s0 ok s')"
proof (rule guarantees_then [OF initiate_inv [OF w room]], clarify)
  fix ok s1
  assume r: "live s1 = live s" "available (connection_pool s1) = available (connection_pool s)"
    "if ok then manager_inv {} s1 else manager_inv {i} s1 \<and> socket_at s1 i = - 1 \<and> statistics s1 = statistics s"
  show "guarantees (if ok then Inr (True, s1) else bind_fault (delete_peer_connection i s1) (\<lambda>s. Inr (False, s)))
    (\<lambda>(ok, s'). entry_done s0 ok s')"
  proof (cases ok)
    case True
    then show ?thesis using r by (simp add: entry_done_def)
  next
    case False
    have "i \<in> live s1" using r(1) w by (simp add: waiting_slot_def)
    then obtain s2 where "delete_peer_connection i s1 = Inr s2" "manager_inv ({i} - {i}) s2" "freed i s1 s2"
      using delete_inv [of "{i}" s1 i] r False by auto
    then show ?thesis using False r same by (simp add: entry_done_def freed_def)
  qed
qed

lemma failed_one_inv:
  assumes inv: "manager_inv {} s" and q: "retry_queue s = f # queue"
    and room: "inbound_inflight (statistics s) < max_inbound_inflight"
  shows "guarantees (failed_one f (s\<lparr>retry_queue := queue\<rparr>)) (\<lambda>(ok, s'). entry_done s ok s')"
proof -
  let ?s = "s\<lparr>retry_queue := queue, statistics := decrement_peers_in_retry (statistics s)\<rparr>"
  note pop = retry_pop [OF inv q]
  have w: "waiting_slot (connection f) ?s"
    using pop inv_conn_ok [OF inv, of "connection f"] phase_waiting [OF pop(3)] by (simp add: waiting_slot_def)
  have same: "inbound_inflight (statistics ?s) = inbound_inflight (statistics s)" by (simp add: decrement_peers_in_retry_def)
  have "failed_one f (s\<lparr>retry_queue := queue\<rparr>) = bind_fault (initiate_connect (connection f) ?s) (\<lambda>(ok, s).
      if ok then Inr (True, s) else bind_fault (delete_peer_connection (connection f) s) (\<lambda>s. Inr (False, s)))"
    using pop(4) by (simp add: failed_one_def Let_def)
  then show ?thesis using start_or_delete [OF w, of s] room same by simp
qed

text \<open>A contact that is known already: its slot goes back at once.\<close>

lemma acquire_release_inv:
  assumes inv: "manager_inv {} s" and a: "acquire (connection_pool s) = (Some i, cp)"
  shows "\<exists>s'. release_slot i (s\<lparr>connection_pool := cp\<rparr>) = Inr s' \<and> manager_inv {} s' \<and> statistics s' = statistics s
    \<and> available (connection_pool s') = available (connection_pool s)"
proof -
  have v: "pool_valid (connection_pool s)" "length (pool (connection_pool s)) = pool_capacity"
    using inv by (auto simp: manager_inv_def slots_inv_def)
  have cp: "pool_valid cp" "i < pool_capacity" "i \<notin> live s" "live_slots cp = insert i (live s)" "pool cp = pool (connection_pool s)"
    using acquire_some_pool [OF v(1) a] v(2) by auto
  obtain q where q: "release i cp = Inr q" "pool_valid q" "live_slots q = live_slots cp - {i}" "length (pool q) = length (pool cp)"
    "map generation (pool q) = (map generation (pool cp))[i := sz_add (generation (pool cp ! i)) 1]"
    "map object (pool q) = map object (pool cp)" "available_slots q = available_slots cp @ [i]"
    using release_live_pool [OF cp(1), of i] cp(4) by auto
  let ?s = "s\<lparr>connection_pool := q\<rparr>"
  have live: "live ?s = live s" using q(3) cp(3,4) by auto
  have obj: "peer_at ?s j = peer_at s j" if "j < pool_capacity" for j
    using arg_cong [OF q(6), of "\<lambda>xs. xs ! j"] that q(4) cp(5) v(2) by (simp add: peer_at_def)
  have gen: "generation_at ?s j = generation_at s j" if "j \<in> live s" for j
  proof -
    have "j < pool_capacity" "j \<noteq> i" using that live_bound [of j s] v(2) cp(3) by auto
    then show ?thesis
      using arg_cong [OF q(5), of "\<lambda>xs. xs ! j"] q(4) cp(5) v(2) by (simp add: generation_at_def)
  qed
  have peer: "peer_at ?s j = peer_at s j" if "j \<in> live s" for j
    using that live_bound [of j s] v(2) obj by simp
  have count: "phase_count {} ?s ph = phase_count {} s ph" for ph
    using live peer by (intro phase_count_cong) auto
  have "slots_inv ?s" using inv q(2,4) cp(5) v(2) live obj peer by (auto simp: manager_inv_def slots_inv_def)
  moreover have "table_inv ?s"
    using inv live peer indexes_cong [of "live s" "\<lambda>j. contact_key (contact (peer_at ?s j))" "\<lambda>j. contact_key (contact (peer_at s j))"]
    unfolding manager_inv_def table_inv_def by simp
  moreover have "fds_inv ?s"
    by (rule fds_owners [of s]) (use inv live peer in \<open>auto simp: manager_inv_def\<close>)
  moreover have "counters_inv {} ?s" using inv count by (simp add: manager_inv_def counters_inv_def)
  moreover have "retry_inv {} ?s" using inv live peer gen unfolding manager_inv_def retry_inv_def by auto
  moreover have "cache_inv ?s" using inv by (simp add: manager_inv_def cache_inv_def)
  moreover have "\<forall>j\<in>live ?s. conn_ok (peer_at ?s j)" using inv live peer by (simp add: manager_inv_def)
  ultimately have "manager_inv {} ?s" using inv by (simp add: manager_inv_def)
  moreover have "available q = available (connection_pool s)"
    using a q(7) by (auto simp: acquire_def available_def Let_def split: if_splits)
  ultimately show ?thesis using q(1) by (simp add: release_slot_def)
qed

end
