(* ===== verification/ManagerSafety.thy ===== *)
theory ManagerSafety
  imports ManagerInvariant
begin

text \<open>
  The connection manager as a whole: the remaining callbacks keep the invariant, the event loop
  is a step relation over all of them, and the properties of every state that can be reached.
\<close>

section \<open>The discovery cache\<close>

lemma cache_fields:
  assumes inv: "manager_inv X s" and c: "cache_inv (s\<lparr>discovery_cache := c, discovered := d, statistics := st\<rparr>)"
    and st: "st = (statistics s)\<lparr>ipv4_addr_in_cache := n\<rparr>"
  shows "manager_inv X (s\<lparr>discovery_cache := c, discovered := d, statistics := st\<rparr>)" (is "manager_inv X ?s")
proof -
  have count: "phase_count X ?s q = phase_count X s q" for q by (rule phase_count_cong) simp_all
  have "slots_inv ?s = slots_inv s" "table_inv ?s = table_inv s" "fds_inv ?s = fds_inv s" "retry_inv X ?s = retry_inv X s"
    by (simp_all add: slots_inv_def table_inv_def fds_inv_def retry_inv_def st)
  moreover have "counters_inv X ?s = counters_inv X s"
    unfolding counters_inv_def count by (simp add: st)
  ultimately show ?thesis using inv c by (simp add: manager_inv_def)
qed

lemma cache_pop_inv:
  assumes inv: "manager_inv {} s" and pop: "fresh_pop (discovery_cache s) = (Some e, c)"
  shows "contact_ok e"
    and "manager_inv {} (s\<lparr>discovery_cache := c, statistics := decrement_addr_in_cache (statistics s)\<rparr>)"
proof -
  let ?c = "discovery_cache s"
  have v: "cache_valid ?c" "length (cache ?c) = cache_capacity" "ipv4_addr_in_cache (statistics s) = cache_size ?c"
    "\<And>x. x \<in> set (elements ?c) \<Longrightarrow> contact_ok x" "\<And>x. x \<in> set (discovered s) \<Longrightarrow> contact_ok x"
    using inv by (auto simp: manager_inv_def cache_inv_def)
  have el: "elements ?c \<noteq> []" "e = last (elements ?c)" "cache_valid c" "elements c = butlast (elements ?c)"
    using fresh_pop_elements [OF v(1)] pop by (auto split: if_splits)
  then show "contact_ok e" using v(4) by simp
  have len: "length (cache c) = cache_capacity" using pop v(2) by (auto simp: fresh_pop_def Let_def split: if_splits)
  have size: "cache_size c = cache_size ?c - 1" "0 < cache_size ?c" "cache_size ?c \<le> 200"
    using el length_elements [of c] length_elements [of ?c] v(1,2)
    by (simp_all add: cache_valid_def cache_capacity_def del: length_elements flip: length_greater_0_conv)
  have st: "decrement_addr_in_cache (statistics s) = (statistics s)\<lparr>ipv4_addr_in_cache := cache_size ?c - 1\<rparr>"
    using size v(3) by (simp add: decrement_addr_in_cache_def sz_step)
  have "cache_inv (s\<lparr>discovery_cache := c, discovered := discovered s, statistics := decrement_addr_in_cache (statistics s)\<rparr>)"
    using v el len size by (auto simp: cache_inv_def st dest: in_set_butlastD)
  from cache_fields [OF inv this st]
  show "manager_inv {} (s\<lparr>discovery_cache := c, statistics := decrement_addr_in_cache (statistics s)\<rparr>)" by simp
qed

lemma cache_push_inv:
  assumes inv: "manager_inv X s" and d: "discovered s = addr # addrs"
  shows "manager_inv X (s\<lparr>discovered := addrs, discovery_cache := push addr (discovery_cache s),
    statistics := increment_addr_in_cache (statistics s)\<rparr>)"
proof -
  let ?c = "discovery_cache s"
  have v: "cache_valid ?c" "length (cache ?c) = cache_capacity" "ipv4_addr_in_cache (statistics s) = cache_size ?c"
    "\<And>x. x \<in> set (elements ?c) \<Longrightarrow> contact_ok x" "\<And>x. x \<in> set (discovered s) \<Longrightarrow> contact_ok x"
    using inv by (auto simp: manager_inv_def cache_inv_def)
  have p: "cache_valid (push addr ?c)"
    "elements (push addr ?c) = (if cache_size ?c < 200 then elements ?c else tl (elements ?c)) @ [addr]"
    using push_room [OF v(1)] push_full [OF v(1)] v(2) by (auto simp: cache_capacity_def)
  have le: "cache_size ?c \<le> 200" using v(1,2) by (simp add: cache_valid_def cache_capacity_def)
  have size: "cache_size (push addr ?c) = (if cache_size ?c < 200 then cache_size ?c + 1 else cache_size ?c)"
    using p(2) length_elements [of "push addr ?c"] length_elements [of ?c] le by (simp del: length_elements split: if_splits)
  have st: "increment_addr_in_cache (statistics s) = (statistics s)\<lparr>ipv4_addr_in_cache := cache_size (push addr ?c)\<rparr>"
    using v(3) size by (simp add: increment_addr_in_cache_def sz_step)
  have "set (elements (push addr ?c)) \<subseteq> insert addr (set (elements ?c))"
    using p(2) by (cases "elements ?c") (auto split: if_splits)
  then have "\<forall>x\<in>set (elements (push addr ?c)). contact_ok x" using v(4,5) d by auto
  then have "cache_inv (s\<lparr>discovery_cache := push addr ?c, discovered := addrs, statistics := increment_addr_in_cache (statistics s)\<rparr>)"
    using v(2,5) p(1) d by (simp add: cache_inv_def st)
  from cache_fields [OF inv this st] show ?thesis by (cases s) simp
qed

lemma drain_loop_inv: "discovered s = addrs \<Longrightarrow> manager_inv X s \<Longrightarrow> manager_inv X (drain_loop addrs s)"
proof (induction addrs arbitrary: s)
  case (Cons addr addrs)
  from cache_push_inv [OF Cons.prems(2,1)] show ?case by (simp add: Cons.IH)
qed simp

lemma drain_discovered_inv: "manager_inv X s \<Longrightarrow> manager_inv X (drain_discovered s)"
  by (simp add: drain_discovered_def Let_def drain_loop_inv)

section \<open>The schedulers\<close>

lemma initialize_waiting:
  assumes "blank p" and "contact_ok e"
  defines "q \<equiv> initialize_connection e Tracker TRANSPORT p"
  shows "loose q" "conn_ok q" "phase q = Waiting" "state q = TRANSPORT" "contact q = e" "tcp_socket (tcp q) = - 1"
proof -
  have q: "contact q = e" "source q = Tracker" "state q = TRANSPORT" "tcp q = tcp p" "recv_buffer q = recv_buffer p"
    "send_buffer q = send_buffer p" "failures q = failures p" "for_sock q = for_sock p" "for_timer q = for_timer p"
    by (simp_all add: q_def initialize_connection_def Let_def)
  have p: "buffers_ok p" "buffers_empty p" "tcp_socket (tcp p) = - 1" "failures p = 0" "io_quiet p" "\<not> timer_active (for_timer p)"
    using assms(1) by (auto simp: blank_def)
  show "loose q" using q p assms(2) by (simp add: loose_def buffers_ok_def)
  show ph: "phase q = Waiting" using q p by (simp add: phase_def)
  show "conn_ok q" using q p unfolding conn_ok_def ph by (simp add: buffers_empty_def io_quiet_def max_reties_def)
  show "state q = TRANSPORT" "contact q = e" "tcp_socket (tcp q) = - 1" using q p by simp_all
qed

lemma discovered_one_inv:
  assumes inv: "manager_inv {} s" and pop: "fresh_pop (discovery_cache s) = (Some e, c)"
    and room: "inbound_inflight (statistics s) < max_inbound_inflight" and free: "0 < available (connection_pool s)"
  shows "guarantees (discovered_one e (s\<lparr>discovery_cache := c\<rparr>)) (\<lambda>(ok, s'). entry_done s ok s')"
proof -
  let ?s = "s\<lparr>discovery_cache := c, statistics := decrement_addr_in_cache (statistics s)\<rparr>"
  note popped = cache_pop_inv [OF inv pop]
  have same: "inbound_inflight (statistics ?s) = inbound_inflight (statistics s)"
    "connection_pool ?s = connection_pool s" by (simp_all add: decrement_addr_in_cache_def)
  obtain i cp where a: "acquire (connection_pool ?s) = (Some i, cp)"
    using free by (auto simp: acquire_def available_def Let_def)
  show ?thesis
  proof (cases "peers s (contact_key e)")
    case (Some old)
    from acquire_release_inv [OF popped(2) a] obtain s' where s': "release_slot i (?s\<lparr>connection_pool := cp\<rparr>) = Inr s'"
      "manager_inv {} s'" "statistics s' = statistics ?s" "available (connection_pool s') = available (connection_pool ?s)"
      by blast
    have "discovered_one e (s\<lparr>discovery_cache := c\<rparr>) = Inr (False, s')"
      using Some a s'(1) by (simp add: discovered_one_def Let_def)
    then show ?thesis using s' same by (simp add: entry_done_def)
  next
    case None
    let ?q = "initialize_connection e Tracker TRANSPORT (peer_at s i)"
    let ?s1 = "set_peer i ?q (?s\<lparr>connection_pool := cp, peers := (peers ?s)(contact_key e \<mapsto> i)\<rparr>)"
    have v: "pool_valid (connection_pool s)" "length (pool (connection_pool s)) = pool_capacity"
      using inv by (auto simp: manager_inv_def slots_inv_def)
    have cp: "i < pool_capacity" "i \<notin> live s" "pool cp = pool (connection_pool s)"
      using acquire_some_pool [OF v(1), of i cp] a v(2) by simp_all
    have vp: "blank (peer_at s i)" using inv cp(1,2) unfolding manager_inv_def slots_inv_def by blast
    note q = initialize_waiting [OF vp popped(1)]
    have acq: "live ?s1 = insert i (live ?s) \<and> manager_inv (insert i {}) ?s1"
      using acquire_inv [OF popped(2) a, of e ?q] None q by simp
    then have i: "i \<in> live ?s1" by blast
    have at: "peer_at ?s1 i = ?q" using cp v(2) by (subst peer_at_set) simp_all
    have w: "waiting_slot i ?s1" using acq i q at by (simp add: waiting_slot_def)
    have raw: "peer_at (?s\<lparr>connection_pool := cp, peers := (peers ?s)(contact_key e \<mapsto> i)\<rparr>) i = peer_at s i"
      using cp(3) by (simp add: peer_at_def)
    have "discovered_one e (s\<lparr>discovery_cache := c\<rparr>) = bind_fault (initiate_connect i ?s1) (\<lambda>(ok, s).
      if ok then Inr (True, s) else bind_fault (delete_peer_connection i s) (\<lambda>s. Inr (False, s)))"
      using None a raw by (simp add: discovered_one_def Let_def)
    moreover have "inbound_inflight (statistics s) = inbound_inflight (statistics ?s1)"
      "available (connection_pool s) \<le> available (connection_pool ?s1) + 1"
      using same acquire_result [OF a] by simp_all
    ultimately show ?thesis using start_or_delete [OF w, of s] room by simp
  qed
qed


lemma discovered_loop_inv:
  "manager_inv {} s \<Longrightarrow> inbound_inflight (statistics s) < max_inbound_inflight \<Longrightarrow> 0 < available (connection_pool s) \<Longrightarrow>
     guarantees (discovered_loop s) (\<lambda>(ok, s'). manager_inv {} s')"
proof (induction s rule: discovered_loop.induct)
  case (1 s)
  obtain e c where pop: "fresh_pop (discovery_cache s) = (e, c)" by fastforce
  show ?case
  proof (cases e)
    case None
    then show ?thesis using pop 1(2) by (simp add: discovered_loop.simps [of s])
  next
    case (Some x)
    note one = discovered_one_inv [OF 1(2) _ 1(3,4), of x c]
    show ?thesis
    proof (cases "discovered_one x (s\<lparr>discovery_cache := c\<rparr>)")
      case (Inl f)
      then show ?thesis using one pop Some by (simp add: discovered_loop.simps [of s])
    next
      case (Inr r)
      obtain ok s1 where r: "r = (ok, s1)" by fastforce
      have d: "entry_done s ok s1" using one pop Some Inr r by simp
      show ?thesis
      proof (cases ok)
        case True
        then show ?thesis using d Inr r pop Some by (simp add: discovered_loop.simps [of s] entry_done_def)
      next
        case False
        have "guarantees (discovered_loop s1) (\<lambda>(ok, s'). manager_inv {} s')"
          using 1(1) [OF pop [symmetric] Some Inr r [symmetric] False] d False 1(3,4) r by (simp add: entry_done_def)
        then show ?thesis using False Inr r pop Some by (simp add: discovered_loop.simps [of s])
      qed
    qed
  qed
qed

lemma discovered_scheduler_inv:
  assumes "manager_inv {} s" and "inbound_inflight (statistics s) < max_inbound_inflight"
  shows "guarantees (discovered_peer_scheduler s) (\<lambda>(ok, s'). manager_inv {} s')"
  using assms discovered_loop_inv [of s] by (simp add: discovered_peer_scheduler_def)

lemma failed_scheduler_inv:
  "manager_inv {} s \<Longrightarrow> inbound_inflight (statistics s) < max_inbound_inflight \<Longrightarrow>
     guarantees (failed_peer_scheduler s) (\<lambda>(ok, s'). manager_inv {} s')"
proof (induction s rule: failed_peer_scheduler.induct)
  case (1 s)
  show ?case
  proof (cases "retry_queue s")
    case Nil
    then show ?thesis using 1(2) by (simp add: failed_peer_scheduler.simps [of s])
  next
    case (Cons f queue)
    note one = failed_one_inv [OF 1(2) Cons 1(3)]
    show ?thesis
    proof (cases "failed_one f (s\<lparr>retry_queue := queue\<rparr>)")
      case (Inl x)
      then show ?thesis using one Cons by (simp add: failed_peer_scheduler.simps [of s])
    next
      case (Inr r)
      obtain ok s1 where r: "r = (ok, s1)" by fastforce
      have d: "entry_done s ok s1" using one Inr r by simp
      show ?thesis
      proof (cases ok)
        case True
        then show ?thesis using d Inr r Cons by (simp add: failed_peer_scheduler.simps [of s] entry_done_def)
      next
        case False
        have "guarantees (failed_peer_scheduler s1) (\<lambda>(ok, s'). manager_inv {} s')"
          using 1(1) [OF Cons Inr r [symmetric] False] d False 1(3) r by (simp add: entry_done_def)
        then show ?thesis using False Inr r Cons by (simp add: failed_peer_scheduler.simps [of s])
      qed
    qed
  qed
qed

lemma scheduler_frame [simp]: "manager_inv X (s\<lparr>empties := e, current := c\<rparr>) = manager_inv X s"
proof -
  have peer: "peer_at (s\<lparr>empties := e, current := c\<rparr>) j = peer_at s j"
    "generation_at (s\<lparr>empties := e, current := c\<rparr>) j = generation_at s j" for j
    by (simp_all add: peer_at_def generation_at_def)
  then have count: "phase_count X (s\<lparr>empties := e, current := c\<rparr>) q = phase_count X s q" for q
    by (intro phase_count_cong) simp_all
  show ?thesis unfolding manager_inv_def inv_defs count peer by simp
qed

lemma scheduler_turn_inv:
  assumes "manager_inv {} s" and "inbound_inflight (statistics s) < max_inbound_inflight"
  shows "guarantees (scheduler_turn s) (manager_inv {})"
proof (cases "current s")
  case Spot_discovered
  then show ?thesis
    by (auto simp: scheduler_turn_def intro!: guarantees_then [OF discovered_scheduler_inv [OF assms]])
next
  case Spot_disconnected
  moreover have "disconnects s = []" using assms(1) by (simp add: manager_inv_def)
  ultimately show ?thesis using assms(1) by (simp add: scheduler_turn_def disconnected_peer_scheduler.simps [of s])
next
  case Spot_failed
  then show ?thesis
    by (auto simp: scheduler_turn_def intro!: guarantees_then [OF failed_scheduler_inv [OF assms]])
qed

lemma round_robin_inv: "manager_inv {} s \<Longrightarrow> guarantees (round_robin_establisher_scheduler s) (manager_inv {})"
proof (induction s rule: round_robin_establisher_scheduler.induct)
  case (1 s)
  show ?case
  proof (cases "inbound_inflight (statistics s) < max_inbound_inflight")
    case True
    note turn = scheduler_turn_inv [OF 1(2) True]
    show ?thesis
    proof (cases "scheduler_turn s")
      case (Inl f)
      then show ?thesis using turn True by (simp add: round_robin_establisher_scheduler.simps [of s])
    next
      case (Inr s1)
      then have "manager_inv {} s1" using turn by simp
      then show ?thesis using 1(1) [OF True Inr] Inr True by (simp add: round_robin_establisher_scheduler.simps [of s])
    qed
  next
    case False
    then show ?thesis using 1(2) by (simp add: round_robin_establisher_scheduler.simps [of s])
  qed
qed


section \<open>Accepting connections\<close>

text \<open>What the kernel fills in, and a contact that no slot is registered for.\<close>

definition store_ok :: "peer_sock_store \<Rightarrow> bool" where
  "store_ok st \<longleftrightarrow> sa_family st \<in> {AF_INET, AF_INET6} \<and> length (sin_addr st) = 4 \<and> length (sin6_addr st) = 16"

definition newcomer :: "manager \<Rightarrow> int + (int \<times> peer_sock_store) \<Rightarrow> bool" where
  "newcomer s answer \<longleftrightarrow> (case answer of
     Inl _ \<Rightarrow> True
   | Inr (fd, st) \<Rightarrow> store_ok st \<and> (\<forall>c. contact_of_store st = Some c \<longrightarrow> peers s (contact_key c) = None))"

lemma contact_of_store_ok: "store_ok st \<Longrightarrow> \<exists>c. contact_of_store st = Some c \<and> contact_ok c"
  by (auto simp: store_ok_def contact_of_store_def contact_ok_def new_contact_def write_at_def subspan_def)

lemma initialize_accepted:
  "initialize_connection c Tcp_server HANDSHAKE p = p\<lparr>contact := c, state := HANDSHAKE, source := Tcp_server\<rparr>"
  by (cases p) (simp add: initialize_connection_def Let_def)

lemma accept_inv:
  assumes inv: "manager_inv {} s" and new: "newcomer s answer"
    and room: "outbound_inflight (statistics s) < max_outbound_inflight"
  shows "guarantees (accept_peer_connection answer s) (\<lambda>(more, s'). manager_inv {} s'
    \<and> (case answer of Inl _ \<Rightarrow> peers s' = peers s
       | Inr (fd, st) \<Rightarrow> \<forall>c. contact_of_store st = Some c \<longrightarrow> (\<exists>i. peers s' = peers s \<or> peers s' = (peers s)(contact_key c \<mapsto> i))))"
proof (cases answer)
  case (Inl err)
  then show ?thesis using inv by (simp add: accept_peer_connection_def)
next
  case (Inr r)
  obtain fd st where r: "r = (fd, st)" by fastforce
  obtain c where c: "contact_of_store st = Some c" "contact_ok c" "peers s (contact_key c) = None"
    using new contact_of_store_ok [of st] Inr r by (auto simp: newcomer_def)
  show ?thesis
  proof (cases "open_fd fd (kernel s)")
    case (Inl f)
    then have "environment_fault f" by (auto simp: open_fd_def split: if_splits)
    then show ?thesis using Inl Inr r by (simp add: accept_peer_connection_def)
  next
    case k: (Inr k)
    then have fd: "0 \<le> fd" "fd \<notin> set (open_fds (kernel s))" "k = (kernel s)\<lparr>open_fds := fd # open_fds (kernel s)\<rparr>"
      by (auto simp: open_fd_def split: if_splits)
    show ?thesis
    proof (cases "available (connection_pool s) = 0")
      case True
      have "manager_inv {} (s\<lparr>kernel := close_fd fd k\<rparr>)"
        using inv kernel_frame [of "close_fd fd k" s "{}"] by (simp add: close_fd_def fd(3))
      then show ?thesis using True k Inr r by (simp add: accept_peer_connection_def)
    next
      case False
      then obtain i cp where a: "acquire (connection_pool s) = (Some i, cp)"
        by (auto simp: acquire_def available_def Let_def)
      have v: "pool_valid (connection_pool s)" "length (pool (connection_pool s)) = pool_capacity"
        using inv by (auto simp: manager_inv_def slots_inv_def)
      have cp: "i < pool_capacity" "i \<notin> live s" "pool cp = pool (connection_pool s)"
        using acquire_some_pool [OF v(1), of i cp] a v(2) by simp_all
      have blank: "blank (peer_at s i)" using inv cp(1,2) unfolding manager_inv_def slots_inv_def by blast
      let ?p = "peer_at s i"
      let ?r = "?p\<lparr>contact := c, state := HANDSHAKE, source := Tcp_server\<rparr>"
      let ?q = "?r\<lparr>tcp := (tcp ?p)\<lparr>tcp_socket := fd\<rparr>, store := st,
        for_sock := \<lparr>io_active = True, io_fd = fd, io_events = {EV_READ}, io_pending = {}\<rparr>,
        for_timer := timer_start connect_timeout (timer_stop (for_timer ?p))\<rparr>"
      let ?b = "s\<lparr>connection_pool := cp, peers := (peers s)(contact_key c \<mapsto> i)\<rparr>"
      let ?s1 = "set_peer i ?r ?b"
      let ?s2 = "set_peer i ?q (?s1\<lparr>kernel := k\<rparr>)"
      have loose: "loose ?r" by (rule blank_loose [OF blank]) (use c in \<open>simp_all add: max_reties_def blank [unfolded blank_def]\<close>)
      have acq: "live ?s1 = insert i (live s) \<and> manager_inv {i} ?s1"
        using acquire_inv [OF inv a c(3), of ?r] loose blank by (simp add: blank_def)
      then have i: "i \<in> live ?s1" by simp
      have at1: "peer_at ?s1 i = ?r" using cp v(2) by (subst peer_at_set) simp_all
      have inv2: "manager_inv {i} ?s2"
      proof (rule set_socket_inv [OF _ i])
        show "loose ?q" using loose by (simp add: loose_def buffers_ok_def)
        show "fds_inv (set_peer i ?q (?s1\<lparr>kernel := k\<rparr>))"
          using acq i at1 fd blank by (intro opened_fds [where fd = fd]) (simp_all add: manager_inv_def blank_def)
      qed (use acq at1 in simp_all)
      have at2: "peer_at ?s2 i = ?q" using i by simp
      have ph: "phase ?q = Outbound" using fd(1) by (simp add: phase_def)
      have ok: "conn_ok ?q" using blank fd(1) unfolding conn_ok_def ph
        by (simp add: in_flight_def timer_start_def io_stop_def blank_def buffers_empty_def max_reties_def)
      have inv3: "manager_inv {} (?s2\<lparr>statistics := increment_outbound_inflight (statistics s)\<rparr>)"
        using attach [OF inv2, of i] i at2 ph ok room by simp
      have cp0: "peer_at (s\<lparr>kernel := k, statistics := st', connection_pool := cp\<rparr>) j = peer_at s j" for j st'
        using cp(3) by (simp add: peer_at_def)
      have swap: "?s2\<lparr>statistics := st'\<rparr> = set_peer i ?q (s\<lparr>kernel := k, statistics := st', connection_pool := cp,
          peers := (peers s)(contact_key c \<mapsto> i)\<rparr>)" for st'
        using i by simp (cases s, simp)
      have "accept_peer_connection answer s = Inr (True, ?s2\<lparr>statistics := increment_outbound_inflight (statistics s)\<rparr>)"
        using Inr r k False a c(1,3) cp0 i at1 unfolding accept_peer_connection_def swap
        by (simp add: initialize_accepted initialize_server_specifics_def arm_connection_watchers_def modify_eq Let_def)
      with inv3 show ?thesis using Inr r c(1) by auto
    qed
  qed
qed


fun answer_key :: "int + (int \<times> peer_sock_store) \<Rightarrow> contact_key option" where
  "answer_key (Inl _) = None"
| "answer_key (Inr (_, st)) = map_option contact_key (contact_of_store st)"

definition newcomers :: "manager \<Rightarrow> (int + (int \<times> peer_sock_store)) list \<Rightarrow> bool" where
  "newcomers s answers \<longleftrightarrow> (\<forall>a\<in>set answers. newcomer s a) \<and> distinct (List.map_filter answer_key answers)"

lemma in_map_filter: "x \<in> set xs \<Longrightarrow> f x = Some y \<Longrightarrow> y \<in> set (List.map_filter f xs)"
  by (induction xs) (auto simp: map_filter_simps split: option.splits)

lemma newcomers_step:
  assumes n: "newcomers s (a # answers)"
    and p: "case a of Inl _ \<Rightarrow> peers s' = peers s
       | Inr (fd, st) \<Rightarrow> \<forall>c. contact_of_store st = Some c \<longrightarrow> (\<exists>i. peers s' = peers s \<or> peers s' = (peers s)(contact_key c \<mapsto> i))"
  shows "newcomers s' answers"
proof -
  have "newcomer s' b" if b: "b \<in> set answers" for b
  proof (cases b)
    case (Inr r)
    obtain fd st where r: "r = (fd, st)" by fastforce
    have old: "store_ok st" "\<And>c. contact_of_store st = Some c \<Longrightarrow> peers s (contact_key c) = None"
      using n b Inr r by (auto simp: newcomers_def newcomer_def)
    have "peers s' (contact_key c) = None" if c: "contact_of_store st = Some c" for c
    proof (cases a)
      case (Inl e)
      then show ?thesis using p old(2) [OF c] by simp
    next
      case a: (Inr r')
      obtain fd' st' where r': "r' = (fd', st')" by fastforce
      have "contact_key c \<in> set (List.map_filter answer_key answers)"
        using b Inr r c by (intro in_map_filter [of b]) simp_all
      then have "contact_key c' \<noteq> contact_key c" if "contact_of_store st' = Some c'" for c'
        using n a r' that by (auto simp: newcomers_def map_filter_simps)
      moreover have "\<exists>c'. contact_of_store st' = Some c'"
        using n a r' contact_of_store_ok [of st'] by (auto simp: newcomers_def newcomer_def)
      ultimately show ?thesis using p old(2) [OF c] a r' by auto
    qed
    then show ?thesis using old(1) Inr r by (simp add: newcomer_def)
  qed (simp add: newcomer_def)
  moreover have "distinct (List.map_filter answer_key answers)"
    using n by (auto simp: newcomers_def map_filter_simps split: option.splits)
  ultimately show ?thesis by (simp add: newcomers_def)
qed

lemma server_callback_inv:
  "manager_inv {} s \<Longrightarrow> newcomers s answers \<Longrightarrow> guarantees (server_socket_callback answers s) (manager_inv {})"
proof (induction answers arbitrary: s)
  case Nil
  then show ?case by (simp add: server_socket_callback.simps)
next
  case (Cons a answers)
  show ?case
  proof (cases "\<not> has_met_connection_quota (statistics s) \<and> outbound_inflight (statistics s) < max_outbound_inflight")
    case False
    then show ?thesis using Cons.prems(1)
      unfolding server_socket_callback.simps [of "a # answers" s] if_not_P [OF False] by simp
  next
    case True
    have new: "newcomer s a" using Cons.prems(2) by (simp add: newcomers_def)
    show ?thesis
      unfolding server_socket_callback.simps [of "a # answers" s] if_P [OF True] list.case
    proof (rule guarantees_then [OF accept_inv [OF Cons.prems(1) new]], use True in blast, clarify)
      fix more s1
      assume inv1: "manager_inv {} s1" and p: "case a of Inl _ \<Rightarrow> peers s1 = peers s
       | Inr (fd, st) \<Rightarrow> \<forall>c. contact_of_store st = Some c \<longrightarrow> (\<exists>i. peers s1 = peers s \<or> peers s1 = (peers s)(contact_key c \<mapsto> i))"
      show "guarantees (if more then server_socket_callback answers s1 else Inr s1) (manager_inv {})"
        using Cons.IH [OF inv1 newcomers_step [OF Cons.prems(2) p]] inv1 by simp
    qed
  qed
qed

section \<open>The event loop\<close>

text \<open>
  What can happen to the manager: its own callbacks, with the answers of the calls they make, and
  the two things other threads do to its queues.  \<open>Answers\<close> lets the operating system prepare the
  answers to later calls.
\<close>

datatype event =
    Socket nat "ev_flag set"
  | Timer nat
  | Daemon
  | Server "(int + (int \<times> peer_sock_store)) list"
  | Drain
  | Disconnect_notice
  | Contacts "peer_contact list"
  | Connects_taken nat
  | Answers kernel

fun enabled :: "event \<Rightarrow> manager \<Rightarrow> bool" where
  "enabled (Socket i event) s \<longleftrightarrow> i \<in> live s \<and> may_fire (peer_at s i) event \<and> option_sane s"
| "enabled (Timer i) s \<longleftrightarrow> i \<in> live s \<and> timer_active (for_timer (peer_at s i))"
| "enabled Daemon s \<longleftrightarrow> daemon_pending s"
| "enabled (Server answers) s \<longleftrightarrow> newcomers s answers"
| "enabled Drain s \<longleftrightarrow> True"
| "enabled Disconnect_notice s \<longleftrightarrow> True"
| "enabled (Contacts cs) s \<longleftrightarrow> (\<forall>c\<in>set cs. contact_ok c) \<and> length (discovered s) + length cs \<le> discoveries_capacity"
| "enabled (Connects_taken n) s \<longleftrightarrow> True"
| "enabled (Answers k) s \<longleftrightarrow> open_fds k = open_fds (kernel s)"

fun handle :: "event \<Rightarrow> manager \<Rightarrow> fault + manager" where
  "handle (Socket i event) s = peer_socket_callback i event s"
| "handle (Timer i) s = peer_timer_callback i s"
| "handle Daemon s = round_robin_establisher_scheduler (s\<lparr>daemon_pending := False\<rparr>)"
| "handle (Server answers) s = server_socket_callback answers s"
| "handle Drain s = Inr (drain_discovered s)"
| "handle Disconnect_notice s = Inr (notify_disconnected s)"
| "handle (Contacts cs) s = Inr (s\<lparr>discovered := discovered s @ cs\<rparr>)"
| "handle (Connects_taken n) s = Inr (s\<lparr>connects := drop n (connects s)\<rparr>)"
| "handle (Answers k) s = Inr (s\<lparr>kernel := k\<rparr>)"

inductive reachable :: "manager \<Rightarrow> bool" where
  start: "length h = 20 \<Longrightarrow> open_fds k = [] \<Longrightarrow> reachable (new_manager h k)"
| step: "reachable s \<Longrightarrow> enabled e s \<Longrightarrow> handle e s = Inr s' \<Longrightarrow> reachable s'"

lemma handle_inv:
  assumes inv: "manager_inv {} s" and e: "enabled e s"
  shows "guarantees (handle e s) (manager_inv {})"
proof (cases e)
  case (Socket i event)
  then show ?thesis using socket_callback_inv [OF inv] e by simp
next
  case (Timer i)
  then show ?thesis using timer_callback_inv [OF inv, of i] e by auto
next
  case Daemon
  then show ?thesis using round_robin_inv [of "s\<lparr>daemon_pending := False\<rparr>"] inv by simp
next
  case (Server answers)
  then show ?thesis using server_callback_inv [OF inv] e by simp
next
  case Drain
  then show ?thesis using drain_discovered_inv [OF inv] by simp
next
  case Disconnect_notice
  then show ?thesis using inv by (simp add: notify_disconnected_def)
next
  case (Contacts cs)
  have "cache_inv (s\<lparr>discovery_cache := discovery_cache s, discovered := discovered s @ cs, statistics := statistics s\<rparr>)"
    using inv e Contacts by (auto simp: manager_inv_def cache_inv_def)
  from cache_fields [OF inv this, of "ipv4_addr_in_cache (statistics s)"] Contacts show ?thesis by simp
next
  case (Connects_taken n)
  have "length (connects s) \<le> connected_bittorrent_peers (statistics s)"
    using inv by (auto simp: manager_inv_def counters_inv_def)
  then have "length (drop n (connects s)) \<le> connected_bittorrent_peers (statistics s)" by simp
  from connects_frame [OF this inv] Connects_taken show ?thesis by simp
next
  case (Answers k)
  then show ?thesis using kernel_frame [of k s "{}"] e inv by simp
qed

lemma write_next: "length a = i \<Longrightarrow> write_at i ys (a @ replicate n x) = (a @ ys) @ replicate (n - length ys) x"
  by (simp add: write_at_def)

lemma compute_handshake_eq:
  assumes "length h = 20"
  shows "compute_handshake h = [19] @ map of_char protocol_string @ reserved_bytes @ h @ map of_char client_id"
proof -
  have len: "length (map of_char protocol_string :: byte list) = 19" "length reserved_bytes = 8"
    "length (map of_char client_id :: byte list) = 20" "length (take 20 h) = 20"
    by (simp_all add: protocol_string_def reserved_bytes_def client_id_def assms)
  have one: "write_at 0 [19] (replicate 68 0) = [19] @ replicate 67 (0 :: byte)"
    using write_next [of "[]" 0 "[19]" 68] by simp
  show ?thesis
    unfolding compute_handshake_def Let_def length_handshake_def protocol_string_length_def one
    by (simp add: write_next len assms del: append_assoc length_map append.simps)
qed

lemma new_manager_inv:
  assumes "length h = 20" and "open_fds k = []"
  shows "manager_inv {} (new_manager h k)"
proof -
  have live: "live (new_manager h k) = {}" "pool_valid (new_pool pool_capacity new_connection)"
    using new_pool_valid [of pool_capacity new_connection] by (simp_all add: new_manager_def)
  have blank: "blank (peer_at (new_manager h k) i)" if "i < pool_capacity" for i
    using that by (simp add: peer_at_def new_manager_def new_pool_def blank_def new_connection_def buffers_ok_def
      buffers_empty_def handshake_buffer_def new_ring_def ring_valid_def io_quiet_def new_io_watcher_def new_timer_def new_tcp_def)
  have "phase_count {} (new_manager h k) ph = 0" for ph by (simp add: phase_count_def live)
  moreover have "cache_valid (new_cache cache_capacity new_contact) \<and> elements (new_cache cache_capacity new_contact) = []"
    by (rule new_cache_valid) (simp add: cache_capacity_def)
  moreover have "length (compute_handshake h) = 68"
    unfolding compute_handshake_eq [OF assms(1)] by (simp add: assms(1) protocol_string_def reserved_bytes_def client_id_def)
  moreover have "length (pool (new_pool pool_capacity new_connection)) = pool_capacity" by (simp add: new_pool_def)
  ultimately show ?thesis
    using live blank assms unfolding manager_inv_def inv_defs
    by (simp add: new_manager_def new_statistics_def indexes_def new_cache_def)
qed

lemma reachable_inv: "reachable s \<Longrightarrow> manager_inv {} s"
proof (induction rule: reachable.induct)
  case (start h k)
  then show ?case by (rule new_manager_inv)
next
  case (step s e s')
  then show ?case using handle_inv [of s e] by simp
qed


section \<open>What holds of every state that can be reached\<close>

text \<open>A run: a new manager accepts one connection.\<close>

definition example_kernel :: kernel where
  "example_kernel = \<lparr>open_fds = [], socket_answers = [], connect_answers = [], option_answers = [],
     send_answers = [], recv_answers = []\<rparr>"

definition example_store :: peer_sock_store where
  "example_store = \<lparr>sa_family = AF_INET, sa_port = 0x1AE1, sin_addr = [10, 0, 0, 1], sin6_addr = replicate 16 0\<rparr>"

definition example_contact :: peer_contact where
  "example_contact = \<lparr>n_addr = [10, 0, 0, 1] @ replicate 12 0, n_port = 0x1AE1, is_v6 = False, peer_id = None\<rparr>"

lemma example_contact_of: "contact_of_store example_store = Some example_contact"
  by (simp add: contact_of_store_def example_store_def example_contact_def new_contact_def AF_INET_def AF_INET6_def
      write_at_def numeral_eq_Suc)

lemma example_fresh: "acquire (new_pool pool_capacity new_connection) =
    (Some 199, (new_pool pool_capacity new_connection)\<lparr>available_slots := [0..<199], occupied := (replicate 200 False)[199 := True]\<rparr>)"
proof -
  have "[0..<200] = [0..<199] @ [199::nat]" using upt_Suc_append [of 0 199] by simp
  then show ?thesis by (simp add: acquire_def new_pool_def pool_capacity_def Let_def)
qed

lemma example_reachable:
  "\<exists>s. reachable s \<and> 199 \<in> live s \<and> timer_active (for_timer (peer_at s 199)) \<and> state (peer_at s 199) = HANDSHAKE
     \<and> source (peer_at s 199) = Tcp_server"
proof -
  let ?s = "new_manager (replicate 20 0) example_kernel"
  have r: "reachable ?s" by (rule reachable.start) (simp_all add: example_kernel_def)
  have e: "enabled (Server [Inr (5, example_store), Inl EAGAIN]) ?s"
    by (simp add: newcomers_def newcomer_def example_contact_of map_filter_simps)
      (simp add: new_manager_def store_ok_def example_store_def)
  have at: "peer_at ?s 199 = new_connection" by (simp add: peer_at_def new_manager_def new_pool_def pool_capacity_def)
  have first: "\<exists>s1. accept_peer_connection (Inr (5, example_store)) ?s = Inr (True, s1) \<and> 199 \<in> live s1
      \<and> timer_active (for_timer (peer_at s1 199)) \<and> state (peer_at s1 199) = HANDSHAKE \<and> source (peer_at s1 199) = Tcp_server"
    unfolding new_manager_def accept_peer_connection_def
    by (simp add: example_fresh example_contact_of example_kernel_def open_fd_def available_def Let_def)
      (simp add: new_pool_def pool_capacity_def initialize_server_specifics_def arm_connection_watchers_def
       modify_eq initialize_accepted timer_start_def peer_at_set, simp add: live_slots_def)
  have "server_socket_callback [Inl EAGAIN] s1 = Inr s1" for s1
    by (simp add: server_socket_callback.simps accept_peer_connection_def handle_server_errno_def)
  then have "\<exists>s'. handle (Server [Inr (5, example_store), Inl EAGAIN]) ?s = Inr s' \<and> 199 \<in> live s'
      \<and> timer_active (for_timer (peer_at s' 199)) \<and> state (peer_at s' 199) = HANDSHAKE \<and> source (peer_at s' 199) = Tcp_server"
    using first by (auto simp: server_socket_callback.simps [of "_ # _"])
      (simp_all add: new_manager_def new_statistics_def has_met_connection_quota_def healthy_peer_count_def max_outbound_inflight_def)
  then show ?thesis using reachable.step [OF r e] by blast
qed



lemma socket_phase: "conn_ok p \<Longrightarrow> tcp_socket (tcp p) \<noteq> - 1 \<longleftrightarrow> phase p \<in> {Inbound, Outbound, Linked}"
  by (cases "phase p") (auto simp: conn_ok_def in_flight_def)



lemma timed_phase:
  assumes "manager_inv {} s" and "i \<in> live s" and "timer_active (for_timer (peer_at s i))" and "state (peer_at s i) \<noteq> FAILED"
  shows "phase (peer_at s i) \<in> {Inbound, Outbound}"
  using inv_conn_ok [OF assms(1), of i] assms(2,3,4)
  by (cases "phase (peer_at s i)") (auto simp: conn_ok_def phase_def split: if_splits)

text \<open>C3: an armed timer gets its connection out of the way.  An attempt that timed out is closed:
  a peer that connected to us, or one that failed for the third time, gives its slot back, any
  other is filed as failed with one more failure and a timer of fifteen seconds per failure.  When
  that timer fires the connection is queued for another attempt and the scheduler is woken.  A
  connection thus fails at most three times before its slot is free.\<close>

theorem timer_resolves:
  assumes "reachable s" and "i \<in> live s" and "timer_active (for_timer (peer_at s i))"
  shows "\<exists>s'. peer_timer_callback i s = Inr s' \<and>
    (if state (peer_at s i) = FAILED then
       last (retry_queue s') = \<lparr>connection = i, cached_generation = generation_at s i\<rparr>
         \<and> state (peer_at s' i) = TRANSPORT \<and> i \<in> live s' \<and> daemon_pending s'
     else if source (peer_at s i) = Tcp_server \<or> failures (peer_at s i) = 2 then i \<notin> live s'
     else i \<in> live s' \<and> state (peer_at s' i) = FAILED \<and> failures (peer_at s' i) = failures (peer_at s i) + 1
       \<and> for_timer (peer_at s' i) = \<lparr>timer_active = True, timer_after = 15 * failures (peer_at s' i)\<rparr>)
    \<and> failures (peer_at s i) < 3"
proof -
  have inv: "manager_inv {} s" by (rule reachable_inv [OF assms(1)])
  have ok: "conn_ok (peer_at s i)" using inv_conn_ok [OF inv, of i] assms(2) by simp
  show ?thesis
  proof (cases "state (peer_at s i) = FAILED")
    case True
    then show ?thesis using assms(2) ok
      by (simp add: peer_timer_callback_def stop_connection_watchers_def Let_def conn_ok_def max_reties_def send_notification_def)
  next
    case False
    have ph: "phase (peer_at s i) \<in> {Inbound, Outbound}" by (rule timed_phase [OF inv assms(2,3) False])
    then have "state (peer_at s i) \<noteq> CONNECTED" by (auto simp: phase_def)
    then have eq: "peer_timer_callback i s = handle_peer_failure i s" using False by (simp add: peer_timer_callback_def)
    obtain s' where "handle_peer_failure i s = Inr s'" "failure_outcome i s s'"
      using handle_peer_failure_outcome [OF counted_intro [OF inv assms(2) ph]] by blast
    then show ?thesis using eq False ok
      by (auto simp: failure_outcome_def max_reties_def retry_timeout_def conn_ok_def)
  qed
qed

theorem timer_resolves_witness:
  "\<exists>s s'. reachable s \<and> 199 \<in> live s \<and> peer_timer_callback 199 s = Inr s' \<and> 199 \<notin> live s'"
proof -
  obtain s where s: "reachable s" "199 \<in> live s" "timer_active (for_timer (peer_at s 199))"
    "state (peer_at s 199) = HANDSHAKE" "source (peer_at s 199) = Tcp_server"
    using example_reachable by blast
  from timer_resolves [OF s(1,2,3)] s show ?thesis by auto
qed

end
