(* ===== verification/ManagerBehaviour.thy ===== *)
theory ManagerBehaviour
  imports ManagerSafety
begin

text \<open>
  What single callbacks of the manager do: the handshake of a new connection, the scheduler's
  rounds, and the paths on which the code does not do what it is meant to do.
\<close>

section \<open>The first bytes of a connection\<close>

text \<open>A manager in which slot 0 holds the given connection.\<close>

definition example_manager :: "PeerConnection \<Rightarrow> kernel \<Rightarrow> manager" where
  "example_manager p k = set_peer 0 p (new_manager (replicate 20 7) k)"

lemma example_manager_peer [simp]: "peer_at (example_manager p k) 0 = p"
  unfolding example_manager_def by (subst peer_at_set) (simp_all add: new_manager_def new_pool_def pool_capacity_def)

lemma example_manager_simps [simp]:
  "pool (connection_pool (example_manager p k)) \<noteq> []"
  "kernel (example_manager p k) = k" "statistics (example_manager p k) = new_statistics"
  "disconnects (example_manager p k) = []" "retry_queue (example_manager p k) = []"
  "generation_at (example_manager p k) 0 = 0" "length (handshake (example_manager p k)) = 68"
  by (simp_all add: example_manager_def new_manager_def peer_at_set new_pool_def pool_capacity_def generation_at_def
      compute_handshake_eq protocol_string_def reserved_bytes_def client_id_def set_peer_def set_object_def)

lemma new_buffer: "ring_valid handshake_buffer" "capacity handshake_buffer = 68" "contents handshake_buffer = []"
  using new_ring_valid [of "replicate 68 0"] by (simp_all add: handshake_buffer_def) (simp add: new_ring_def)

definition in_range :: "nat \<Rightarrow> manager \<Rightarrow> bool" where
  "in_range i s \<longleftrightarrow> i < length (pool (connection_pool s))"

lemma in_range_simps [simp]:
  "in_range i (set_peer j p s) = in_range i s" "in_range i (s\<lparr>kernel := k\<rparr>) = in_range i s"
  "in_range i (s\<lparr>statistics := c\<rparr>) = in_range i s" "in_range i (send_notification s) = in_range i s"
  "in_range i (s\<lparr>connects := q\<rparr>) = in_range i s" "in_range i (inflight_resolved src s) = in_range i s"
  by (simp_all add: in_range_def send_notification_def)

lemma peer_at_range [simp]: "in_range i s \<Longrightarrow> peer_at (set_peer i p s) j = (if j = i then p else peer_at s j)"
  by (simp add: in_range_def peer_at_set)

text \<open>A send that the kernel answers with a number of bytes.\<close>

lemma peer_send_taken:
  assumes i: "in_range i s" and b: "ring_valid (send_buffer (peer_at s i))" and k: "send_answers (kernel s) = Inr n # answers"
    and n: "n \<le> readable (send_buffer (peer_at s i))"
  shows "\<exists>b'. peer_send i s = Inr (\<lparr>send_ok = True, buffer_empty = ring_empty b', sent_bytes = n\<rparr>,
      set_peer i ((peer_at s i)\<lparr>send_buffer := b', tcp := (tcp (peer_at s i))\<lparr>perrno := - 1\<rparr>\<rparr>)
        (s\<lparr>kernel := (kernel s)\<lparr>send_answers := answers\<rparr>\<rparr>))
    \<and> contents b' = drop n (contents (send_buffer (peer_at s i)))"
proof -
  obtain b' where b': "commit_read n (send_buffer (peer_at s i)) = Inr b'" "contents b' = drop n (contents (send_buffer (peer_at s i)))"
    using commit_read_contents [OF b] n by (auto simp: r_available_def)
  moreover have "prepared_bytes (prepare_read (send_buffer (peer_at s i))) = readable (send_buffer (peer_at s i))"
    using prepared_bytes_read [OF b] by simp
  ultimately show ?thesis using k n
    by (intro exI [of _ b']) (simp add: peer_send_def send_messages_def tcp_send_def Let_def)
qed

lemma encode_handshake_all:
  assumes b: "ring_valid (send_buffer (peer_at s i))" "capacity (send_buffer (peer_at s i)) = 68"
    "readable (send_buffer (peer_at s i)) = 0" and h: "length (handshake s) = 68"
  shows "\<exists>b. encode_handshake i s = Inr (True, set_peer i ((peer_at s i)\<lparr>outgoing_frame_cursor := 68, send_buffer := b\<rparr>) s)
    \<and> ring_valid b \<and> contents b = handshake s"
  using handshake_encode_some [OF b(1), of "handshake s" 0] b h
  by (auto simp: encoded_some_def Let_def length_handshake_def subspan_def w_available_def encode_handshake_def ring_empty_def
      simp flip: length_0_conv)

text \<open>C20: when the connection attempt of a peer has succeeded, the callback queues the whole
  handshake message, hands as much of it to the kernel as the kernel takes, keeps exactly the
  rest in the buffer, and goes on waiting for the socket to become writable, or, once all of it
  is out, for the peer's answer.\<close>

theorem transport_sends_handshake:
  assumes "i < length (pool (connection_pool s))" and "state (peer_at s i) = TRANSPORT" and "source (peer_at s i) = Tracker"
    and "ring_valid (send_buffer (peer_at s i))" and "capacity (send_buffer (peer_at s i)) = 68"
    and "contents (send_buffer (peer_at s i)) = []" and "length (handshake s) = 68"
    and "option_answers (kernel s) = Inr 0 # options" and "send_answers (kernel s) = Inr n # answers" and "n \<le> 68"
    and "connected_bittorrent_peers (statistics s) < 50"
  shows "\<exists>s'. peer_socket_callback i {EV_WRITE} s = Inr s' \<and> state (peer_at s' i) = HANDSHAKE
    \<and> contents (send_buffer (peer_at s' i)) = drop n (handshake s)
    \<and> io_active (for_sock (peer_at s' i)) \<and> io_fd (for_sock (peer_at s' i)) = tcp_socket (tcp (peer_at s i))
    \<and> io_events (for_sock (peer_at s' i)) = (if n = 68 then {EV_READ} else {EV_WRITE})"
proof -
  let ?k = "(kernel s)\<lparr>option_answers := options\<rparr>"
  let ?s = "set_peer i ((peer_at s i)\<lparr>state := HANDSHAKE\<rparr>) (s\<lparr>kernel := ?k\<rparr>)"
  have r: "in_range i s" using assms(1) by (simp add: in_range_def)
  have e: "readable (send_buffer (peer_at s i)) = 0" using assms(6) by (metis length_contents list.size(3))
  have at: "peer_at ?s i = (peer_at s i)\<lparr>state := HANDSHAKE\<rparr>" using r by simp
  obtain b where b: "encode_handshake i ?s =
      Inr (True, set_peer i ((peer_at ?s i)\<lparr>outgoing_frame_cursor := 68, send_buffer := b\<rparr>) ?s)"
    "ring_valid b" "contents b = handshake s"
    using encode_handshake_all [of ?s i] assms(4,5,7) e unfolding at by auto
  let ?t = "set_peer i ((peer_at ?s i)\<lparr>outgoing_frame_cursor := 68, send_buffer := b\<rparr>) ?s"
  have at2: "peer_at ?t i = (peer_at s i)\<lparr>state := HANDSHAKE, outgoing_frame_cursor := 68, send_buffer := b\<rparr>"
    using r by simp
  have size: "readable b = 68" using b(3) assms(7) by (metis length_contents)
  have "in_range i ?t" "ring_valid (send_buffer (peer_at ?t i))" "send_answers (kernel ?t) = Inr n # answers"
    "n \<le> readable (send_buffer (peer_at ?t i))"
    unfolding at2 using r b(2) assms(9,10) size by simp_all
  from peer_send_taken [OF this] obtain b' where b': "peer_send i ?t =
      Inr (\<lparr>send_ok = True, buffer_empty = ring_empty b', sent_bytes = n\<rparr>,
        set_peer i ((peer_at ?t i)\<lparr>send_buffer := b', tcp := (tcp (peer_at ?t i))\<lparr>perrno := - 1\<rparr>\<rparr>)
          (?t\<lparr>kernel := (kernel ?t)\<lparr>send_answers := answers\<rparr>\<rparr>))"
    "contents b' = drop n (contents (send_buffer (peer_at ?t i)))" by blast
  have c: "contents b' = drop n (handshake s)" using b'(2) b(3) unfolding at2 by simp
  have empty: "ring_empty b' \<longleftrightarrow> n = 68"
    using arg_cong [OF c, of length] assms(7,10) by (auto simp: ring_empty_def)
  let ?u = "set_peer i ((peer_at ?t i)\<lparr>send_buffer := b', tcp := (tcp (peer_at ?t i))\<lparr>perrno := - 1\<rparr>\<rparr>)
          (?t\<lparr>kernel := (kernel ?t)\<lparr>send_answers := answers\<rparr>\<rparr>)"
  have conn: "peer_transport_level_connected i s = Inr (True, s\<lparr>kernel := ?k\<rparr>)"
    using assms(8) by (simp add: peer_transport_level_connected_def)
  have s1: "set_peer i ((peer_at (s\<lparr>kernel := ?k\<rparr>) i)\<lparr>state := HANDSHAKE\<rparr>) (s\<lparr>kernel := ?k\<rparr>) = ?s" by simp
  have "handle_peer_transport_level_initiations i {EV_WRITE} s =
      Inr (modify_peer_socket_w_event i (if n = 68 then {EV_READ} else {EV_WRITE}) ?u)"
    unfolding handle_peer_transport_level_initiations_def conn
    by (simp only: bind_fault.simps prod.case s1 b(1) b'(1) Let_def empty if_True if_False simp_thms singletonI send_transact.simps)
  then have "peer_socket_callback i {EV_WRITE} s =
      Inr (modify_peer_socket_w_event i (if n = 68 then {EV_READ} else {EV_WRITE}) ?u)"
    using assms(2,3,11) by (simp add: peer_socket_callback_def has_met_connection_quota_def healthy_peer_count_def Let_def)
  moreover have "peer_at ?u i = (peer_at s i)\<lparr>state := HANDSHAKE, outgoing_frame_cursor := 68, send_buffer := b',
      tcp := (tcp (peer_at s i))\<lparr>perrno := - 1\<rparr>\<rparr>"
    using r by simp
  ultimately show ?thesis using r c by (simp add: modify_eq)
qed


theorem transport_sends_handshake_witness:
  "\<exists>s'. peer_socket_callback 0 {EV_WRITE} (example_manager
        (new_connection\<lparr>state := TRANSPORT, source := Tracker, tcp := \<lparr>tcp_socket = 7, perrno = - 1\<rparr>\<rparr>)
        (example_kernel\<lparr>open_fds := [7], option_answers := [Inr 0], send_answers := [Inr 5]\<rparr>)) = Inr s'
    \<and> io_fd (for_sock (peer_at s' 0)) = 7 \<and> io_events (for_sock (peer_at s' 0)) = {EV_WRITE}
    \<and> readable (send_buffer (peer_at s' 0)) = 63" (is "\<exists>s'. peer_socket_callback 0 _ ?s = _ \<and> _")
proof -
  have "\<exists>s'. peer_socket_callback 0 {EV_WRITE} ?s = Inr s' \<and> state (peer_at s' 0) = HANDSHAKE
    \<and> contents (send_buffer (peer_at s' 0)) = drop 5 (handshake ?s)
    \<and> io_active (for_sock (peer_at s' 0)) \<and> io_fd (for_sock (peer_at s' 0)) = tcp_socket (tcp (peer_at ?s 0))
    \<and> io_events (for_sock (peer_at s' 0)) = (if (5 :: nat) = 68 then {EV_READ} else {EV_WRITE})"
    by (rule transport_sends_handshake) (simp_all add: new_connection_def new_buffer new_statistics_def)
  then obtain s' where s': "peer_socket_callback 0 {EV_WRITE} ?s = Inr s'"
    "contents (send_buffer (peer_at s' 0)) = drop 5 (handshake ?s)" "io_fd (for_sock (peer_at s' 0)) = 7"
    "io_events (for_sock (peer_at s' 0)) = {EV_WRITE}" by auto
  have "readable (send_buffer (peer_at s' 0)) = length (drop 5 (handshake ?s))" using s'(2) by (metis length_contents)
  then show ?thesis using s' by (intro exI [of _ s']) simp
qed

text \<open>An attempt whose \<open>connect\<close> succeeds at once skips that callback: the code moves the
  connection to the handshake and feeds the write event itself, but the handshake is never
  queued.  The event sends an empty buffer, and the connection then only waits to be read.\<close>

lemma immediate_connect_sends_nothing:
  assumes "i < length (pool (connection_pool s))" and "state (peer_at s i) = TRANSPORT" and "source (peer_at s i) = Tracker"
    and "sa_family (store (peer_at s i)) = AF_INET" and "tcp_socket (tcp (peer_at s i)) = - 1"
    and "ring_valid (send_buffer (peer_at s i))" and "contents (send_buffer (peer_at s i)) = []"
    and "socket_answers (kernel s) = Inr fd # sockets" and "0 \<le> fd" and "fd \<notin> set (open_fds (kernel s))"
    and "connect_answers (kernel s) = Inr () # connections" and "send_answers (kernel s) = Inr 0 # answers"
    and "connected_bittorrent_peers (statistics s) < 50"
  shows "\<exists>s1 s2. peer_connect i s = Inr (True, s1) \<and> state (peer_at s1 i) = HANDSHAKE
    \<and> io_pending (for_sock (peer_at s1 i)) = {EV_WRITE}
    \<and> peer_socket_callback i {EV_WRITE} s1 = Inr s2 \<and> state (peer_at s2 i) = HANDSHAKE
    \<and> contents (send_buffer (peer_at s2 i)) = [] \<and> io_events (for_sock (peer_at s2 i)) = {EV_READ}"
proof -
  have r: "in_range i s" using assms(1) by (simp add: in_range_def)
  have "\<exists>s1. peer_connect i s = Inr (True, s1) \<and> state (peer_at s1 i) = HANDSHAKE
    \<and> io_pending (for_sock (peer_at s1 i)) = {EV_WRITE} \<and> in_range i s1 \<and> source (peer_at s1 i) = Tracker
    \<and> send_buffer (peer_at s1 i) = send_buffer (peer_at s i) \<and> send_answers (kernel s1) = Inr 0 # answers
    \<and> statistics s1 = statistics s"
    using assms r
    by (simp add: peer_connect_def open_socket_def open_fd_def pconnect_def AF_INET_def AF_INET6_def arm_connection_watchers_def
        modify_eq feed_event_def Let_def)
  then obtain s1 where s1: "peer_connect i s = Inr (True, s1)" "state (peer_at s1 i) = HANDSHAKE"
    "io_pending (for_sock (peer_at s1 i)) = {EV_WRITE}" "in_range i s1" "source (peer_at s1 i) = Tracker"
    "send_buffer (peer_at s1 i) = send_buffer (peer_at s i)" "send_answers (kernel s1) = Inr 0 # answers"
    "statistics s1 = statistics s" by blast
  have "ring_valid (send_buffer (peer_at s1 i))" using assms(6) s1(6) by simp
  from peer_send_taken [OF s1(4) this s1(7)] obtain b' where b': "peer_send i s1 =
      Inr (\<lparr>send_ok = True, buffer_empty = ring_empty b', sent_bytes = 0\<rparr>,
        set_peer i ((peer_at s1 i)\<lparr>send_buffer := b', tcp := (tcp (peer_at s1 i))\<lparr>perrno := - 1\<rparr>\<rparr>)
          (s1\<lparr>kernel := (kernel s1)\<lparr>send_answers := answers\<rparr>\<rparr>))"
    "contents b' = drop 0 (contents (send_buffer (peer_at s1 i)))" by blast
  then have c: "contents b' = []" using s1(6) assms(7) by simp
  then have "ring_empty b'" using length_contents [of b'] by (simp add: ring_empty_def)
  then have "\<exists>s2. peer_socket_callback i {EV_WRITE} s1 = Inr s2 \<and> state (peer_at s2 i) = HANDSHAKE
    \<and> contents (send_buffer (peer_at s2 i)) = [] \<and> io_events (for_sock (peer_at s2 i)) = {EV_READ}"
    using s1(2,4,5,8) assms(13) b'(1) c
    by (simp add: peer_socket_callback_def has_met_connection_quota_def healthy_peer_count_def
        handle_peer_application_level_handshake_def handshake_write_def modify_eq Let_def)
  with s1 show ?thesis by blast
qed

section \<open>The end of a connection\<close>

text \<open>The end of an established connection is never handled.  Its descriptor is still set in
  the slot (it is handed on, never reset), so when the disconnect update of the current
  generation arrives the scheduler runs into the assertion of the teardown, whether the peer
  shut down, had connected to us, or is to be connected to again.\<close>

lemma disconnect_never_completes:
  assumes "i < length (pool (connection_pool s))" and "tcp_socket (tcp (peer_at s i)) \<noteq> - 1"
    and "source (peer_at s i) \<noteq> Source_null"
    and "du_peer d = Some i" and "du_generation d = generation_at s i"
  shows "disconnected_one d (handle_peer_connection_and_dispatch i s) = Inl Assertion_failed"
proof -
  have r: "in_range i s" using assms(1) by (simp add: in_range_def)
  let ?s = "handle_peer_connection_and_dispatch i s"
  have s: "in_range i ?s" "tcp_socket (tcp (peer_at ?s i)) \<noteq> - 1" "source (peer_at ?s i) \<noteq> Source_null"
    "generation_at ?s i = du_generation d"
    using assms r by (simp_all add: handle_peer_connection_and_dispatch_def stop_connection_watchers_def watchers_stop_def
        in_range_def Let_def)
  have delete: "delete_peer_connection i s1 = Inl Assertion_failed" if "socket_at s1 i \<noteq> - 1" for s1
    using that by (simp add: delete_peer_connection_def deregister_from_map_def teardown_connection_def watchers_stop_def Let_def)
  show ?thesis
  proof (cases "perrno (tcp (peer_at ?s i)) = PEER_SHUTDOWN \<or> source (peer_at ?s i) = Tcp_server")
    case True
    then show ?thesis using s assms(4) delete by (simp add: disconnected_one_def Let_def)
  next
    case False
    then have "source (peer_at ?s i) = Tracker" using s(3) by (cases "source (peer_at ?s i)") auto
    then show ?thesis using s assms(4) False delete
      by (simp add: disconnected_one_def initiate_connect_def peer_connect_def open_socket_def Let_def)
  qed
qed


section \<open>A contact that connects to us again\<close>

lemma acquire_free:
  assumes "pool_valid (connection_pool s)" and "0 < available (connection_pool s)" and "old \<in> live s"
  shows "\<exists>i cp. acquire (connection_pool s) = (Some i, cp) \<and> i \<noteq> old \<and> pool_valid cp \<and> old \<in> live_slots cp
    \<and> pool cp = pool (connection_pool s)"
proof -
  obtain i cp where a: "acquire (connection_pool s) = (Some i, cp)"
    using assms(2) by (auto simp: acquire_def available_def Let_def)
  from acquire_some_pool [OF assms(1) a] a assms(3) show ?thesis by auto
qed

lemma accept_known_eq:
  assumes "open_fd fd (kernel s) = Inr k" and "0 < available (connection_pool s)" and "contact_of_store st = Some c"
    and "acquire (connection_pool s) = (Some i, cp)" and "peers s (contact_key c) = Some old"
  defines "s1 \<equiv> s\<lparr>kernel := k, statistics := increment_outbound_inflight (statistics s), connection_pool := cp\<rparr>"
  shows "accept_peer_connection (Inr (fd, st)) s = bind_fault (replace_old_peer old s1) (\<lambda>s2.
    let s2 = s2\<lparr>peers := (peers s2)(contact_key c \<mapsto> i)\<rparr>;
        s2 = set_peer i (initialize_connection c Tcp_server HANDSHAKE (peer_at s2 i)) s2
    in Inr (True, arm_connection_watchers i {EV_READ} (initialize_server_specifics i fd st s2)))"
  using assms(1-5) by (simp add: accept_peer_connection_def s1_def bind_fault_assoc Let_def)

text \<open>A contact that connects to us while it is registered.  If it is connected the manager
  runs into the teardown's assertion.  If its last attempt has failed, and is no longer counted as
  in flight, the manager counts it as resolved once more; with no other attempt in flight the
  counter wraps around to \<open>2 ^ 64 - 1\<close>, above the limit, and from then on the scheduler does not
  look at any of its sources.\<close>

lemma known_contact_accepted:
  assumes "pool_valid (connection_pool s)" and "0 < available (connection_pool s)" and "old \<in> live s"
    and "contact_of_store st = Some c" and "peers s (contact_key c) = Some old"
    and "0 \<le> fd" and "fd \<notin> set (open_fds (kernel s))"
  shows "(state (peer_at s old) = CONNECTED \<and> tcp_socket (tcp (peer_at s old)) \<noteq> - 1 \<longrightarrow>
      accept_peer_connection (Inr (fd, st)) s = Inl Assertion_failed)
    \<and> (state (peer_at s old) = FAILED \<and> tcp_socket (tcp (peer_at s old)) = - 1 \<and> source (peer_at s old) = Tracker
        \<and> buffers_ok (peer_at s old) \<and> inbound_inflight (statistics s) = 0 \<longrightarrow>
      (\<exists>s'. accept_peer_connection (Inr (fd, st)) s = Inr (True, s') \<and> inbound_inflight (statistics s') = 2 ^ 64 - 1
        \<and> round_robin_establisher_scheduler s' = Inr s'))"
proof -
  obtain i cp where a: "acquire (connection_pool s) = (Some i, cp)" "i \<noteq> old" "pool_valid cp" "old \<in> live_slots cp"
    "pool cp = pool (connection_pool s)"
    using acquire_free [OF assms(1,2,3)] by blast
  let ?k = "(kernel s)\<lparr>open_fds := fd # open_fds (kernel s)\<rparr>"
  have k: "open_fd fd (kernel s) = Inr ?k" using assms(6,7) by (simp add: open_fd_def)
  let ?s1 = "s\<lparr>kernel := ?k, statistics := increment_outbound_inflight (statistics s), connection_pool := cp\<rparr>"
  note eq = accept_known_eq [OF k assms(2,4) a(1) assms(5)]
  have at: "peer_at ?s1 old = peer_at s old" using a(5) by (simp add: peer_at_def)
  show ?thesis
  proof (intro conjI impI)
    assume c: "state (peer_at s old) = CONNECTED \<and> tcp_socket (tcp (peer_at s old)) \<noteq> - 1"
    then have "replace_old_peer old ?s1 = Inl Assertion_failed"
      using at by (simp add: replace_old_peer_def delete_peer_connection_def deregister_from_map_def
          teardown_connection_def watchers_stop_def Let_def)
    then show "accept_peer_connection (Inr (fd, st)) s = Inl Assertion_failed" using eq by simp
  next
    assume f: "state (peer_at s old) = FAILED \<and> tcp_socket (tcp (peer_at s old)) = - 1 \<and> source (peer_at s old) = Tracker
        \<and> buffers_ok (peer_at s old) \<and> inbound_inflight (statistics s) = 0"
    let ?s2 = "inflight_resolved Tracker (close_peer_socket old ?s1)"
    have live: "old \<in> live ?s1" using a(4) by simp
    have "buffers_ok (peer_at ?s2 old)" "socket_at ?s2 old = - 1" "pool_valid (connection_pool ?s2)" "old \<in> live ?s2"
      using live at f a(3) by (simp_all add: closed_socket buffers_ok_def close_peer_socket_eq)
    then obtain s3 where s3: "delete_peer_connection old ?s2 = Inr s3" "freed old ?s2 s3"
      using delete_result [of old ?s2] by blast
    have "source (peer_at (close_peer_socket old ?s1) old) = Tracker" using live at f by (simp add: closed_socket)
    then have r: "replace_old_peer old ?s1 = Inr s3" using at f s3(1) by (simp add: replace_old_peer_def Let_def)
    have "inbound_inflight (statistics s3) = sz_sub (inbound_inflight (statistics s)) 1"
      using s3(2) by (simp add: freed_def inflight_resolved_def single_inbound_resolved_def send_notification_def
          close_peer_socket_eq increment_outbound_inflight_def)
    also have "\<dots> = 2 ^ 64 - 1" using f by (simp add: sz_sub_def sz_modulus_def)
    finally have n: "inbound_inflight (statistics s3) = 2 ^ 64 - 1" .
    obtain s' where s': "accept_peer_connection (Inr (fd, st)) s = Inr (True, s')" "statistics s' = statistics s3"
      using eq r by (simp add: initialize_server_specifics_def arm_connection_watchers_def modify_eq Let_def)
    then show "\<exists>s'. accept_peer_connection (Inr (fd, st)) s = Inr (True, s') \<and> inbound_inflight (statistics s') = 2 ^ 64 - 1
        \<and> round_robin_establisher_scheduler s' = Inr s'"
      using n by (simp add: round_robin_establisher_scheduler.simps [of s'] max_inbound_inflight_def)
  qed
qed

section \<open>The scheduler's rounds\<close>

text \<open>What a source that is marked as empty promises.\<close>

definition marks_true :: "manager \<Rightarrow> bool" where
  "marks_true s \<longleftrightarrow> (empties s Spot_disconnected \<longrightarrow> disconnects s = []) \<and> (empties s Spot_failed \<longrightarrow> retry_queue s = [])"

text \<open>No scheduler adds to a source.\<close>

lemma discovered_loop_queues:
  "discovered_loop s = Inr (b, s') \<Longrightarrow> disconnects s' = disconnects s \<and> retry_queue s' = retry_queue s"
proof (induction s rule: discovered_loop.induct)
  case (1 s)
  obtain e c where pop: "fresh_pop (discovery_cache s) = (e, c)" by fastforce
  show ?case
  proof (cases e)
    case None
    then show ?thesis using 1(2) pop by (simp add: discovered_loop.simps [of s])
  next
    case (Some x)
    then obtain ok s1 where one: "discovered_one x (s\<lparr>discovery_cache := c\<rparr>) = Inr (ok, s1)"
      and rest: "(if ok then Inr (True, s1) else discovered_loop s1) = Inr (b, s')"
      using 1(2) pop by (auto simp: discovered_loop.simps [of s] bind_fault_Inr)
    from one_sources(1) [OF one] have "disconnects s1 = disconnects s \<and> retry_queue s1 = retry_queue s"
      by (simp add: sources_def)
    then show ?thesis using rest 1(1) [OF pop [symmetric] Some one refl] by (auto split: if_splits)
  qed
qed

lemma disconnected_queues:
  "disconnected_peer_scheduler s = Inr (b, s') \<Longrightarrow> retry_queue s' = retry_queue s \<and> (b \<or> disconnects s' = [])"
proof (induction s rule: disconnected_peer_scheduler.induct)
  case (1 s)
  show ?case
  proof (cases "disconnects s")
    case Nil
    then show ?thesis using 1(2) by (simp add: disconnected_peer_scheduler.simps [of s])
  next
    case (Cons d queue)
    then obtain ok s1 where one: "disconnected_one d (s\<lparr>disconnects := queue\<rparr>) = Inr (ok, s1)"
      and rest: "(if ok then Inr (True, s1) else disconnected_peer_scheduler s1) = Inr (b, s')"
      using 1(2) by (auto simp: disconnected_peer_scheduler.simps [of s] bind_fault_Inr)
    from one_sources(2) [OF one] have "retry_queue s1 = retry_queue s" by (simp add: sources_def)
    then show ?thesis using rest 1(1) [OF Cons one refl] by (auto split: if_splits)
  qed
qed

lemma failed_queues:
  "failed_peer_scheduler s = Inr (b, s') \<Longrightarrow> disconnects s' = disconnects s \<and> (b \<or> retry_queue s' = [])"
proof (induction s rule: failed_peer_scheduler.induct)
  case (1 s)
  show ?case
  proof (cases "retry_queue s")
    case Nil
    then show ?thesis using 1(2) by (simp add: failed_peer_scheduler.simps [of s])
  next
    case (Cons f queue)
    then obtain ok s1 where one: "failed_one f (s\<lparr>retry_queue := queue\<rparr>) = Inr (ok, s1)"
      and rest: "(if ok then Inr (True, s1) else failed_peer_scheduler s1) = Inr (b, s')"
      using 1(2) by (auto simp: failed_peer_scheduler.simps [of s] bind_fault_Inr)
    from one_sources(3) [OF one] have "disconnects s1 = disconnects s" by (simp add: sources_def)
    then show ?thesis using rest 1(1) [OF Cons one refl] by (auto split: if_splits)
  qed
qed

lemma discovered_queues:
  "discovered_peer_scheduler s = Inr (b, s') \<Longrightarrow> disconnects s' = disconnects s \<and> retry_queue s' = retry_queue s"
  by (auto simp: discovered_peer_scheduler_def dest: discovered_loop_queues split: if_splits)

lemma turn_marks:
  assumes "scheduler_turn s = Inr s'" and "marks_true s"
  shows "marks_true s'"
proof (cases "current s")
  case Spot_discovered
  then obtain ok s1 where s1: "discovered_peer_scheduler s = Inr (ok, s1)"
    "s' = s1\<lparr>empties := (empties s1)(Spot_discovered := \<not> ok), current := Spot_disconnected\<rparr>"
    using assms(1) by (auto simp: scheduler_turn_def bind_fault_Inr)
  with discovered_queues [OF s1(1)] discovered_took [OF s1(1)] assms(2) show ?thesis by (simp add: marks_true_def took_def)
next
  case Spot_disconnected
  then obtain ok s1 where s1: "disconnected_peer_scheduler s = Inr (ok, s1)"
    "s' = s1\<lparr>empties := (empties s1)(Spot_disconnected := \<not> ok), current := Spot_failed\<rparr>"
    using assms(1) by (auto simp: scheduler_turn_def bind_fault_Inr)
  with disconnected_queues [OF s1(1)] disconnected_took [OF s1(1)] assms(2) show ?thesis
    by (auto simp: marks_true_def took_def)
next
  case Spot_failed
  then obtain ok s1 where s1: "failed_peer_scheduler s = Inr (ok, s1)"
    "s' = s1\<lparr>empties := (empties s1)(Spot_failed := \<not> ok), current := Spot_discovered\<rparr>"
    using assms(1) by (auto simp: scheduler_turn_def bind_fault_Inr)
  with failed_queues [OF s1(1)] failed_took [OF s1(1)] assms(2) show ?thesis
    by (auto simp: marks_true_def took_def)
qed

lemma round_robin_marks:
  "round_robin_establisher_scheduler s = Inr s' \<Longrightarrow> marks_true s \<Longrightarrow>
     marks_true s' \<and> (all_empty s' \<or> max_inbound_inflight \<le> inbound_inflight (statistics s'))"
proof (induction s rule: round_robin_establisher_scheduler.induct)
  case (1 s)
  show ?case
  proof (cases "inbound_inflight (statistics s) < max_inbound_inflight")
    case True
    then obtain s1 where s1: "scheduler_turn s = Inr s1"
      and rest: "(if all_empty s1 then Inr s1 else round_robin_establisher_scheduler s1) = Inr s'"
      using 1(2) by (auto simp: round_robin_establisher_scheduler.simps [of s] bind_fault_Inr)
    show ?thesis using turn_marks [OF s1 1(3)] rest 1(1) [OF True s1] by (auto split: if_splits)
  qed (use 1(2,3) in \<open>auto simp: round_robin_establisher_scheduler.simps [of s]\<close>)
qed



text \<open>The marks are never cleared when something arrives, so a wake-up can be lost: with all
  sources marked as empty the daemon looks only at the source whose turn it is, and goes back to
  sleep when that one is empty, whatever waits in the others.\<close>

lemma round_robin_loses_wakeup:
  assumes "all_empty s" and "current s = Spot_disconnected" and "disconnects s = []"
  shows "\<exists>s'. round_robin_establisher_scheduler s = Inr s' \<and> discovery_cache s' = discovery_cache s
    \<and> retry_queue s' = retry_queue s \<and> statistics s' = statistics s \<and> peers s' = peers s"
proof (cases "inbound_inflight (statistics s) < max_inbound_inflight")
  case True
  have "scheduler_turn s = Inr (s\<lparr>empties := (empties s)(Spot_disconnected := True), current := Spot_failed\<rparr>)"
    using assms(2,3) by (simp add: scheduler_turn_def disconnected_peer_scheduler.simps [of s])
  then show ?thesis using True assms(1)
    by (simp add: round_robin_establisher_scheduler.simps [of s] all_empty_def)
qed (simp add: round_robin_establisher_scheduler.simps [of s])

end
