(* ===== verification/ManagerConnects.thy ===== *)
theory ManagerConnects
  imports ManagerBehaviour
begin

text \<open>
  The life of an outgoing connection, from the newest contact of the cache to the attempt in flight,
  and from the bytes of the peer's answer to the connection that is handed on.  (What lies between,
  the handshake that is sent, is in \<open>ManagerBehaviour\<close>.)
\<close>

section \<open>Dialling\<close>

text \<open>An attempt that the system takes up: the answer to \<open>connect\<close> is that it is in progress, or done.\<close>

definition dialled :: "nat \<Rightarrow> int \<Rightarrow> (int + int) list \<Rightarrow> int + unit \<Rightarrow> (int + unit) list \<Rightarrow> manager \<Rightarrow> manager" where
  "dialled i fd socks a conns s =
     (let p = peer_at s i;
          p = p\<lparr>tcp := (tcp p)\<lparr>tcp_socket := fd, perrno := if a = Inr () then - 1 else EINPROGRESS\<rparr>,
            for_sock := (io_stop (for_sock p))\<lparr>io_fd := fd, io_events := {EV_WRITE}, io_active := True\<rparr>,
            for_timer := timer_start connect_timeout (timer_stop (for_timer p))\<rparr>;
          p = (if a = Inr () then p\<lparr>state := HANDSHAKE, for_sock := feed_event {EV_WRITE} (for_sock p)\<rparr> else p)
      in set_peer i p
         (s\<lparr>kernel := (kernel s)\<lparr>socket_answers := socks, open_fds := fd # open_fds (kernel s), connect_answers := conns\<rparr>,
            statistics := increment_inbound_inflight (statistics s)\<rparr>))"

lemma initiate_dials:
  assumes "in_range i s" and "source (peer_at s i) = Tracker" and "socket_at s i = - 1"
    and "sa_family (store (peer_at s i)) \<in> {AF_INET, AF_INET6}"
    and "socket_answers (kernel s) = Inr fd # socks" and "connect_answers (kernel s) = a # conns"
    and "a = Inl EINPROGRESS \<or> a = Inr ()" and "0 \<le> fd" and "fd \<notin> set (open_fds (kernel s))"
  shows "initiate_connect i s = Inr (True, dialled i fd socks a conns s)"
proof -
  let ?p = "peer_at s i"
  let ?t = "(tcp ?p)\<lparr>tcp_socket := fd\<rparr>" and ?t2 = "(tcp ?p)\<lparr>tcp_socket := fd, perrno := if a = Inr () then - 1 else EINPROGRESS\<rparr>"
  let ?k = "(kernel s)\<lparr>socket_answers := socks, open_fds := fd # open_fds (kernel s)\<rparr>"
  let ?s1 = "set_peer i (?p\<lparr>tcp := ?t\<rparr>) (s\<lparr>kernel := ?k\<rparr>)"
  have "open_socket (sa_family (store ?p)) (tcp ?p) (kernel s) = Inr (True, ?t, ?k)"
    using assms(3-5,8,9) by (auto simp: open_socket_def open_fd_def)
  moreover have "pconnect (sa_family (store ?p)) (tcp (peer_at ?s1 i)) (kernel ?s1) =
      Inr (if a = Inr () then Connected else Inprogress, ?t2, ?k\<lparr>connect_answers := conns\<rparr>)"
    using assms(1,4,6-8) by (auto simp: pconnect_def EINTR_def EINPROGRESS_def)
  ultimately show ?thesis using assms(1,2)
    by (simp add: initiate_connect_def peer_connect_def arm_connection_watchers_def modify_peer_socket_w_event_def dialled_def Let_def)
qed

text \<open>The contact taken from the cache and registered in a slot.\<close>

definition registered :: "peer_contact \<Rightarrow> nat \<Rightarrow> peer_contact overwritable_cache \<Rightarrow> PeerConnection slot_recycling_pool \<Rightarrow> manager \<Rightarrow> manager" where
  "registered c i q cp s = set_peer i (initialize_connection c Tracker TRANSPORT (peer_at s i))
     (s\<lparr>discovery_cache := q, statistics := decrement_addr_in_cache (statistics s), connection_pool := cp,
        peers := (peers s)(contact_key c \<mapsto> i)\<rparr>)"

lemma newest_dialled:
  assumes inv: "manager_inv {} s" and newest: "elements (discovery_cache s) = known @ [c]" and room: "0 < available (connection_pool s)"
    and new: "peers s (contact_key c) = None"
    and k: "socket_answers (kernel s) = Inr fd # socks" "connect_answers (kernel s) = a # conns" "a = Inl EINPROGRESS \<or> a = Inr ()"
      "0 \<le> fd" "fd \<notin> set (open_fds (kernel s))"
  shows "\<exists>i q cp. discovered_peer_scheduler s = Inr (True, dialled i fd socks a conns (registered c i q cp s))
    \<and> elements q = known \<and> cache_valid q \<and> acquire (connection_pool s) = (Some i, cp) \<and> i \<notin> live s \<and> blank (peer_at s i)
    \<and> i < length (pool cp) \<and> live_slots cp = insert i (live s)"
proof -
  have v: "cache_valid (discovery_cache s)" "pool_valid (connection_pool s)" using inv by (simp_all add: manager_inv_def cache_inv_def slots_inv_def)
  obtain q where pop: "fresh_pop (discovery_cache s) = (Some c, q)" "elements q = known" "cache_valid q"
    using fresh_pop_elements [OF v(1)] newest by (cases "fresh_pop (discovery_cache s)") auto
  obtain i cp where acq: "acquire (connection_pool s) = (Some i, cp)"
    using room by (auto simp: acquire_def available_def Let_def)
  have cp: "i < length (pool cp)" "i \<notin> live s" "live_slots cp = insert i (live s)" "pool cp = pool (connection_pool s)"
    using acquire_some_pool [OF v(2) acq] by auto
  have "i < pool_capacity" using cp(1,4) inv by (simp add: manager_inv_def slots_inv_def)
  then have blank: "blank (peer_at s i)" using inv cp(2) by (simp add: manager_inv_def slots_inv_def)
  let ?p = "initialize_connection c Tracker TRANSPORT (peer_at s i)"
  have p: "source ?p = Tracker" "tcp_socket (tcp ?p) = - 1" "sa_family (store ?p) \<in> {AF_INET, AF_INET6}"
    using blank by (auto simp: initialize_connection_def blank_def Let_def)
  let ?s1 = "registered c i q cp s"
  have s1: "in_range i ?s1" "peer_at ?s1 i = ?p" "kernel ?s1 = kernel s" using cp(1) by (simp_all add: registered_def in_range_def)
  have dial: "initiate_connect i ?s1 = Inr (True, dialled i fd socks a conns ?s1)"
    using s1(1) p k by (intro initiate_dials) (simp_all only: s1(2,3) not_False_eq_True)
  have "peer_at (s\<lparr>discovery_cache := q, statistics := decrement_addr_in_cache (statistics s), connection_pool := cp,
      peers := (peers s)(contact_key c \<mapsto> i)\<rparr>) i = peer_at s i" using cp(4) by (simp add: peer_at_def)
  then have "discovered_one c (s\<lparr>discovery_cache := q\<rparr>) = Inr (True, dialled i fd socks a conns ?s1)"
    using acq new dial by (simp add: discovered_one_def decrement_addr_in_cache_def registered_def Let_def)
  then have "discovered_peer_scheduler s = Inr (True, dialled i fd socks a conns ?s1)"
    using room pop(1) by (simp add: discovered_peer_scheduler_def discovered_loop.simps [of s])
  then show ?thesis using pop(2,3) acq cp blank by blast
qed

text \<open>C19: a contact is dialled: when the scheduler of the discovered contacts runs, a slot is free, and the
  newest contact of the cache is not registered, then it takes exactly this contact from the cache,
  registers it in a slot that was free, and opens a socket, whose connection waits to become writable,
  with the timer of the attempt running, for the address and the port of the contact; the attempt is
  counted.  A connection that the system makes at once is in the handshake already.\<close>

theorem newest_contact_dialled:
  assumes "reachable s" and "elements (discovery_cache s) = known @ [c]" and "0 < available (connection_pool s)"
    and "peers s (contact_key c) = None" and "inbound_inflight (statistics s) < 35"
    and "socket_answers (kernel s) = Inr fd # socks" and "connect_answers (kernel s) = a # conns"
    and "a = Inl EINPROGRESS \<or> a = Inr ()" and "0 \<le> fd" and "fd \<notin> set (open_fds (kernel s))"
  shows "\<exists>s' i. discovered_peer_scheduler s = Inr (True, s') \<and> elements (discovery_cache s') = known
    \<and> i \<notin> live s \<and> live s' = insert i (live s) \<and> peers s' = (peers s)(contact_key c \<mapsto> i)
    \<and> contact (peer_at s' i) = c \<and> state (peer_at s' i) = (if a = Inr () then HANDSHAKE else TRANSPORT)
    \<and> socket_at s' i = fd \<and> open_fds (kernel s') = fd # open_fds (kernel s)
    \<and> io_active (for_sock (peer_at s' i)) \<and> io_fd (for_sock (peer_at s' i)) = fd \<and> io_events (for_sock (peer_at s' i)) = {EV_WRITE}
    \<and> for_timer (peer_at s' i) = \<lparr>timer_active = True, timer_after = connect_timeout\<rparr>
    \<and> sa_port (store (peer_at s' i)) = n_port c
    \<and> (if is_v6 c then sin6_addr (store (peer_at s' i)) = n_addr c else sin_addr (store (peer_at s' i)) = take 4 (n_addr c))
    \<and> inbound_inflight (statistics s') = inbound_inflight (statistics s) + 1"
proof -
  obtain i q cp where run: "discovered_peer_scheduler s = Inr (True, dialled i fd socks a conns (registered c i q cp s))"
    "elements q = known" "i \<notin> live s" "i < length (pool cp)" "live_slots cp = insert i (live s)"
    using newest_dialled [OF reachable_inv [OF assms(1)] assms(2-4,6-10)] by blast
  have "sz_add (inbound_inflight (statistics s)) 1 = inbound_inflight (statistics s) + 1"
    using assms(5) by (intro sz_add_id) (simp add: sz_modulus_def)
  moreover have "in_range i (registered c i q cp s)" using run(4) by (simp add: registered_def in_range_def)
  moreover have "peer_at (registered c i q cp s) i = initialize_connection c Tracker TRANSPORT (peer_at s i)"
    using run(4) by (simp add: registered_def in_range_def)
  ultimately show ?thesis
    unfolding run(1) using run(2-)
    by (intro exI [of _ "dialled i fd socks a conns (registered c i q cp s)"] exI [of _ i])
      (simp add: dialled_def registered_def initialize_connection_def feed_event_def timer_start_def timer_stop_def
        increment_inbound_inflight_def decrement_addr_in_cache_def Let_def)
qed

section \<open>The answer\<close>

lemma peer_recv_taken:
  assumes i: "in_range i s" and b: "ring_valid (recv_buffer (peer_at s i))" and k: "recv_answers (kernel s) = Inr bytes # answers"
    and n: "bytes \<noteq> []" "length bytes \<le> w_available (recv_buffer (peer_at s i))"
  shows "\<exists>b' f. peer_recv i s = Inr (\<lparr>recv_ok = True, buffer_full = f, recvd_bytes = length bytes\<rparr>,
      set_peer i ((peer_at s i)\<lparr>recv_buffer := b', tcp := (tcp (peer_at s i))\<lparr>perrno := - 1\<rparr>\<rparr>)
        (s\<lparr>kernel := (kernel s)\<lparr>recv_answers := answers\<rparr>\<rparr>))
    \<and> contents b' = contents (recv_buffer (peer_at s i)) @ bytes \<and> ring_valid b' \<and> capacity b' = capacity (recv_buffer (peer_at s i))"
proof -
  obtain b' where b': "ring_receive bytes (recv_buffer (peer_at s i)) = Inr b'"
    "contents b' = contents (recv_buffer (peer_at s i)) @ bytes" "ring_valid b'" "capacity b' = capacity (recv_buffer (peer_at s i))"
    using ring_receive_contents [OF b n(2)] by blast
  then show ?thesis using k n prepared_bytes_write [OF b]
    by (intro exI [of _ b'] exI [of _ "ring_full b'"]) (simp add: peer_recv_def recv_messages_def tcp_recv_def Let_def)
qed

text \<open>Closing and forgetting a connection attempt.\<close>

lemma hard_delete_gone:
  assumes "counted i s" and "distinct (open_fds (kernel s))" and "socket_at s i \<noteq> - 1"
  shows "\<exists>s'. hard_delete_peer_connection i s = Inr s' \<and> live s' = live s - {i} \<and> connects s' = connects s
    \<and> peers s' = (peers s)(contact_key (contact (peer_at s i)) := None)
    \<and> open_fds (kernel s') = remove1 (socket_at s i) (open_fds (kernel s))"
proof -
  let ?r = "close_peer_socket i (inflight_resolved (source (peer_at s i)) s)"
  have i: "i \<in> live s" and inv: "manager_inv {i} (inflight_resolved (source (peer_at s i)) s)"
    using assms(1) by (auto simp: counted_def)
  have "manager_inv {i} ?r" using close_inv [OF inv] i by simp
  moreover have "i \<in> live ?r" "socket_at ?r i = - 1" using i closed_socket by simp_all
  ultimately obtain s' where "delete_peer_connection i ?r = Inr s'" "freed i ?r s'"
    using delete_inv [of "{i}" ?r i] by auto
  moreover have "peers ?r = peers s" "connects ?r = connects s" "contact (peer_at ?r i) = contact (peer_at s i)"
    "open_fds (kernel ?r) = remove1 (socket_at s i) (open_fds (kernel s))"
    using i assms(3) closed_socket by (simp_all add: close_peer_socket_eq close_fd_def)
  ultimately show ?thesis
    using i closed_socket by (auto simp: hard_delete_peer_connection_def resolved_close Let_def freed_def)
qed

text \<open>The manager after the bytes have been read and the message has been taken apart.\<close>

definition answered :: "nat \<Rightarrow> io_ring_buffer \<Rightarrow> byte list option \<Rightarrow> (int + byte list) list \<Rightarrow> manager \<Rightarrow> manager" where
  "answered i b pid answers s =
     (let p = peer_at s i
      in set_peer i (p\<lparr>tcp := (tcp p)\<lparr>perrno := - 1\<rparr>, recv_buffer := b, contact := (contact p)\<lparr>peer_id := pid\<rparr>\<rparr>)
         (s\<lparr>kernel := (kernel s)\<lparr>recv_answers := answers\<rparr>\<rparr>))"

lemma answered_simps [simp]:
  "live (answered i b pid answers s) = live s" "peers (answered i b pid answers s) = peers s"
  "connects (answered i b pid answers s) = connects s" "statistics (answered i b pid answers s) = statistics s"
  "open_fds (kernel (answered i b pid answers s)) = open_fds (kernel s)"
  "generation_at (answered i b pid answers s) j = generation_at s j"
  "in_range i (answered i b pid answers s) = in_range i s"
  "in_range i s \<Longrightarrow> peer_at (answered i b pid answers s) i =
     (peer_at s i)\<lparr>tcp := (tcp (peer_at s i))\<lparr>perrno := - 1\<rparr>, recv_buffer := b, contact := (contact (peer_at s i))\<lparr>peer_id := pid\<rparr>\<rparr>"
  by (simp_all add: answered_def Let_def)

lemma handshake_read_decides:
  assumes c: "counted i s" and info: "length (info_hash s) = 20" and src: "source (peer_at s i) = Tracker"
    and k: "recv_answers (kernel s) = Inr bytes # answers" "bytes \<noteq> []"
    and msg: "contents (recv_buffer (peer_at s i)) @ bytes = msg" "length msg = 68"
  shows "\<exists>b pid. handshake_read i s =
      (if verdict (info_hash s) msg then Inr (handle_peer_connection_and_dispatch i (answered i b pid answers s))
       else hard_delete_peer_connection i (answered i b pid answers s))
    \<and> counted i (answered i b pid answers s) \<and> (verdict (info_hash s) msg \<longrightarrow> pid = Some (subspan 48 20 msg))"
proof -
  let ?p = "peer_at s i"
  note l = counted_loose [OF c]
  have buf: "ring_valid (recv_buffer ?p)" "capacity (recv_buffer ?p) = 68" using l by (simp_all add: loose_def buffers_ok_def)
  have r: "in_range i s" using counted_live [OF c] live_bound by (simp add: in_range_def)
  have "length (contents (recv_buffer ?p)) + length bytes = 68" using msg by (metis length_append)
  then have room: "length bytes \<le> w_available (recv_buffer ?p)" using buf(2) by (simp add: w_available_def)
  obtain b' f where recv: "peer_recv i s = Inr (\<lparr>recv_ok = True, buffer_full = f, recvd_bytes = length bytes\<rparr>,
      set_peer i (?p\<lparr>recv_buffer := b', tcp := (tcp ?p)\<lparr>perrno := - 1\<rparr>\<rparr>) (s\<lparr>kernel := (kernel s)\<lparr>recv_answers := answers\<rparr>\<rparr>))"
    "contents b' = msg" "ring_valid b'" "capacity b' = 68"
    using peer_recv_taken [OF r buf(1) k room] msg(1) buf(2) by auto
  have pid: "length x = 20" if "peer_id (contact ?p) = Some x" for x using l that by (simp add: loose_def contact_ok_def)
  have "readable b' = 68" using recv(2) msg(2) by (metis length_contents)
  then obtain b where dec: "handshake_decode b' (info_hash s) (peer_id (contact ?p)) =
      Inr (\<lparr>complete = True, is_valid = verdict (info_hash s) msg\<rparr>,
        if verdict (info_hash s) msg then Some (subspan 48 20 msg) else peer_id (contact ?p), b)" "ring_valid b" "capacity b = 68"
    using handshake_decode_full [OF recv(3,4) _ info, of "peer_id (contact ?p)"] pid recv(2,4) by auto
  define q where "q = (if verdict (info_hash s) msg then Some (subspan 48 20 msg) else peer_id (contact ?p))"
  have q: "length x = 20" if "q = Some x" for x using that pid msg(2) by (auto simp: q_def subspan_def split: if_splits)
  have read: "handshake_read i s =
      (if verdict (info_hash s) msg then Inr (handle_peer_connection_and_dispatch i (answered i b q answers s))
       else hard_delete_peer_connection i (answered i b q answers s))"
    using r src dec(1) by (simp add: handshake_read_def recv(1) answered_def q_def Let_def handle_peer_connection_and_dispatch_def
        stop_connection_watchers_def watchers_stop_def)
  have "counted i (s\<lparr>kernel := (kernel s)\<lparr>recv_answers := answers\<rparr>\<rparr>)" by (rule counted_kernel [OF c]) simp
  then have "counted i (answered i b q answers s)"
    unfolding answered_def Let_def
    by (rule counted_set) (use l dec(2,3) q counted_failures [OF c] in \<open>simp_all add: loose_def buffers_ok_def contact_ok_def contact_key_def\<close>)
  then show ?thesis using read by (intro exI [of _ b] exI [of _ q]) (simp add: q_def)
qed

lemma dispatch_result:
  assumes "in_range i s" and "source (peer_at s i) = Tracker" and "length (connects s) < connects_capacity"
    and "connected_bittorrent_peers (statistics s) < 50"
  defines "s' \<equiv> handle_peer_connection_and_dispatch i s"
  shows "state (peer_at s' i) = CONNECTED \<and> contact (peer_at s' i) = contact (peer_at s i) \<and> live s' = live s
    \<and> \<not> io_active (for_sock (peer_at s' i)) \<and> \<not> timer_active (for_timer (peer_at s' i))
    \<and> connects s' = connects s @ [\<lparr>cu_peer = i, cu_socket = socket_at s i, cu_id = 0, cu_generation = generation_at s i\<rparr>]
    \<and> connected_bittorrent_peers (statistics s') = connected_bittorrent_peers (statistics s) + 1"
proof -
  have "sz_add (connected_bittorrent_peers (statistics s)) 1 = connected_bittorrent_peers (statistics s) + 1"
    using assms(4) by (intro sz_add_id) (simp add: sz_modulus_def)
  then show ?thesis using assms(1-3)
    by (simp add: s'_def handle_peer_connection_and_dispatch_def stop_connection_watchers_def watchers_stop_def io_stop_def timer_stop_def
        inflight_resolved_def send_notification_def increment_connected_def single_inbound_resolved_def in_range_def Let_def)
qed

text \<open>C21: the answer of a peer decides: when the bytes that arrive complete the peer's handshake message,
  the connection is handed on exactly if the message has the protocol's length byte and the info hash
  of the torrent: it is connected, under the identifier that the message carries, its watchers are
  stopped, and its slot, descriptor and generation are queued for the transfers; otherwise its socket
  is closed, its slot free and its contact forgotten.\<close>

theorem handshake_answer_decides:
  assumes "reachable s" and "i \<in> live s" and "state (peer_at s i) = HANDSHAKE" and "source (peer_at s i) = Tracker"
    and "connected_bittorrent_peers (statistics s) < 50" and "length (connects s) < connects_capacity"
    and "recv_answers (kernel s) = Inr bytes # answers" and "bytes \<noteq> []"
    and "contents (recv_buffer (peer_at s i)) @ bytes = msg" and "length msg = 68"
  shows "\<exists>s'. peer_socket_callback i {EV_READ} s = Inr s' \<and>
    (if msg ! 0 = 19 \<and> subspan 28 20 msg = info_hash s
     then state (peer_at s' i) = CONNECTED \<and> peer_id (contact (peer_at s' i)) = Some (subspan 48 20 msg) \<and> live s' = live s
       \<and> \<not> io_active (for_sock (peer_at s' i)) \<and> \<not> timer_active (for_timer (peer_at s' i))
       \<and> connects s' = connects s @ [\<lparr>cu_peer = i, cu_socket = socket_at s i, cu_id = 0, cu_generation = generation_at s i\<rparr>]
       \<and> connected_bittorrent_peers (statistics s') = connected_bittorrent_peers (statistics s) + 1
     else live s' = live s - {i} \<and> socket_at s i \<notin> set (open_fds (kernel s')) \<and> connects s' = connects s
       \<and> peers s' (contact_key (contact (peer_at s i))) = None)"
proof -
  have inv: "manager_inv {} s" by (rule reachable_inv [OF assms(1)])
  have "phase (peer_at s i) \<in> {Inbound, Outbound}" using assms(3) by (simp add: phase_def)
  note c = counted_intro [OF inv assms(2) this]
  have "in_flight (peer_at s i)" using inv_conn_ok [OF inv, of i] assms(2-4) by (auto simp: conn_ok_def phase_def)
  then have sock: "socket_at s i \<noteq> - 1" by (simp add: in_flight_def)
  have r: "in_range i s" using assms(2) live_bound by (simp add: in_range_def)
  have s: "length (info_hash s) = 20" "distinct (open_fds (kernel s))" using inv by (simp_all add: manager_inv_def fds_inv_def)
  obtain b pid where read: "handshake_read i s =
      (if verdict (info_hash s) msg then Inr (handle_peer_connection_and_dispatch i (answered i b pid answers s))
       else hard_delete_peer_connection i (answered i b pid answers s))"
    "counted i (answered i b pid answers s)" "verdict (info_hash s) msg \<longrightarrow> pid = Some (subspan 48 20 msg)"
    using handshake_read_decides [OF c s(1) assms(4,7-10)] by blast
  let ?a = "answered i b pid answers s"
  have call: "peer_socket_callback i {EV_READ} s = handshake_read i s"
    using assms(3-5) by (simp add: peer_socket_callback_def has_met_connection_quota_def healthy_peer_count_def
        handle_peer_application_level_handshake_def Let_def)
  have a: "contact_key (contact (peer_at ?a i)) = contact_key (contact (peer_at s i))" "socket_at ?a i = socket_at s i" "source (peer_at ?a i) = Tracker"
    "contact (peer_at ?a i) = (contact (peer_at s i))\<lparr>peer_id := pid\<rparr>"
    using r assms(4) by (simp_all add: contact_key_def)
  show ?thesis
  proof (cases "verdict (info_hash s) msg")
    case True
    have "in_range i ?a" "length (connects ?a) < connects_capacity" "connected_bittorrent_peers (statistics ?a) < 50" using r assms(5,6) by simp_all
    from dispatch_result [OF this(1) a(3) this(2,3)] show ?thesis
      using True read(1,3) a call by (simp add: verdict_def)
  next
    case False
    obtain s' where "hard_delete_peer_connection i ?a = Inr s'" "live s' = live s - {i}" "connects s' = connects s"
      "peers s' = (peers s)(contact_key (contact (peer_at s i)) := None)" "open_fds (kernel s') = remove1 (socket_at s i) (open_fds (kernel s))"
      using hard_delete_gone [OF read(2)] s(2) sock a by auto
    then show ?thesis using False read(1) call s(2) by (auto simp: verdict_def)
  qed
qed

section \<open>A run: one contact, which answers\<close>

text \<open>One contact has been drained into the cache of a new manager.\<close>

definition example_offer :: "kernel \<Rightarrow> manager" where
  "example_offer k = (new_manager (replicate 20 7) k)
     \<lparr>discovery_cache := push example_contact (new_cache cache_capacity new_contact),
      statistics := increment_addr_in_cache new_statistics, daemon_pending := True\<rparr>"

lemma example_offer_reachable:
  assumes "open_fds k = []"
  shows "reachable (example_offer k)"
proof -
  let ?s = "new_manager (replicate 20 7) k"
  have "reachable ?s" using assms by (intro reachable.start) simp
  moreover have "enabled (Contacts [example_contact]) ?s"
    by (simp add: new_manager_def contact_ok_def example_contact_def discoveries_capacity_def)
  ultimately have "reachable (?s\<lparr>discovered := [example_contact]\<rparr>)"
    using reachable.step [of ?s "Contacts [example_contact]"] by (simp add: new_manager_def)
  moreover have "drain_discovered (?s\<lparr>discovered := [example_contact]\<rparr>) = example_offer k"
    by (simp add: drain_discovered_def example_offer_def new_manager_def increment_addr_in_cache_def new_statistics_def
        has_met_connection_quota_def healthy_peer_count_def max_outbound_inflight_def max_inbound_inflight_def
        available_def new_pool_def pool_capacity_def send_notification_def)
  ultimately show ?thesis using reachable.step [of "?s\<lparr>discovered := [example_contact]\<rparr>" Drain "example_offer k"] by simp
qed

lemma example_offer_cache:
  "cache_valid (discovery_cache (example_offer k))" "elements (discovery_cache (example_offer k)) = [example_contact]"
  using push_room [of "new_cache cache_capacity new_contact" example_contact] new_cache_valid [of cache_capacity new_contact]
  by (simp_all add: example_offer_def cache_capacity_def new_cache_def)

lemma example_offer_simps:
  "available (connection_pool (example_offer k)) = 200" "peers (example_offer k) = Map.empty" "kernel (example_offer k) = k"
  "inbound_inflight (statistics (example_offer k)) = 0" "disconnects (example_offer k) = []" "retry_queue (example_offer k) = []"
  "connected_bittorrent_peers (statistics (example_offer k)) = 0" "connects (example_offer k) = []"
  "current (example_offer k) = Spot_discovered" "empties (example_offer k) = (\<lambda>_. False)" "daemon_pending (example_offer k)"
  "info_hash (example_offer k) = replicate 20 7" "live (example_offer k) = {}"
  using new_pool_valid [of pool_capacity new_connection]
  by (simp_all add: example_offer_def new_manager_def available_def new_pool_def pool_capacity_def increment_addr_in_cache_def new_statistics_def)

theorem newest_contact_dialled_witness:
  "\<exists>s s' i. reachable s \<and> discovered_peer_scheduler s = Inr (True, s') \<and> elements (discovery_cache s') = []
    \<and> contact (peer_at s' i) = example_contact \<and> state (peer_at s' i) = TRANSPORT \<and> socket_at s' i = 7 \<and> open_fds (kernel s') = [7]
    \<and> sa_port (store (peer_at s' i)) = 0x1AE1 \<and> sin_addr (store (peer_at s' i)) = [10, 0, 0, 1] \<and> inbound_inflight (statistics s') = 1"
proof -
  let ?k = "example_kernel\<lparr>socket_answers := [Inr 7], connect_answers := [Inl EINPROGRESS]\<rparr>"
  have k: "open_fds ?k = []" by (simp add: example_kernel_def)
  have "socket_answers ?k = [Inr 7]" "connect_answers ?k = [Inl EINPROGRESS]" by simp_all
  from newest_contact_dialled [OF example_offer_reachable [OF k], of "[]" example_contact 7 "[]" "Inl EINPROGRESS" "[]"]
  show ?thesis
    using example_offer_reachable [OF k] k
    by (fastforce simp: example_offer_cache example_offer_simps example_contact_def numeral_eq_Suc)
qed

text \<open>A round in which nothing is left to do only marks the sources as empty.\<close>

lemma idle_round:
  assumes "cache_valid (discovery_cache s)" and "elements (discovery_cache s) = []" and "disconnects s = []" and "retry_queue s = []"
    and "inbound_inflight (statistics s) < max_inbound_inflight" and "current s = Spot_disconnected" and "\<not> empties s Spot_discovered"
  shows "round_robin_establisher_scheduler s = Inr (s\<lparr>empties := \<lambda>_. True, current := Spot_disconnected\<rparr>)"
proof -
  have pop: "fst (fresh_pop (discovery_cache s)) = None" using fresh_pop_elements [OF assms(1)] assms(2) by simp
  have turn: "scheduler_turn (s\<lparr>empties := e, current := c\<rparr>) =
      Inr (s\<lparr>empties := e(c := True), current := (case c of Spot_discovered \<Rightarrow> Spot_disconnected
        | Spot_disconnected \<Rightarrow> Spot_failed | Spot_failed \<Rightarrow> Spot_discovered)\<rparr>)" for e c
    using pop assms(3,4)
    by (cases c; cases "fresh_pop (discovery_cache s)")
      (simp_all add: scheduler_turn_def discovered_peer_scheduler_def discovered_loop.simps
        disconnected_peer_scheduler.simps failed_peer_scheduler.simps)
  have room: "inbound_inflight (statistics (s\<lparr>empties := e, current := c\<rparr>)) < max_inbound_inflight" for e c
    using assms(5) by simp
  note step = round_robin_establisher_scheduler.simps [of "s\<lparr>empties := _, current := _\<rparr>"]
  let ?all = "((empties s)(Spot_disconnected := True, Spot_failed := True, Spot_discovered := True))"
  have "?all x" for x by (cases x) simp_all
  then have all: "?all = (\<lambda>_. True)" by blast
  have third: "round_robin_establisher_scheduler (s\<lparr>empties := (empties s)(Spot_disconnected := True, Spot_failed := True), current := Spot_discovered\<rparr>) =
      Inr (s\<lparr>empties := \<lambda>_. True, current := Spot_disconnected\<rparr>)"
    by (subst step, simp only: room turn if_True bind_fault.simps spot.case all) (simp add: all_empty_def)
  have second: "round_robin_establisher_scheduler (s\<lparr>empties := (empties s)(Spot_disconnected := True), current := Spot_failed\<rparr>) =
      Inr (s\<lparr>empties := \<lambda>_. True, current := Spot_disconnected\<rparr>)"
    by (subst step, simp only: room turn if_True bind_fault.simps spot.case third) (simp add: all_empty_def assms(7))
  have "round_robin_establisher_scheduler (s\<lparr>empties := empties s, current := Spot_disconnected\<rparr>) =
      Inr (s\<lparr>empties := \<lambda>_. True, current := Spot_disconnected\<rparr>)"
    by (subst step, simp only: room turn if_True bind_fault.simps spot.case second) (simp add: all_empty_def assms(7))
  moreover have "s\<lparr>current := Spot_disconnected\<rparr> = s" using assms(6) by (cases s) simp
  ultimately show ?thesis by simp
qed

lemma example_answering:
  fixes k :: kernel
  assumes "open_fds k = []" and "socket_answers k = [Inr 7]" and "connect_answers k = [Inr ()]"
  shows "\<exists>s i. reachable s \<and> i \<in> live s \<and> state (peer_at s i) = HANDSHAKE \<and> source (peer_at s i) = Tracker
    \<and> contents (recv_buffer (peer_at s i)) = [] \<and> statistics s = increment_inbound_inflight (decrement_addr_in_cache (increment_addr_in_cache new_statistics))
    \<and> connects s = [] \<and> recv_answers (kernel s) = recv_answers k \<and> info_hash s = replicate 20 7"
proof -
  let ?s = "example_offer k" and ?d = "(example_offer k)\<lparr>daemon_pending := False\<rparr>"
  have r: "reachable ?s" by (rule example_offer_reachable [OF assms(1)])
  have "manager_inv {} ?d" using reachable_inv [OF r] by simp
  from newest_dialled [OF this, of "[]" example_contact 7 "[]" "Inr ()" "[]"] obtain i q cp where
    one: "discovered_peer_scheduler ?d = Inr (True, dialled i 7 [] (Inr ()) [] (registered example_contact i q cp ?d))"
      "elements q = []" "cache_valid q" "blank (peer_at ?d i)" "i < length (pool cp)" "live_slots cp = {i}"
    using assms example_offer_cache example_offer_simps by auto
  let ?t = "dialled i 7 [] (Inr ()) [] (registered example_contact i q cp ?d)"
  let ?n = "?t\<lparr>empties := (empties ?t)(Spot_discovered := False), current := Spot_disconnected\<rparr>"
  have turn: "scheduler_turn ?d = Inr ?n"
    using example_offer_simps(9) [of k] by (simp add: scheduler_turn_def one(1))
  have t: "discovery_cache ?t = q" "disconnects ?t = []" "retry_queue ?t = []" "connects ?t = []" "live ?t = {i}" "info_hash ?t = replicate 20 7"
    "recv_answers (kernel ?t) = recv_answers k"
    "statistics ?t = increment_inbound_inflight (decrement_addr_in_cache (increment_addr_in_cache new_statistics))"
    using example_offer_simps [of k] one(6) by (simp_all add: dialled_def registered_def Let_def example_offer_def)
  have "round_robin_establisher_scheduler ?n = Inr (?n\<lparr>empties := \<lambda>_. True, current := Spot_disconnected\<rparr>)"
    using t one(2,3) by (intro idle_round)
      (simp_all add: increment_inbound_inflight_def decrement_addr_in_cache_def increment_addr_in_cache_def new_statistics_def max_inbound_inflight_def sz_add_id sz_modulus_def)
  then have "round_robin_establisher_scheduler ?d = Inr (?t\<lparr>empties := \<lambda>_. True, current := Spot_disconnected\<rparr>)"
    using turn example_offer_simps [of k]
    by (simp add: round_robin_establisher_scheduler.simps [of ?d] all_empty_def max_inbound_inflight_def)
  then have "reachable (?t\<lparr>empties := \<lambda>_. True, current := Spot_disconnected\<rparr>)"
    using reachable.step [OF r, of Daemon] example_offer_simps [of k] by simp
  moreover have "in_range i (registered example_contact i q cp ?d)" using one(5) by (simp add: registered_def in_range_def)
  then have "state (peer_at ?t i) = HANDSHAKE" "source (peer_at ?t i) = Tracker" "contents (recv_buffer (peer_at ?t i)) = []"
    using one(4,5) by (simp_all add: dialled_def registered_def initialize_connection_def in_range_def blank_def buffers_empty_def contents_def Let_def)
  ultimately show ?thesis using t
    by (intro exI [of _ "?t\<lparr>empties := \<lambda>_. True, current := Spot_disconnected\<rparr>"] exI [of _ i]) (simp add: peer_at_def)
qed

theorem handshake_answer_decides_witness:
  "\<exists>s i s'. reachable s \<and> state (peer_at s i) = HANDSHAKE \<and> peer_socket_callback i {EV_READ} s = Inr s'
    \<and> state (peer_at s' i) = CONNECTED \<and> peer_id (contact (peer_at s' i)) = Some (replicate 20 7)
    \<and> length (connects s') = 1 \<and> connected_bittorrent_peers (statistics s') = 1"
proof -
  let ?msg = "19 # replicate 67 7 :: byte list"
  let ?k = "example_kernel\<lparr>socket_answers := [Inr 7], connect_answers := [Inr ()], recv_answers := [Inr ?msg]\<rparr>"
  obtain s i where s: "reachable s" "i \<in> live s" "state (peer_at s i) = HANDSHAKE" "source (peer_at s i) = Tracker"
    "contents (recv_buffer (peer_at s i)) = []" "statistics s = increment_inbound_inflight (decrement_addr_in_cache (increment_addr_in_cache new_statistics))"
    "connects s = []" "recv_answers (kernel s) = [Inr ?msg]" "info_hash s = replicate 20 7"
    using example_answering [of ?k] by (auto simp: example_kernel_def)
  have m: "?msg ! 0 = 19" "subspan 28 20 ?msg = replicate 20 7" "subspan 48 20 ?msg = replicate 20 7" "length ?msg = 68"
    by (simp_all add: subspan_def drop_Cons')
  have n: "connected_bittorrent_peers (statistics s) = 0" "length (connects s) < connects_capacity"
    by (simp_all add: s(6,7) connects_capacity_def increment_inbound_inflight_def decrement_addr_in_cache_def increment_addr_in_cache_def new_statistics_def)
  from handshake_answer_decides [OF s(1-4), of ?msg "[]" ?msg] show ?thesis
    using s m n by fastforce
qed

end
