(* ===== verification/HttpHandler.thy ===== *)
theory HttpHandler
  imports PeerManagerTypes
begin

text \<open>
  \<^verbatim>\<open>src/Client/HTTPHandler.hpp\<close> and \<^verbatim>\<open>HTTPHandler.cpp\<close>: the glue between \<open>libcurl\<close>'s multi
  interface and the event loop.  \<open>libcurl\<close> itself is not part of the repository: the messages it
  reports, the bytes it delivers and the interest it asks for are arguments; of its state only the
  handles that have been added and not removed, and the address set on each, are kept.  Times are
  in milliseconds.
\<close>

section \<open>Requests\<close>

record network_data =
  url :: string
  body :: string
  body_size :: nat

definition new_network_data :: network_data where
  "new_network_data = \<lparr>url = [], body = [], body_size = 0\<rparr>"

definition easy_callback :: "string \<Rightarrow> nat \<Rightarrow> nat \<Rightarrow> network_data option \<Rightarrow> nat \<times> network_data option" where
  "easy_callback data sz datalen user =
     (case user of
        None \<Rightarrow> (0, None)
      | Some u \<Rightarrow>
          (sz_mul sz datalen,
           Some (u\<lparr>body := body u @ take (sz_mul sz datalen) data, body_size := sz_add (body_size u) datalen\<rparr>)))"

section \<open>The multi handle\<close>

text \<open>An easy handle is named by the key of the request that owns it.\<close>

record http_handler =
  multi :: "string list"
  easy_url :: "string \<rightharpoonup> string"

definition new_http_handler :: http_handler where
  "new_http_handler = \<lparr>multi = [], easy_url = Map.empty\<rparr>"

definition http_add_request :: "string \<Rightarrow> network_data \<Rightarrow> http_handler \<Rightarrow> http_handler" where
  "http_add_request request user h =
     h\<lparr>easy_url := (easy_url h)(request \<mapsto> url user),
       multi := (if request \<in> set (multi h) then multi h else multi h @ [request])\<rparr>"

definition http_rmv_request :: "string \<Rightarrow> http_handler \<Rightarrow> http_handler" where
  "http_rmv_request request h = h\<lparr>multi := removeAll request (multi h)\<rparr>"

text \<open>What \<open>curl_multi_info_read\<close> reports.\<close>

record curl_message =
  done_message :: bool
  easy_handle :: string
  result_ok :: bool
  http_res_code :: int

text \<open>
  The loop over the reported messages.  \<open>HTTPRequest\<close> is an abstract class: its two virtual
  functions, and the access to its fields, are arguments.
\<close>

fun chk_finished :: "(string \<Rightarrow> 'm \<Rightarrow> fault + 'm) \<Rightarrow> (string \<Rightarrow> 'm \<Rightarrow> fault + 'm) \<Rightarrow>
    (string \<Rightarrow> 'm \<Rightarrow> fault + 'm) \<Rightarrow> (string \<Rightarrow> 'm \<Rightarrow> 'm) \<Rightarrow> curl_message list \<Rightarrow> 'm \<Rightarrow> fault + 'm" where
  "chk_finished do_on_success do_on_failure clear_data remove_handle [] m = Inr m"
| "chk_finished do_on_success do_on_failure clear_data remove_handle (msg # msgs) m =
     (if \<not> done_message msg then chk_finished do_on_success do_on_failure clear_data remove_handle msgs m
      else
        let request = easy_handle msg
        in bind_fault (if result_ok msg \<and> http_res_code msg = 200 then do_on_success request m
                       else do_on_failure request m) (\<lambda>m.
           bind_fault (clear_data request m) (\<lambda>m.
             chk_finished do_on_success do_on_failure clear_data remove_handle msgs (remove_handle request m))))"

section \<open>Sockets and the timer\<close>

text \<open>
  The conditional operator binds weaker than \<open>|\<close>: what looks like the union of two flags is a
  chain of conditionals.  \<open>what\<close> and \<open>revents\<close> are sets of \<open>EV_READ\<close> and \<open>EV_WRITE\<close>.
\<close>

definition drive_sockt_actions :: "ev_flag set \<Rightarrow> ev_flag set" where
  "drive_sockt_actions revents =
     (if EV_READ \<in> revents then {EV_READ} else if EV_WRITE \<in> revents then {EV_WRITE} else {})"

definition set_socket :: "int \<Rightarrow> ev_flag set \<Rightarrow> io_watcher \<Rightarrow> io_watcher" where
  "set_socket fd what watcher =
     (let actions = (if EV_READ \<in> what then {EV_READ} else if EV_WRITE \<in> what then {EV_WRITE} else {})
      in if actions = {} then watcher
         else
           let watcher = (if io_active watcher then io_stop watcher else watcher)
           in watcher\<lparr>io_fd := fd, io_events := actions, io_active := True\<rparr>)"

definition remove_socket :: "io_watcher \<Rightarrow> io_watcher" where
  "remove_socket watcher = (io_stop watcher)\<lparr>io_fd := - 1, io_events := {EV_READ}\<rparr>"

definition add_socket :: "int \<Rightarrow> ev_flag set \<Rightarrow> io_watcher \<Rightarrow> io_watcher" where
  "add_socket fd action watcher = set_socket fd action watcher"

text \<open>\<open>None\<close> is the request to remove the socket; \<open>socketp\<close>: whether one has been assigned.\<close>

definition http_socket_callback :: "int \<Rightarrow> ev_flag set option \<Rightarrow> bool \<Rightarrow> io_watcher \<Rightarrow> io_watcher" where
  "http_socket_callback sockfd what socketp watcher =
     (case what of
        None \<Rightarrow> remove_socket watcher
      | Some action \<Rightarrow> if \<not> socketp then add_socket sockfd action watcher else set_socket sockfd action watcher)"

text \<open>
  The two callbacks that drive \<open>libcurl\<close>: \<open>socket_action\<close> is what one call of
  \<open>curl_multi_socket_action\<close> does for a socket and its actions, the data it hands to \<open>easy_callback\<close>
  and the messages it leaves behind.  \<open>receive\<close> and \<open>finished\<close> are what becomes of these.
\<close>

type_synonym transfers = "(string \<times> string) list \<times> curl_message list"

definition CURL_SOCKET_TIMEOUT :: int where "CURL_SOCKET_TIMEOUT = - 1"

fun deliver :: "(string \<Rightarrow> string \<Rightarrow> 'm \<Rightarrow> fault + 'm) \<Rightarrow> (string \<times> string) list \<Rightarrow> 'm \<Rightarrow> fault + 'm" where
  "deliver receive [] m = Inr m"
| "deliver receive ((request, bytes) # chunks) m = bind_fault (receive request bytes m) (deliver receive chunks)"

definition drive_sockt :: "(int \<Rightarrow> ev_flag set \<Rightarrow> transfers) \<Rightarrow> (string \<Rightarrow> string \<Rightarrow> 'm \<Rightarrow> fault + 'm) \<Rightarrow>
    (curl_message list \<Rightarrow> 'm \<Rightarrow> fault + 'm) \<Rightarrow> io_watcher \<Rightarrow> ev_flag set \<Rightarrow> 'm \<Rightarrow> fault + 'm" where
  "drive_sockt socket_action receive finished socket revents m =
     (let (chunks, messages) = socket_action (io_fd socket) (drive_sockt_actions revents)
      in bind_fault (deliver receive chunks m) (finished messages))"

definition drive_timer :: "(int \<Rightarrow> ev_flag set \<Rightarrow> transfers) \<Rightarrow> (string \<Rightarrow> string \<Rightarrow> 'm \<Rightarrow> fault + 'm) \<Rightarrow>
    (curl_message list \<Rightarrow> 'm \<Rightarrow> fault + 'm) \<Rightarrow> 'm \<Rightarrow> fault + 'm" where
  "drive_timer socket_action receive finished m =
     (let (chunks, messages) = socket_action CURL_SOCKET_TIMEOUT {}
      in bind_fault (deliver receive chunks m) (finished messages))"

record ev_timer =
  ev_active :: bool
  ev_after :: int

definition new_ev_timer :: ev_timer where
  "new_ev_timer = \<lparr>ev_active = False, ev_after = 0\<rparr>"

definition ev_stop :: "ev_timer \<Rightarrow> ev_timer" where
  "ev_stop timer = timer\<lparr>ev_active := False\<rparr>"

definition arm_timer :: "int \<Rightarrow> ev_timer \<Rightarrow> ev_timer" where
  "arm_timer duration timer = timer\<lparr>ev_after := duration, ev_active := True\<rparr>"

definition http_timer_callback :: "int \<Rightarrow> ev_timer \<Rightarrow> ev_timer" where
  "http_timer_callback timeout_ms timer =
     (let timer = (if ev_active timer then ev_stop timer else timer)
      in timer\<lparr>ev_after := timeout_ms, ev_active := True\<rparr>)"

section \<open>Where the glue departs from what \<open>libcurl\<close> documents\<close>

text \<open>A socket that is to be watched for both directions is watched for reading only.\<close>

lemma both_directions_read_only:
  "io_events (set_socket fd {EV_READ, EV_WRITE} watcher) = {EV_READ}"
  "drive_sockt_actions {EV_READ, EV_WRITE} = {EV_READ}"
  by (simp_all add: set_socket_def drive_sockt_actions_def)

text \<open>The timeout \<open>-1\<close> asks for the timer to be deleted; the callback starts it.\<close>

lemma deleted_timer_is_started: "ev_active (http_timer_callback (- 1) timer)"
  by (simp add: http_timer_callback_def)

end
