(* ===== verification/TrackerManager.thy ===== *)
theory TrackerManager
  imports Constants HttpHandler TorrentFile
begin

text \<open>
  \<^verbatim>\<open>src/Client/TrackerManager.hpp\<close>, \<^verbatim>\<open>TrackerManager.cpp\<close> and \<^verbatim>\<open>Tracker.cpp\<close>: the announces to the
  trackers.  A tracker is named by its key in \<open>tracker_connections\<close>, the host name, and a
  \<open>Tracker*\<close> is that key: dereferencing it after the entry has been erased is a fault.  The order
  in which the hash table is iterated, the clock, \<open>curl_escape\<close> and \<open>inet_pton\<close> are arguments.
  Times are in milliseconds.
\<close>

section \<open>Data\<close>

datatype tracker_state_t = Tracker_null | Tracker_inactive | Tracker_active
datatype tracker_proto_t = Proto_null | Proto_http | Proto_udp
datatype timer_count = Timer_one | Timer_two
datatype tracker_event = Started | Stopped | Completed | Update

record tracker_context_t =
  online :: bool
  interruptible :: bool
  has_http :: bool
  url_failures :: nat
  manager_space_idx :: nat

definition new_tracker_context :: tracker_context_t where
  "new_tracker_context = \<lparr>online = False, interruptible = False, has_http = False, url_failures = 0,
     manager_space_idx = 0\<rparr>"

definition context_reset :: "tracker_context_t \<Rightarrow> tracker_context_t" where
  "context_reset c = c\<lparr>online := False, interruptible := False, url_failures := 0, manager_space_idx := 0\<rparr>"

record tracker_timers_t =
  minimum_duration :: int
  minimum :: ev_timer
  maximum_duration :: int
  maximum :: ev_timer
  timers_type :: timer_count

definition new_timers :: tracker_timers_t where
  "new_timers = \<lparr>minimum_duration = 0, minimum = new_ev_timer, maximum_duration = 0, maximum = new_ev_timer,
     timers_type = Timer_one\<rparr>"

definition timers_reset :: "tracker_timers_t \<Rightarrow> tracker_timers_t" where
  "timers_reset t = t\<lparr>minimum_duration := 0, maximum_duration := 0, timers_type := Timer_one,
     minimum := ev_stop (minimum t), maximum := ev_stop (maximum t)\<rparr>"

record announce_list_t =
  url_list :: "string list"
  domain_name :: string
  current_idx :: nat
  failed_idx :: nat
  just_failed :: bool

definition new_announce_list :: announce_list_t where
  "new_announce_list = \<lparr>url_list = [], domain_name = [], current_idx = 0, failed_idx = 0, just_failed = False\<rparr>"

definition announce_reset :: "announce_list_t \<Rightarrow> announce_list_t" where
  "announce_reset a = a\<lparr>failed_idx := 0, current_idx := 0, just_failed := False\<rparr>"

record manager_context_t =
  uploaded :: nat
  downloaded :: nat
  left_bytes :: nat
  context_event :: tracker_event
  announced_port :: int
  compact :: int
  escaped_info_hash_byte :: string
  context_active :: bool

record tracker =
  user_space :: network_data
  tracker_id :: string
  tracker_state :: tracker_state_t
  current_proto :: tracker_proto_t
  tracker_ctx :: tracker_context_t
  timers :: tracker_timers_t
  announce_url :: announce_list_t

definition new_tracker :: tracker where
  "new_tracker = \<lparr>user_space = new_network_data, tracker_id = [], tracker_state = Tracker_null,
     current_proto = Proto_null, tracker_ctx = new_tracker_context, timers = new_timers,
     announce_url = new_announce_list\<rparr>"

type_synonym event_mask = "8 word"

definition start_mask :: event_mask where "start_mask = push_bit 0 1"
definition reannounce_mask :: event_mask where "reannounce_mask = push_bit 1 1"
definition force_reannounce_mask :: event_mask where "force_reannounce_mask = push_bit 2 1"
definition shutdown_mask :: event_mask where "shutdown_mask = push_bit 3 1"

record tracker_manager =
  started_tp :: int
  event_set :: event_mask
  signal_pending :: bool
  protocol :: http_handler
  tracker_context :: manager_context_t
  tracker_connections :: "string \<rightharpoonup> tracker"
  manager_space :: "string list"
  discoveries :: "peer_contact list"
  consumer_pending :: bool

text \<open>Reading and writing through a pointer to a tracker.\<close>

definition tracker_at :: "string \<Rightarrow> tracker_manager \<Rightarrow> fault + tracker" where
  "tracker_at k m = (case tracker_connections m k of None \<Rightarrow> Inl Dangling_reference | Some t \<Rightarrow> Inr t)"

definition set_tracker :: "string \<Rightarrow> tracker \<Rightarrow> tracker_manager \<Rightarrow> tracker_manager" where
  "set_tracker k t m = m\<lparr>tracker_connections := (tracker_connections m)(k \<mapsto> t)\<rparr>"

definition update_tracker :: "string \<Rightarrow> (tracker \<Rightarrow> tracker) \<Rightarrow> tracker_manager \<Rightarrow> fault + tracker_manager" where
  "update_tracker k f m = bind_fault (tracker_at k m) (\<lambda>t. Inr (set_tracker k (f t) m))"

section \<open>Addresses\<close>

fun find_substring :: "string \<Rightarrow> string \<Rightarrow> nat option" where
  "find_substring sub [] = (if sub = [] then Some 0 else None)"
| "find_substring sub (c # cs) =
     (if take (length sub) (c # cs) = sub then Some 0 else map_option Suc (find_substring sub cs))"

fun find_last_of :: "char \<Rightarrow> string \<Rightarrow> nat option" where
  "find_last_of c [] = None"
| "find_last_of c (x # xs) =
     (case find_last_of c xs of Some i \<Rightarrow> Some (Suc i) | None \<Rightarrow> if x = c then Some 0 else None)"

text \<open>
  \<open>npos\<close> becomes \<open>-1\<close> as an \<open>int\<close>.  A negative length converts to one beyond every string, and
  \<open>substr\<close> throws when it starts beyond the end.
\<close>

definition position_or_npos :: "nat option \<Rightarrow> int" where
  "position_or_npos p = (case p of None \<Rightarrow> - 1 | Some i \<Rightarrow> int i)"

definition substr :: "int \<Rightarrow> int \<Rightarrow> string \<Rightarrow> fault + string" where
  "substr pos count s =
     (if length s < nat pos then Inl Out_of_bounds_access
      else if count < 0 then Inr (drop (nat pos) s)
      else Inr (take (nat count) (drop (nat pos) s)))"

definition get_hostname :: "string \<Rightarrow> fault + string" where
  "get_hostname address =
     (let hostname_start_index = position_or_npos (find_substring ''://'' address) + 3;
          port_character_index = position_or_npos (find_last_of CHR '':'' address);
          hostname_end_index = (if port_character_index < hostname_start_index
            then position_or_npos (find_last_of CHR ''/'' address) else port_character_index)
      in substr hostname_start_index (hostname_end_index - hostname_start_index) address)"

definition is_http :: "string \<Rightarrow> bool" where
  "is_http address \<longleftrightarrow> take 4 address = ''http''"

fun initialize_trackers :: "string list \<Rightarrow> tracker_manager \<Rightarrow> fault + tracker_manager" where
  "initialize_trackers [] m = Inr m"
| "initialize_trackers (address # urls) m =
     bind_fault (get_hostname address) (\<lambda>key.
       let current = (case tracker_connections m key of
             Some t \<Rightarrow> t
           | None \<Rightarrow> new_tracker\<lparr>announce_url := new_announce_list\<lparr>domain_name := key\<rparr>\<rparr>);
           current = (if is_http address
             then current\<lparr>tracker_ctx := (tracker_ctx current)\<lparr>has_http := True\<rparr>\<rparr> else current);
           current = (if address \<in> set (url_list (announce_url current)) then current
             else current\<lparr>announce_url := (announce_url current)\<lparr>url_list := url_list (announce_url current) @ [address]\<rparr>\<rparr>)
       in initialize_trackers urls (set_tracker key current m))"

definition get_url :: "tracker \<Rightarrow> fault + string" where
  "get_url t =
     (let a = announce_url t
      in if current_idx a < length (url_list a) then Inr (url_list a ! current_idx a) else Inl Out_of_bounds_access)"

definition seek_to_next_url :: "tracker \<Rightarrow> fault + (bool \<times> tracker)" where
  "seek_to_next_url t =
     (let a = announce_url t;
          urls = url_list a;
          a = a\<lparr>current_idx := sz_add (current_idx a) 1\<rparr>;
          a = (if length urls \<le> current_idx a then a\<lparr>current_idx := 0\<rparr> else a)
      in if \<not> current_idx a < length urls then Inl Out_of_bounds_access
         else
           let t = t\<lparr>announce_url := a, current_proto := (if is_http (urls ! current_idx a) then Proto_http else Proto_udp)\<rparr>
           in Inr (failed_idx a = current_idx a, t))"

text \<open>
  The loops that look for the next \<open>http\<close> address.  The fuel is one more than the number of
  addresses: more turns than that come around to where they started.
\<close>

fun seek_http :: "nat \<Rightarrow> tracker \<Rightarrow> fault + (bool \<times> tracker)" where
  "seek_http 0 t = Inl Fuel_exhausted"
| "seek_http (Suc fuel) t =
     bind_fault (seek_to_next_url t) (\<lambda>(url_cycle_exhausted, t).
       if current_proto t \<noteq> Proto_http then seek_http fuel t else Inr (url_cycle_exhausted, t))"

definition seek_fuel :: "tracker \<Rightarrow> nat" where
  "seek_fuel t = length (url_list (announce_url t)) + 1"

section \<open>The manager's space\<close>

definition return_to_manager_space :: "string \<Rightarrow> tracker_manager \<Rightarrow> fault + tracker_manager" where
  "return_to_manager_space k m =
     bind_fault (update_tracker k (\<lambda>t. t\<lparr>tracker_ctx := (tracker_ctx t)\<lparr>manager_space_idx := length (manager_space m)\<rparr>\<rparr>) m)
       (\<lambda>m. Inr (m\<lparr>manager_space := manager_space m @ [k]\<rparr>))"

definition send_to_protocol_space :: "string \<Rightarrow> tracker_manager \<Rightarrow> fault + tracker_manager" where
  "send_to_protocol_space k m =
     (if manager_space m = [] then Inl Out_of_bounds_access
      else
        let last_tracker = last (manager_space m)
        in bind_fault (tracker_at k m) (\<lambda>t.
           let idx = manager_space_idx (tracker_ctx t)
           in bind_fault (update_tracker last_tracker (\<lambda>l. l\<lparr>tracker_ctx := (tracker_ctx l)\<lparr>manager_space_idx := idx\<rparr>\<rparr>) m)
                (\<lambda>m. if \<not> idx < length (manager_space m) then Inl Out_of_bounds_access
                     else Inr (m\<lparr>manager_space := butlast ((manager_space m)[idx := last_tracker])\<rparr>))))"

fun populate_manager_space :: "string list \<Rightarrow> tracker_manager \<Rightarrow> fault + tracker_manager" where
  "populate_manager_space [] m = Inr m"
| "populate_manager_space (k # ks) m =
     bind_fault (tracker_at k m) (\<lambda>t.
       if \<not> has_http (tracker_ctx t) then populate_manager_space ks m
       else bind_fault (if current_proto t \<noteq> Proto_http then seek_http (seek_fuel t) t else Inr (False, t)) (\<lambda>(_, t).
         let t = t\<lparr>tracker_ctx := (tracker_ctx t)\<lparr>manager_space_idx := length (manager_space m)\<rparr>\<rparr>
         in populate_manager_space ks ((set_tracker k t m)\<lparr>manager_space := manager_space m @ [k]\<rparr>)))"

section \<open>Requests\<close>

definition make_param :: "string \<Rightarrow> string \<Rightarrow> string" where
  "make_param key val = key @ ''='' @ val"

fun accumulate_params :: "nat \<Rightarrow> string list \<Rightarrow> string" where
  "accumulate_params i [] = []"
| "accumulate_params i (param # params) =
     (if i \<noteq> 7 then param @ ''&'' else param) @ accumulate_params (i + 1) params"

definition get_request_params :: "manager_context_t \<Rightarrow> string" where
  "get_request_params c =
     (let params = [make_param ''info_hash'' (escaped_info_hash_byte c), make_param ''peer_id'' client_id,
            make_param ''port'' (int_to_string (announced_port c)), make_param ''uploaded'' (nat_to_string (uploaded c)),
            make_param ''downloaded'' (nat_to_string (downloaded c)), make_param ''left'' (nat_to_string (left_bytes c)),
            make_param ''compact'' (int_to_string (compact c)), []]
      in butlast (accumulate_params 0 params))"

fun event_string :: "tracker_event \<Rightarrow> string" where
  "event_string Started = ''&event=started''"
| "event_string Stopped = ''&event=stopped''"
| "event_string Completed = ''&event=completed''"
| "event_string Update = []"

definition set_announce_url_for_tracker :: "string \<Rightarrow> tracker_event \<Rightarrow> tracker_manager \<Rightarrow> fault + tracker_manager" where
  "set_announce_url_for_tracker k event m =
     bind_fault (tracker_at k m) (\<lambda>t.
       let id_param = (if tracker_id t = [] then [] else ''&'' @ ''trackerid='' @ tracker_id t)
       in bind_fault (get_url t) (\<lambda>u.
            let request_url = u @ ''?'' @ get_request_params (tracker_context m) @ id_param @ event_string event
            in Inr (set_tracker k (t\<lparr>user_space := (user_space t)\<lparr>url := request_url\<rparr>\<rparr>) m)))"

definition protocol_add_request :: "string \<Rightarrow> tracker_manager \<Rightarrow> fault + tracker_manager" where
  "protocol_add_request k m =
     bind_fault (tracker_at k m) (\<lambda>t.
       case current_proto t of
         Proto_http \<Rightarrow> Inr (m\<lparr>protocol := http_add_request k (user_space t) (protocol m)\<rparr>)
       | Proto_udp \<Rightarrow> Inr m
       | _ \<Rightarrow> Inr m)"

text \<open>The three statements that start an announce in the timer's and the events' handlers.\<close>

definition announce :: "string \<Rightarrow> tracker_event \<Rightarrow> tracker_manager \<Rightarrow> fault + tracker_manager" where
  "announce k event m =
     bind_fault (set_announce_url_for_tracker k event m) (\<lambda>m.
     bind_fault (send_to_protocol_space k m) (\<lambda>m. protocol_add_request k m))"

section \<open>Answers\<close>

definition discoveries_push :: "peer_contact \<Rightarrow> tracker_manager \<Rightarrow> bool \<times> tracker_manager" where
  "discoveries_push endpoint m =
     (if length (discoveries m) < discoveries_capacity then (True, m\<lparr>discoveries := discoveries m @ [endpoint]\<rparr>)
      else (False, m))"

text \<open>The two bytes of a port, as they are in memory, on a little-endian host.\<close>

definition port_of_bytes :: "byte list \<Rightarrow> 16 word" where
  "port_of_bytes bs = ucast (bs ! 0) OR push_bit 8 (ucast (bs ! 1))"

definition htons :: "16 word \<Rightarrow> 16 word" where
  "htons w = push_bit 8 w OR drop_bit 8 w"

fun compact_peers :: "byte list \<Rightarrow> bool \<Rightarrow> tracker_manager \<Rightarrow> bool \<times> tracker_manager" where
  "compact_peers (a # b # c # d # p # q # peer_binaries) notify_consumer m =
     (let new_endpoint = new_contact\<lparr>is_v6 := False, n_addr := write_at 0 [a, b, c, d] (n_addr new_contact),
            n_port := port_of_bytes [p, q]\<rparr>;
          (pushed, m) = discoveries_push new_endpoint m
      in compact_peers peer_binaries (if pushed \<and> \<not> notify_consumer then True else notify_consumer) m)"
| "compact_peers _ notify_consumer m = (notify_consumer, m)"

text \<open>
  One entry of a list of peers: \<open>None\<close> when the loop goes on to the next.  \<open>inet_pton\<close> gives the
  bytes of an address of the family, if the text is one; a C string ends at its first zero.
\<close>

definition list_peer :: "(int \<Rightarrow> string \<Rightarrow> byte list option) \<Rightarrow> dictionary \<Rightarrow> fault + peer_contact option" where
  "list_peer inet_pton peer_map =
     bind_fault (case ben_find ''peer id'' peer_map of
         None \<Rightarrow> Inr new_contact
       | Some found_value \<Rightarrow> bind_fault (get_as_string found_value) (\<lambda>id_text.
           Inr (if length id_text = 20 then new_contact\<lparr>peer_id := Some (as_bytes id_text)\<rparr> else new_contact))) (\<lambda>new_endpoint.
       case ben_find ''ip'' peer_map of
         None \<Rightarrow> Inr None
       | Some found_value \<Rightarrow> bind_fault (get_as_string found_value) (\<lambda>peer_addr.
           let text_addr = takeWhile (\<lambda>ch. ch \<noteq> CHR 0x00) peer_addr;
               parsed = (case inet_pton AF_INET text_addr of
                   Some bytes \<Rightarrow> Some (new_endpoint\<lparr>n_addr := write_at 0 bytes (n_addr new_endpoint), is_v6 := False\<rparr>)
                 | None \<Rightarrow> (case inet_pton AF_INET6 text_addr of
                     Some bytes \<Rightarrow> Some (new_endpoint\<lparr>n_addr := write_at 0 bytes (n_addr new_endpoint), is_v6 := True\<rparr>)
                   | None \<Rightarrow> None))
           in (case parsed of
                 None \<Rightarrow> Inr None
               | Some new_endpoint \<Rightarrow>
                   (case ben_find ''port'' peer_map of
                      None \<Rightarrow> Inr None
                    | Some found_value \<Rightarrow> bind_fault (get_as_integer found_value) (\<lambda>peer_port.
                        if peer_port < 1 \<or> 65535 < peer_port then Inr None
                        else Inr (Some (new_endpoint\<lparr>n_port := htons (word_of_int peer_port)\<rparr>)))))))"

fun list_peers :: "(int \<Rightarrow> string \<Rightarrow> byte list option) \<Rightarrow> data list \<Rightarrow> bool \<Rightarrow> tracker_manager \<Rightarrow>
    fault + (bool \<times> tracker_manager)" where
  "list_peers inet_pton [] notify_consumer m = Inr (notify_consumer, m)"
| "list_peers inet_pton (peer # peer_list) notify_consumer m =
     bind_fault (get_as_dictionary peer) (\<lambda>peer_map.
     bind_fault (list_peer inet_pton peer_map) (\<lambda>entry.
       case entry of
         None \<Rightarrow> list_peers inet_pton peer_list notify_consumer m
       | Some new_endpoint \<Rightarrow>
           (let (pushed, m) = discoveries_push new_endpoint m
            in list_peers inet_pton peer_list (if pushed \<and> \<not> notify_consumer then True else notify_consumer) m)))"

text \<open>
  The peers of an answer: the first component says whether the handler goes on (\<open>False\<close>: one of
  the two early returns).
\<close>

definition response_peers :: "(int \<Rightarrow> string \<Rightarrow> byte list option) \<Rightarrow> dictionary \<Rightarrow> tracker_manager \<Rightarrow>
    fault + (bool \<times> tracker_manager)" where
  "response_peers inet_pton parse m =
     (case ben_find ''peers'' parse of
        None \<Rightarrow> Inr (False, m)
      | Some parsed_peers \<Rightarrow>
          bind_fault (case type_of_data parsed_peers of
              Type_string \<Rightarrow> bind_fault (get_as_string parsed_peers) (\<lambda>text_peers.
                let peer_binaries = as_bytes text_peers
                in if peer_binaries = [] \<or> length peer_binaries mod 6 \<noteq> 0 then Inr (False, False, m)
                   else Inr (True, compact_peers peer_binaries False m))
            | Type_list \<Rightarrow> bind_fault (get_as_list parsed_peers) (\<lambda>peer_list.
                bind_fault (list_peers inet_pton peer_list False m) (\<lambda>r. Inr (True, r)))
            | _ \<Rightarrow> Inr (True, False, m)) (\<lambda>(goes_on, notify_consumer, m).
          Inr (goes_on, if goes_on \<and> notify_consumer then m\<lparr>consumer_pending := True\<rparr> else m)))"

definition shutdown_reset :: "tracker \<Rightarrow> tracker" where
  "shutdown_reset t = t\<lparr>tracker_state := Tracker_null, current_proto := Proto_null,
     tracker_ctx := context_reset (tracker_ctx t), timers := timers_reset (timers t),
     announce_url := announce_reset (announce_url t)\<rparr>"

definition arm_maximum :: "int \<Rightarrow> tracker \<Rightarrow> tracker" where
  "arm_maximum seconds t = t\<lparr>timers := (timers t)\<lparr>maximum := arm_timer (1000 * seconds) (maximum (timers t))\<rparr>\<rparr>"

definition arm_minimum :: "int \<Rightarrow> tracker \<Rightarrow> tracker" where
  "arm_minimum seconds t = t\<lparr>timers := (timers t)\<lparr>minimum := arm_timer (1000 * seconds) (minimum (timers t))\<rparr>\<rparr>"

definition disarm_maximum :: "tracker \<Rightarrow> tracker" where
  "disarm_maximum t = t\<lparr>timers := (timers t)\<lparr>maximum := ev_stop (maximum (timers t))\<rparr>\<rparr>"

definition disarm_minimum :: "tracker \<Rightarrow> tracker" where
  "disarm_minimum t = t\<lparr>timers := (timers t)\<lparr>minimum := ev_stop (minimum (timers t))\<rparr>\<rparr>"

text \<open>How both handlers end.\<close>

definition back_or_reset :: "string \<Rightarrow> tracker_manager \<Rightarrow> fault + tracker_manager" where
  "back_or_reset k m =
     (if context_active (tracker_context m) then return_to_manager_space k m
      else update_tracker k shutdown_reset m)"

text \<open>The fields that an answer sets, before its peers are looked at.\<close>

definition response_fields :: "dictionary \<Rightarrow> tracker \<Rightarrow> fault + tracker" where
  "response_fields parse t =
     (let t = t\<lparr>tracker_state := Tracker_active, tracker_ctx := (tracker_ctx t)\<lparr>url_failures := 0\<rparr>,
            announce_url := (announce_url t)\<lparr>failed_idx := sz_modulus - 1, just_failed := False\<rparr>\<rparr>;
          t = t\<lparr>timers := (timers t)\<lparr>timers_type := Timer_one\<rparr>\<rparr>
      in bind_fault (case ben_find ''interval'' parse of
             None \<Rightarrow> Inr t
           | Some interval \<Rightarrow> bind_fault (get_as_integer interval) (\<lambda>n.
               Inr (t\<lparr>timers := (timers t)\<lparr>maximum_duration := (if n \<le> 0 then 1800 else n)\<rparr>\<rparr>))) (\<lambda>t.
         bind_fault (case ben_find ''min interval'' parse of
             None \<Rightarrow> Inr t
           | Some min_interval \<Rightarrow> bind_fault (get_as_integer min_interval) (\<lambda>n.
               let ti = (timers t)\<lparr>minimum_duration := n\<rparr>
               in Inr (t\<lparr>timers := (if 0 < n then ti\<lparr>timers_type := Timer_two\<rparr> else ti)\<rparr>))) (\<lambda>t.
         (case ben_find ''tracker id'' parse of
            None \<Rightarrow> Inr t
          | Some id_response \<Rightarrow> bind_fault (get_as_string id_response) (\<lambda>s. Inr (t\<lparr>tracker_id := s\<rparr>))))))"

text \<open>The timers that an answer arms at the end.\<close>

definition arm_response_timers :: "tracker \<Rightarrow> tracker" where
  "arm_response_timers t =
     (let t = arm_maximum (maximum_duration (timers t)) t
      in if timers_type (timers t) = Timer_two
         then (arm_minimum (minimum_duration (timers t)) t)\<lparr>tracker_ctx := (tracker_ctx t)\<lparr>interruptible := False\<rparr>\<rparr>
         else t)"

definition active_state_handler :: "(int \<Rightarrow> string \<Rightarrow> byte list option) \<Rightarrow> string \<Rightarrow> dictionary \<Rightarrow> tracker_manager \<Rightarrow>
    fault + tracker_manager" where
  "active_state_handler inet_pton k parse m =
     bind_fault (tracker_at k m) (\<lambda>t.
     bind_fault (response_fields parse t) (\<lambda>t.
     let m = set_tracker k t m
     in bind_fault (response_peers inet_pton parse m) (\<lambda>(goes_on, m).
          if \<not> goes_on then Inr m
          else bind_fault (update_tracker k arm_response_timers m) (back_or_reset k))))"

definition retry_intervals :: "int list" where
  "retry_intervals = [10, 30, 300, 900, 2700]"

text \<open>The index is \<open>failures-1 %5\<close>: the remainder is that of 1.\<close>

definition get_retry_seconds :: "tracker \<Rightarrow> fault + int" where
  "get_retry_seconds t =
     (let n = url_failures (tracker_ctx t);
          i = sz_sub n (1 mod 5)
      in if n = 0 then Inr 0
         else if i < length retry_intervals then Inr (retry_intervals ! i) else Inl Out_of_bounds_access)"

text \<open>The state after a failure, with the address that failed first.\<close>

definition note_failure :: "tracker \<Rightarrow> tracker" where
  "note_failure t =
     (let t = t\<lparr>tracker_state := Tracker_inactive, timers := (timers t)\<lparr>timers_type := Timer_one\<rparr>\<rparr>;
          a = announce_url t
      in if \<not> just_failed a then t\<lparr>announce_url := a\<lparr>failed_idx := current_idx a, just_failed := True\<rparr>\<rparr> else t)"

definition inactive_state_handler :: "string \<Rightarrow> tracker_manager \<Rightarrow> fault + tracker_manager" where
  "inactive_state_handler k m =
     bind_fault (tracker_at k m) (\<lambda>t.
     bind_fault (seek_http (seek_fuel t) (note_failure t)) (\<lambda>(url_cycle_exhausted, t).
       bind_fault (if url_cycle_exhausted
           then let t = t\<lparr>tracker_ctx := (tracker_ctx t)\<lparr>url_failures := sz_add (url_failures (tracker_ctx t)) 1\<rparr>\<rparr>
                in bind_fault (get_retry_seconds t) (\<lambda>n. Inr (t\<lparr>timers := (timers t)\<lparr>maximum_duration := n\<rparr>\<rparr>))
           else Inr (t\<lparr>timers := (timers t)\<lparr>maximum_duration := 5\<rparr>\<rparr>)) (\<lambda>t.
       back_or_reset k (set_tracker k (arm_maximum (maximum_duration (timers t)) t) m))))"

definition do_on_success :: "(int \<Rightarrow> string \<Rightarrow> byte list option) \<Rightarrow> string \<Rightarrow> tracker_manager \<Rightarrow> fault + tracker_manager" where
  "do_on_success inet_pton k m =
     bind_fault (tracker_at k m) (\<lambda>t.
       let t = t\<lparr>tracker_ctx := (tracker_ctx t)\<lparr>online := True\<rparr>\<rparr>;
           m = set_tracker k t m
       in if body (user_space t) = [] then inactive_state_handler k m
          else case decode_input (body (user_space t)) of
              None \<Rightarrow> Inr (m\<lparr>tracker_connections := (tracker_connections m)(domain_name (announce_url t) := None)\<rparr>)
            | Some parse \<Rightarrow> bind_fault (get_as_dictionary parse) (\<lambda>parsed_dict.
                if ben_contains ''failure reason'' parsed_dict then inactive_state_handler k m
                else active_state_handler inet_pton k parsed_dict m))"

definition do_on_failure :: "string \<Rightarrow> tracker_manager \<Rightarrow> fault + tracker_manager" where
  "do_on_failure k m =
     bind_fault (update_tracker k (\<lambda>t. t\<lparr>tracker_ctx := (tracker_ctx t)\<lparr>online := False\<rparr>\<rparr>) m) (inactive_state_handler k)"

text \<open>The messages of \<open>libcurl\<close>, for the requests of the trackers.\<close>

definition tracker_messages :: "(int \<Rightarrow> string \<Rightarrow> byte list option) \<Rightarrow> curl_message list \<Rightarrow> tracker_manager \<Rightarrow>
    fault + tracker_manager" where
  "tracker_messages inet_pton =
     chk_finished (do_on_success inet_pton) do_on_failure
       (\<lambda>k. update_tracker k (\<lambda>t. t\<lparr>user_space := (user_space t)\<lparr>body := []\<rparr>\<rparr>))
       (\<lambda>k m. m\<lparr>protocol := http_rmv_request k (protocol m)\<rparr>)"

text \<open>What comes in for a request: its own \<open>network_data\<close> is the argument of \<open>easy_callback\<close>.\<close>

definition tracker_receive :: "string \<Rightarrow> string \<Rightarrow> tracker_manager \<Rightarrow> fault + tracker_manager" where
  "tracker_receive k bytes =
     update_tracker k (\<lambda>t. t\<lparr>user_space := the (snd (easy_callback bytes 1 (length bytes) (Some (user_space t))))\<rparr>)"

section \<open>Timers\<close>

definition startup_window :: int where "startup_window = 30000"

text \<open>\<open>longer\<close>: the timer that fired is the maximum timer.\<close>

definition tracker_timeout_handler :: "int \<Rightarrow> string \<Rightarrow> bool \<Rightarrow> tracker_manager \<Rightarrow> fault + tracker_manager" where
  "tracker_timeout_handler now k longer m =
     bind_fault (update_tracker k (if longer then disarm_maximum else disarm_minimum) m) (\<lambda>m.
     bind_fault (tracker_at k m) (\<lambda>t.
       if timers_type (timers t) = Timer_two \<and> \<not> interruptible (tracker_ctx t)
       then Inr (set_tracker k (t\<lparr>tracker_ctx := (tracker_ctx t)\<lparr>interruptible := True\<rparr>\<rparr>) m)
       else
         let event = (if now - started_tp m < startup_window then Started else context_event (tracker_context m))
         in announce k event m))"

section \<open>Events\<close>

text \<open>
  A range-based loop over the space whose body may take trackers out of it: the loop runs to the
  end it started with, over the vector's storage, in which a removed last element stays.
\<close>

fun over_space :: "(string \<Rightarrow> tracker_manager \<Rightarrow> fault + tracker_manager) \<Rightarrow> string list \<Rightarrow> nat \<Rightarrow> nat \<Rightarrow>
    tracker_manager \<Rightarrow> fault + tracker_manager" where
  "over_space handler storage i 0 m = Inr m"
| "over_space handler storage i (Suc n) m =
     bind_fault (handler (storage ! i) m) (\<lambda>m.
       over_space handler (manager_space m @ drop (length (manager_space m)) storage) (i + 1) n m)"

definition for_each_tracker :: "(string \<Rightarrow> tracker_manager \<Rightarrow> fault + tracker_manager) \<Rightarrow> tracker_manager \<Rightarrow>
    fault + tracker_manager" where
  "for_each_tracker handler m = over_space handler (manager_space m) 0 (length (manager_space m)) m"

definition start_tracker :: "string \<Rightarrow> tracker_manager \<Rightarrow> fault + tracker_manager" where
  "start_tracker k m =
     bind_fault (tracker_at k m) (\<lambda>t.
       if tracker_state t \<noteq> Tracker_null then Inl Assertion_failed
       else if timers_type (timers t) \<noteq> Timer_one then Inl Assertion_failed
       else Inr (set_tracker k (t\<lparr>tracker_state := Tracker_inactive,
              timers := (timers t)\<lparr>maximum := arm_timer 100 (maximum (timers t))\<rparr>\<rparr>) m))"

definition start_event :: "string list \<Rightarrow> int \<Rightarrow> tracker_manager \<Rightarrow> fault + tracker_manager" where
  "start_event order now m =
     bind_fault (populate_manager_space order m) (\<lambda>m.
     bind_fault (for_each_tracker start_tracker m) (\<lambda>m. Inr (m\<lparr>started_tp := now\<rparr>)))"

definition reannounce_tracker :: "string \<Rightarrow> tracker_manager \<Rightarrow> fault + tracker_manager" where
  "reannounce_tracker k m =
     bind_fault (tracker_at k m) (\<lambda>t.
       if timers_type (timers t) = Timer_two \<and> interruptible (tracker_ctx t) \<and> tracker_state t = Tracker_active
       then announce k (context_event (tracker_context m)) (set_tracker k (disarm_maximum t) m)
       else Inr m)"

definition reannounce_event :: "tracker_manager \<Rightarrow> fault + tracker_manager" where
  "reannounce_event m = for_each_tracker reannounce_tracker m"

definition force_reannounce_tracker :: "string \<Rightarrow> tracker_manager \<Rightarrow> fault + tracker_manager" where
  "force_reannounce_tracker k m =
     bind_fault (tracker_at k m) (\<lambda>t.
       if tracker_state t = Tracker_active
       then announce k (context_event (tracker_context m)) (set_tracker k (disarm_maximum (disarm_minimum t)) m)
       else Inr m)"

definition force_reannounce_event :: "tracker_manager \<Rightarrow> fault + tracker_manager" where
  "force_reannounce_event m = for_each_tracker force_reannounce_tracker m"

definition shutdown_tracker :: "string \<Rightarrow> tracker_manager \<Rightarrow> fault + tracker_manager" where
  "shutdown_tracker k m =
     bind_fault (update_tracker k disarm_maximum m) (\<lambda>m.
     bind_fault (send_to_protocol_space k m) (\<lambda>m.
     bind_fault (tracker_at k m) (\<lambda>t.
       if tracker_state t = Tracker_inactive then Inr m
       else
         let t = (if timers_type (timers t) = Timer_two then disarm_minimum t else t)
         in bind_fault (set_announce_url_for_tracker k (context_event (tracker_context m)) (set_tracker k t m))
              (protocol_add_request k))))"

definition shutdown_event :: "tracker_manager \<Rightarrow> fault + tracker_manager" where
  "shutdown_event m = for_each_tracker shutdown_tracker m"

definition has_event :: "event_mask \<Rightarrow> event_mask \<Rightarrow> bool" where
  "has_event wanted event \<longleftrightarrow> event AND wanted \<noteq> 0"

definition set_active :: "bool \<Rightarrow> tracker_manager \<Rightarrow> tracker_manager" where
  "set_active b m = m\<lparr>tracker_context := (tracker_context m)\<lparr>context_active := b\<rparr>\<rparr>"

text \<open>
  \<open>late\<close>: what other threads have added to the set between the two accesses of the handler.
\<close>

definition handle_event :: "string list \<Rightarrow> int \<Rightarrow> event_mask \<Rightarrow> tracker_manager \<Rightarrow> fault + tracker_manager" where
  "handle_event order now late m =
     (let event = event_set m; handled = 0
      in bind_fault (if has_event start_mask event \<and> \<not> context_active (tracker_context m)
           then bind_fault (start_event order now m) (\<lambda>m. Inr (set_active True m, handled OR start_mask))
           else Inr (m, handled)) (\<lambda>(m, handled).
         bind_fault (if has_event shutdown_mask event \<and> context_active (tracker_context m)
           then bind_fault (shutdown_event m) (\<lambda>m. Inr (set_active False m,
                  handled OR (shutdown_mask OR reannounce_mask OR force_reannounce_mask)))
           else Inr (m, handled)) (\<lambda>(m, handled).
         bind_fault (if context_active (tracker_context m) then
             bind_fault (if has_event force_reannounce_mask event
               then bind_fault (force_reannounce_event m) (\<lambda>m.
                 Inr (m, handled OR (force_reannounce_mask OR reannounce_mask), event AND NOT reannounce_mask))
               else Inr (m, handled, event)) (\<lambda>(m, handled, event).
             if has_event reannounce_mask event
             then bind_fault (reannounce_event m) (\<lambda>m. Inr (m, handled OR reannounce_mask))
             else Inr (m, handled))
           else Inr (m, handled)) (\<lambda>(m, handled).
         let previous = event_set m OR late;
             m = m\<lparr>event_set := previous AND NOT handled\<rparr>
         in Inr (if previous AND NOT handled \<noteq> 0 then m\<lparr>signal_pending := True\<rparr> else m)))))"

definition request_event :: "event_mask \<Rightarrow> tracker_manager \<Rightarrow> tracker_manager" where
  "request_event wanted m = m\<lparr>event_set := event_set m OR wanted, signal_pending := True\<rparr>"

definition update_context :: "nat \<Rightarrow> nat \<Rightarrow> tracker_manager \<Rightarrow> tracker_manager" where
  "update_context dwn upd m =
     m\<lparr>tracker_context := (tracker_context m)\<lparr>downloaded := sz_add (downloaded (tracker_context m)) dwn,
        uploaded := sz_add (uploaded (tracker_context m)) upd,
        left_bytes := sz_sub (left_bytes (tracker_context m)) dwn\<rparr>\<rparr>"

section \<open>The constructor\<close>

definition new_tracker_manager :: "(string \<Rightarrow> string) \<Rightarrow> torrent \<Rightarrow> int \<Rightarrow> fault + tracker_manager" where
  "new_tracker_manager curl_escape torrent listening_port =
     (let m = \<lparr>started_tp = 0, event_set = 0, signal_pending = False, protocol = new_http_handler,
            tracker_context = \<lparr>uploaded = 0, downloaded = 0, left_bytes = 0, context_event = Update, announced_port = 0,
              compact = 1, escaped_info_hash_byte = [], context_active = False\<rparr>,
            tracker_connections = Map.empty, manager_space = [], discoveries = [], consumer_pending = False\<rparr>;
          m = m\<lparr>tracker_context := (tracker_context m)\<lparr>escaped_info_hash_byte :=
                 curl_escape (byte_stringify_hash (info_hash_byte torrent))\<rparr>\<rparr>;
          m = m\<lparr>tracker_context := (tracker_context m)\<lparr>left_bytes := sz_of_int (download_size torrent)\<rparr>\<rparr>
      in bind_fault (get_tracker_urls torrent) (\<lambda>urls.
         bind_fault (initialize_trackers urls m) (\<lambda>m.
           Inr (m\<lparr>tracker_context := (tracker_context m)\<lparr>announced_port := listening_port\<rparr>\<rparr>))))"

end
