(* ===== verification/TrackerProperties.thy ===== *)
theory TrackerProperties
  imports TrackerManager
begin

text \<open>
  What the announces to the trackers satisfy: the requests, the choice of the next address, the
  space of idle trackers and the loops over it, and what an answer leads to.
\<close>

section \<open>Requests\<close>

text \<open>An announce goes to the tracker's current address, followed by the seven parameters of the
  protocol in order, joined by \<open>&\<close> with none left over, then the tracker's id, if it gave one, and the
  event.\<close>

lemma announce_request:
  assumes "tracker_connections m k = Some t" and "current_idx (announce_url t) < length (url_list (announce_url t))"
  shows "\<exists>m'. set_announce_url_for_tracker k event m = Inr m' \<and>
    (let c = tracker_context m in
     map_option (\<lambda>t. url (user_space t)) (tracker_connections m' k) =
       Some (url_list (announce_url t) ! current_idx (announce_url t)
         @ ''?info_hash='' @ escaped_info_hash_byte c @ ''&peer_id=FJ0001-x4Kn8mR2pL9sq''
         @ ''&port='' @ int_to_string (announced_port c) @ ''&uploaded='' @ nat_to_string (uploaded c)
         @ ''&downloaded='' @ nat_to_string (downloaded c) @ ''&left='' @ nat_to_string (left_bytes c)
         @ ''&compact='' @ int_to_string (compact c)
         @ (if tracker_id t = [] then [] else ''&trackerid='' @ tracker_id t) @ event_string event))"
  using assms
  by (simp add: set_announce_url_for_tracker_def tracker_at_def get_url_def set_tracker_def get_request_params_def
      make_param_def client_id_def butlast_append Let_def)

section \<open>The next address\<close>

definition urls :: "tracker \<Rightarrow> string list" where
  "urls t = url_list (announce_url t)"

definition at_url :: "nat \<Rightarrow> tracker \<Rightarrow> tracker" where
  "at_url i t = t\<lparr>announce_url := (announce_url t)\<lparr>current_idx := i\<rparr>,
     current_proto := (if is_http (urls t ! i) then Proto_http else Proto_udp)\<rparr>"

lemma at_url_simps [simp]:
  "urls (at_url i t) = urls t" "current_idx (announce_url (at_url i t)) = i" "at_url j (at_url i t) = at_url j t"
  "failed_idx (announce_url (at_url i t)) = failed_idx (announce_url t)" "seek_fuel (at_url i t) = seek_fuel t"
  by (simp_all add: at_url_def urls_def seek_fuel_def)

lemma seek_next:
  assumes "length (urls t) < 2 ^ 63" and "current_idx (announce_url t) < length (urls t)"
  shows "seek_to_next_url t = Inr (failed_idx (announce_url t) = Suc (current_idx (announce_url t)) mod length (urls t),
    at_url (Suc (current_idx (announce_url t)) mod length (urls t)) t)"
proof -
  let ?i = "current_idx (announce_url t)"
  have i: "sz_add ?i (Suc 0) = Suc ?i" using assms by (simp add: sz_add_id sz_modulus_def)
  show ?thesis
  proof (cases "Suc ?i = length (urls t)")
    case True
    moreover have "url_list (announce_url t) \<noteq> []" using assms(2) by (auto simp: urls_def)
    ultimately show ?thesis using i unfolding seek_to_next_url_def by (simp add: at_url_def urls_def Let_def)
  next
    case False
    then have "Suc ?i < length (urls t)" using assms(2) by simp
    then show ?thesis using i unfolding seek_to_next_url_def by (simp add: at_url_def urls_def Let_def)
  qed
qed

text \<open>Searching from an address finds the first \<open>http\<close> address after it, cyclically.\<close>

lemma seek_http_steps:
  assumes small: "length (urls t) < 2 ^ 63"
  shows "current_idx (announce_url t) < length (urls t) \<Longrightarrow>
    is_http (urls t ! ((current_idx (announce_url t) + Suc n) mod length (urls t))) \<Longrightarrow>
    (\<And>j. j < n \<Longrightarrow> \<not> is_http (urls t ! ((current_idx (announce_url t) + Suc j) mod length (urls t)))) \<Longrightarrow> n < fuel \<Longrightarrow>
    seek_http fuel t = Inr (failed_idx (announce_url t) = (current_idx (announce_url t) + Suc n) mod length (urls t),
      at_url ((current_idx (announce_url t) + Suc n) mod length (urls t)) t)"
  using small
proof (induction n arbitrary: t fuel)
  case 0
  then obtain f where "fuel = Suc f" by (cases fuel) auto
  then show ?case using 0 by (simp add: seek_next at_url_def)
next
  case (Suc n)
  let ?i = "current_idx (announce_url t)" and ?N = "length (urls t)"
  let ?t = "at_url (Suc ?i mod ?N) t"
  obtain f where f: "fuel = Suc f" using Suc.prems(4) by (cases fuel) auto
  have N: "0 < ?N" using Suc.prems(1) by linarith
  have wrap: "(Suc ?i mod ?N + Suc j) mod ?N = (?i + Suc (Suc j)) mod ?N" for j
    using mod_add_left_eq [of "Suc ?i" ?N "Suc j"] by simp
  have "\<not> is_http (urls t ! (Suc ?i mod ?N))" using Suc.prems(3) [of 0] by simp
  then have "current_proto ?t \<noteq> Proto_http" by (simp add: at_url_def)
  then have "seek_http fuel t = seek_http f ?t" using Suc.prems(1,5) f by (simp add: seek_next)
  also have "\<dots> = Inr (failed_idx (announce_url ?t) = (current_idx (announce_url ?t) + Suc n) mod length (urls ?t),
      at_url ((current_idx (announce_url ?t) + Suc n) mod length (urls ?t)) ?t)"
  proof (rule Suc.IH)
    show "current_idx (announce_url ?t) < length (urls ?t)" using N by simp
    show "is_http (urls ?t ! ((current_idx (announce_url ?t) + Suc n) mod length (urls ?t)))"
      using Suc.prems(2) wrap [of n] by simp
    show "\<not> is_http (urls ?t ! ((current_idx (announce_url ?t) + Suc j) mod length (urls ?t)))" if "j < n" for j
      using Suc.prems(3) [of "Suc j"] wrap [of j] that by simp
  qed (use Suc.prems f in simp_all)
  finally show ?case using wrap [of n] by simp
qed

lemma seek_http_finds:
  assumes "length (urls t) < 2 ^ 63" and "current_idx (announce_url t) < length (urls t)" and "\<exists>u\<in>set (urls t). is_http u"
  shows "\<exists>n < length (urls t). let i = (current_idx (announce_url t) + Suc n) mod length (urls t) in
    seek_http (seek_fuel t) t = Inr (failed_idx (announce_url t) = i, at_url i t) \<and> is_http (urls t ! i)
    \<and> (\<forall>j<n. \<not> is_http (urls t ! ((current_idx (announce_url t) + Suc j) mod length (urls t))))"
proof -
  let ?i = "current_idx (announce_url t)" and ?N = "length (urls t)"
  let ?P = "\<lambda>n. is_http (urls t ! ((?i + Suc n) mod ?N))"
  obtain h where h: "h < ?N" "is_http (urls t ! h)" using assms(3) by (auto simp: in_set_conv_nth)
  have "\<exists>n < ?N. (?i + Suc n) mod ?N = h"
  proof (cases "?i < h")
    case True
    then have "h - ?i - 1 < ?N" "(?i + Suc (h - ?i - 1)) mod ?N = h" using h by simp_all
    then show ?thesis by blast
  next
    case False
    then have "?N + h - ?i - 1 < ?N" "?i + Suc (?N + h - ?i - 1) = ?N + h" using h assms(2) by simp_all
    moreover have "(?N + h) mod ?N = h" using h by simp
    ultimately have "?N + h - ?i - 1 < ?N" "(?i + Suc (?N + h - ?i - 1)) mod ?N = h" by (simp_all only:)
    then show ?thesis by blast
  qed
  then obtain n where n: "n < ?N" "?P n" using h by metis
  define l where "l = (LEAST n. ?P n)"
  have l: "?P l" unfolding l_def by (rule LeastI [of ?P n]) (rule n(2))
  have min: "\<not> ?P j" if "j < l" for j using not_less_Least [of j ?P] that unfolding l_def by blast
  have "l \<le> n" unfolding l_def by (rule Least_le [of ?P n]) (rule n(2))
  then have "l < ?N" "l < seek_fuel t" using n(1) by (simp_all add: seek_fuel_def urls_def)
  then show ?thesis using seek_http_steps [OF assms(1,2) l min] l min by (intro exI [of _ l]) (simp add: Let_def)
qed

text \<open>C39: looking for the next \<open>http\<close> address ends whenever the tracker has one: within one turn
  around the list it stops at the first \<open>http\<close> address after the current one, and it reports that
  every address has been tried exactly when that is the one that failed first.\<close>

theorem seek_http_terminates:
  assumes "length (urls t) < 2 ^ 63" and "current_idx (announce_url t) < length (urls t)" and "\<exists>u\<in>set (urls t). is_http u"
  shows "\<exists>n < length (urls t). let i = (current_idx (announce_url t) + Suc n) mod length (urls t) in
    seek_http (seek_fuel t) t = Inr (failed_idx (announce_url t) = i, at_url i t) \<and> is_http (urls t ! i)
    \<and> (\<forall>j<n. \<not> is_http (urls t ! ((current_idx (announce_url t) + Suc j) mod length (urls t))))"
  using assms by (rule seek_http_finds)

section \<open>Failures\<close>

lemma tracker_update [simp]:
  "tracker_connections (set_tracker k t m) = (tracker_connections m)(k \<mapsto> t)"
  "manager_space (set_tracker k t m) = manager_space m" "protocol (set_tracker k t m) = protocol m"
  "tracker_context (set_tracker k t m) = tracker_context m" "discoveries (set_tracker k t m) = discoveries m"
  "consumer_pending (set_tracker k t m) = consumer_pending m"
  "set_tracker k t (set_tracker k t' m) = set_tracker k t m"
  by (simp_all add: set_tracker_def)

lemma tracker_at_set [simp]: "tracker_at k (set_tracker k t m) = Inr t"
  by (simp add: tracker_at_def)

lemma tracker_at_some: "tracker_connections m k = Some t \<Longrightarrow> tracker_at k m = Inr t"
  by (simp add: tracker_at_def)

text \<open>The wait after the given number of rounds in which every address failed.\<close>

definition retry_wait :: "nat \<Rightarrow> int" where
  "retry_wait n = (if n = 0 then 0 else retry_intervals ! (n - 1))"

lemma retry_seconds:
  "url_failures (tracker_ctx t) < 2 ^ 63 \<Longrightarrow> get_retry_seconds t =
     (if url_failures (tracker_ctx t) \<le> 5 then Inr (retry_wait (url_failures (tracker_ctx t))) else Inl Out_of_bounds_access)"
  by (auto simp: get_retry_seconds_def retry_wait_def retry_intervals_def sz_sub_id sz_modulus_def Let_def)


text \<open>An answer that is valid but names no peers loses its tracker: the handler returns before
  it arms the timer and before it hands the tracker back, so the tracker is in no space and no
  timer will ever announce to it again, however often the manager is asked to.\<close>

lemma answer_without_peers_loses_tracker:
  assumes "tracker_connections m k = Some t" and "body (user_space t) \<noteq> []"
    and "decode_input (body (user_space t)) = Some (Data (Dictionary d) pos)"
    and "\<not> ben_contains ''failure reason'' d" and "ben_find ''peers'' d = None"
    and "ben_find ''interval'' d = None" and "ben_find ''min interval'' d = None" and "ben_find ''tracker id'' d = None"
  shows "\<exists>m' t'. do_on_success inet_pton k m = Inr m' \<and> manager_space m' = manager_space m
    \<and> tracker_connections m' k = Some t' \<and> tracker_state t' = Tracker_active
    \<and> maximum (timers t') = maximum (timers t) \<and> minimum (timers t') = minimum (timers t)"
  using assms by (simp add: do_on_success_def tracker_at_some active_state_handler_def response_fields_def response_peers_def Let_def)

section \<open>The peers of an answer\<close>

definition v4_contact :: "byte list \<times> 16 word \<Rightarrow> peer_contact" where
  "v4_contact e = \<lparr>n_addr = fst e @ replicate 12 0, n_port = snd e, is_v6 = False, peer_id = None\<rparr>"

definition compact_form :: "(byte list \<times> 16 word) list \<Rightarrow> byte list" where
  "compact_form es = concat (map (\<lambda>e. fst e @ [ucast (snd e), ucast (drop_bit 8 (snd e))]) es)"

lemma compact_length: "\<forall>e\<in>set es. length (fst e) = 4 \<Longrightarrow> length (compact_form es) = 6 * length es"
  by (induction es) (simp_all add: compact_form_def)

lemma port_roundtrip: "port_of_bytes [ucast p, ucast (drop_bit 8 p)] = (p :: 16 word)"
proof (rule bit_word_eqI)
  fix n assume "n < LENGTH(16)"
  then show "bit (port_of_bytes [ucast p, ucast (drop_bit 8 p)]) n \<longleftrightarrow> bit p n"
    by (auto simp: port_of_bytes_def bit_simps)
qed

lemma compact_cons: "length a = 4 \<Longrightarrow> compact_peers (a @ ucast p # ucast (drop_bit 8 p) # bytes) notify m =
   (let (pushed, m) = discoveries_push (v4_contact (a, p)) m in compact_peers bytes (notify \<or> pushed) m)"
proof -
  assume "length a = 4"
  then obtain w x y z where a: "a = [w, x, y, z]" by (auto simp: numeral_eq_Suc length_Suc_conv)
  have c: "new_contact\<lparr>is_v6 := False, n_addr := write_at 0 [w, x, y, z] (n_addr new_contact),
      n_port := port_of_bytes [ucast p, ucast (drop_bit 8 p)]\<rparr> = v4_contact (a, p)"
    by (simp add: new_contact_def v4_contact_def write_at_def a port_roundtrip)
  have n: "(if q \<and> \<not> notify then True else notify) = (notify \<or> q)" for q by auto
  show ?thesis unfolding a append.simps compact_peers.simps c n [abs_def] Let_def [of "v4_contact _"] by (simp add: a)
qed

lemma compact_peers_result:
  "\<forall>e\<in>set es. length (fst e) = 4 \<Longrightarrow> length (discoveries m) \<le> discoveries_capacity \<Longrightarrow> compact_peers (compact_form es) notify m =
     (notify \<or> es \<noteq> [] \<and> length (discoveries m) < discoveries_capacity,
      m\<lparr>discoveries := discoveries m @ take (discoveries_capacity - length (discoveries m)) (map v4_contact es)\<rparr>)"
proof (induction es arbitrary: notify m)
  case Nil
  then show ?case by (simp add: compact_form_def)
next
  case (Cons e es)
  have c: "compact_form (e # es) = fst e @ ucast (snd e) # ucast (drop_bit 8 (snd e)) # compact_form es"
    by (simp add: compact_form_def)
  have "length (fst e) = 4" using Cons.prems(1) by simp
  from compact_cons [OF this, of "snd e" "compact_form es" notify m]
  have eq: "compact_peers (compact_form (e # es)) notify m =
     (let (pushed, m) = discoveries_push (v4_contact e) m in compact_peers (compact_form es) (notify \<or> pushed) m)"
    unfolding c by simp
  show ?case
  proof (cases "length (discoveries m) < discoveries_capacity")
    case True
    let ?m = "m\<lparr>discoveries := discoveries m @ [v4_contact e]\<rparr>"
    obtain r where r: "discoveries_capacity - length (discoveries m) = Suc r" using True by (metis zero_less_diff gr0_implies_Suc)
    then have "discoveries_capacity - Suc (length (discoveries m)) = r" by simp
    then show ?thesis using Cons.IH [of ?m "notify \<or> True"] Cons.prems True r by (simp add: eq discoveries_push_def)
  next
    case False
    then show ?thesis using Cons.IH [of m notify] Cons.prems by (simp add: eq discoveries_push_def)
  qed
qed

text \<open>The compact list of an answer is queued in order, up to the room there is in the queue.\<close>

lemma compact_answer:
  assumes "ben_find ''peers'' parse = Some (Data (String s) pos)" and "as_bytes s = compact_form es" and "es \<noteq> []"
    and "\<forall>e\<in>set es. length (fst e) = 4" and "length (discoveries m) \<le> 100"
  shows "response_peers inet_pton parse m = Inr (True, m\<lparr>
    discoveries := discoveries m @ take (100 - length (discoveries m)) (map v4_contact es),
    consumer_pending := consumer_pending m \<or> length (discoveries m) < 100\<rparr>)"
proof -
  have "compact_form es \<noteq> []" "length (compact_form es) mod 6 = 0" using compact_length [OF assms(4)] assms(3) by auto
  moreover have "compact_peers (compact_form es) False m = (length (discoveries m) < 100,
      m\<lparr>discoveries := discoveries m @ take (100 - length (discoveries m)) (map v4_contact es)\<rparr>)"
    using compact_peers_result [OF assms(4), of m False] assms(3,5) by (simp add: discoveries_capacity_def)
  ultimately show ?thesis using assms(1,2) by (simp add: response_peers_def Let_def)
qed

section \<open>The space of idle trackers\<close>

text \<open>Taking an element out by moving the last one into its place.\<close>

lemma swap_remove:
  assumes "distinct xs" and "p < length xs"
  shows "distinct (butlast (xs[p := last xs]))" "set (butlast (xs[p := last xs])) = set xs - {xs ! p}"
    "i < length xs - 1 \<Longrightarrow> butlast (xs[p := last xs]) ! i = (if i = p then last xs else xs ! i)"
proof -
  obtain ys z where xs: "xs = ys @ [z]" using assms(2) by (cases xs rule: rev_cases) auto
  have z: "distinct ys" "z \<notin> set ys" using assms(1) xs by simp_all
  show "distinct (butlast (xs[p := last xs]))" "set (butlast (xs[p := last xs])) = set xs - {xs ! p}"
  proof (atomize (full), cases "p = length ys")
    case True
    then show "distinct (butlast (xs[p := last xs])) \<and> set (butlast (xs[p := last xs])) = set xs - {xs ! p}"
      using z by (auto simp: xs list_update_append)
  next
    case False
    then have p: "p < length ys" using assms(2) xs by simp
    then have "set (ys[p := z]) = insert z (set ys - {ys ! p})" using z(1) by (simp add: set_update_distinct)
    then show "distinct (butlast (xs[p := last xs])) \<and> set (butlast (xs[p := last xs])) = set xs - {xs ! p}"
      using z p by (auto simp: xs list_update_append nth_append distinct_list_update)
  qed
  show "butlast (xs[p := last xs]) ! i = (if i = p then last xs else xs ! i)" if "i < length xs - 1"
    using that assms(2) by (auto simp: xs list_update_append nth_append nth_list_update)
qed

definition space_inv :: "tracker_manager \<Rightarrow> bool" where
  "space_inv m \<longleftrightarrow> distinct (manager_space m) \<and> (\<forall>i < length (manager_space m).
     \<exists>t. tracker_connections m (manager_space m ! i) = Some t \<and> manager_space_idx (tracker_ctx t) = i)"

definition taken :: "string \<Rightarrow> tracker_manager \<Rightarrow> tracker_manager \<Rightarrow> bool" where
  "taken k m m' \<longleftrightarrow> (\<exists>p < length (manager_space m). manager_space m ! p = k
     \<and> manager_space m' = butlast ((manager_space m)[p := last (manager_space m)]))"

text \<open>What a tracker is, apart from its place in the space.\<close>

definition view :: "tracker \<Rightarrow> tracker" where
  "view t = t\<lparr>tracker_ctx := (tracker_ctx t)\<lparr>manager_space_idx := 0\<rparr>\<rparr>"

definition views :: "tracker_manager \<Rightarrow> string \<rightharpoonup> tracker" where
  "views m k = map_option view (tracker_connections m k)"

lemma send_to_protocol_space_inv:
  assumes inv: "space_inv m" and k: "k \<in> set (manager_space m)"
  shows "\<exists>m'. send_to_protocol_space k m = Inr m' \<and> space_inv m' \<and> taken k m m' \<and> views m' = views m
    \<and> protocol m' = protocol m \<and> tracker_context m' = tracker_context m"
proof -
  let ?xs = "manager_space m"
  obtain p where p: "p < length ?xs" "?xs ! p = k" using k by (auto simp: in_set_conv_nth)
  have ne: "?xs \<noteq> []" using k by auto
  obtain t where t: "tracker_connections m k = Some t" "manager_space_idx (tracker_ctx t) = p"
    using inv p by (auto simp: space_inv_def)
  let ?l = "last ?xs"
  have l: "?l = ?xs ! (length ?xs - 1)" using ne by (rule last_conv_nth)
  have "length ?xs - 1 < length ?xs" using ne by simp
  then obtain u where u: "tracker_connections m ?l = Some u"
    using inv unfolding space_inv_def l by blast
  let ?u = "u\<lparr>tracker_ctx := (tracker_ctx u)\<lparr>manager_space_idx := p\<rparr>\<rparr>"
  let ?m = "(set_tracker ?l ?u m)\<lparr>manager_space := butlast (?xs[p := ?l])\<rparr>"
  have eq: "send_to_protocol_space k m = Inr ?m"
    using ne t u p by (simp add: send_to_protocol_space_def tracker_at_some update_tracker_def Let_def)
  have d: "distinct ?xs" using inv by (simp add: space_inv_def)
  note swap = swap_remove [OF d p(1)]
  have "\<exists>v. tracker_connections ?m (manager_space ?m ! i) = Some v \<and> manager_space_idx (tracker_ctx v) = i"
    if "i < length (manager_space ?m)" for i
  proof -
    have i: "i < length ?xs - 1" using that by simp
    show ?thesis
    proof (cases "i = p")
      case True
      then show ?thesis using swap(3) [OF i] by simp
    next
      case False
      moreover have "?xs ! i \<noteq> ?l" using d i l by (simp add: nth_eq_iff_index_eq)
      moreover have "i < length ?xs" using i by simp
      then obtain v where "tracker_connections m (?xs ! i) = Some v" "manager_space_idx (tracker_ctx v) = i"
        using inv unfolding space_inv_def by blast
      ultimately show ?thesis using swap(3) [OF i] by simp
    qed
  qed
  then have "space_inv ?m" using swap(1) unfolding space_inv_def by simp
  moreover have "taken k m ?m" using p by (auto simp: taken_def)
  moreover have "views ?m = views m" using u by (auto simp: views_def view_def fun_eq_iff)
  ultimately show ?thesis using eq by simp
qed

text \<open>A loop over the space whose body takes the selected trackers out, and requests an announce from some.\<close>

locale space_loop =
  fixes handler :: "string \<Rightarrow> tracker_manager \<Rightarrow> fault + tracker_manager"
    and good :: "tracker_manager \<Rightarrow> bool"
    and selected requested :: "tracker_manager \<Rightarrow> string \<Rightarrow> bool"
  assumes good_space: "good m \<Longrightarrow> space_inv m"
    and step: "good m \<Longrightarrow> k \<in> set (manager_space m) \<Longrightarrow> \<exists>m'. handler k m = Inr m' \<and> good m'
      \<and> (if selected m k then taken k m m' else manager_space m' = manager_space m)
      \<and> set (multi (protocol m')) = set (multi (protocol m)) \<union> (if requested m k then {k} else {})
      \<and> (\<forall>j. j \<noteq> k \<longrightarrow> selected m' j = selected m j \<and> requested m' j = requested m j)"
begin

lemma over_rest:
  "good m \<Longrightarrow> distinct cells \<Longrightarrow> i + n = length cells \<Longrightarrow> length storage = length cells \<Longrightarrow>
   (\<And>j. i \<le> j \<Longrightarrow> j < length cells \<Longrightarrow> storage ! j = cells ! j) \<Longrightarrow>
   (\<And>j. j < length (manager_space m) \<Longrightarrow> storage ! j = manager_space m ! j) \<Longrightarrow> length (manager_space m) \<le> length cells \<Longrightarrow>
   set (manager_space m) = {k \<in> set (take i cells). \<not> sel k} \<union> set (drop i cells) \<Longrightarrow>
   (\<And>k. k \<in> set (drop i cells) \<Longrightarrow> selected m k = sel k \<and> requested m k = req k) \<Longrightarrow>
   \<exists>m'. over_space handler storage i n m = Inr m' \<and> good m' \<and> set (manager_space m') = {k \<in> set cells. \<not> sel k}
     \<and> set (multi (protocol m')) = set (multi (protocol m)) \<union> {k \<in> set (drop i cells). req k}"
proof (induction n arbitrary: i storage m)
  case 0
  then show ?case by simp
next
  case (Suc n)
  let ?xs = "manager_space m"
  let ?k = "cells ! i"
  have i: "i < length cells" using Suc.prems(3) by simp
  have drop_i: "drop i cells = ?k # drop (Suc i) cells" "take (Suc i) cells = take i cells @ [?k]"
    using i by (simp_all add: Cons_nth_drop_Suc take_Suc_conv_app_nth)
  have k: "storage ! i = ?k" "?k \<in> set ?xs" using Suc.prems(5,8) i drop_i(1) by auto
  have fresh: "?k \<notin> set (drop (Suc i) cells)" "?k \<notin> set (take i cells)"
    using Suc.prems(2) i by (metis append_take_drop_id distinct_append distinct.simps(2) drop_i(1),
      metis append_take_drop_id disjoint_iff distinct_append drop_i(1) list.set_intros(1))
  obtain m1 where m1: "handler ?k m = Inr m1" "good m1"
    "if selected m ?k then taken ?k m m1 else manager_space m1 = ?xs"
    "set (multi (protocol m1)) = set (multi (protocol m)) \<union> (if requested m ?k then {?k} else {})"
    "\<And>j. j \<noteq> ?k \<Longrightarrow> selected m1 j = selected m j \<and> requested m1 j = requested m j"
    using step [OF Suc.prems(1) k(2)] by blast
  have sel_k: "selected m ?k = sel ?k" "requested m ?k = req ?k" using Suc.prems(9) drop_i(1) by auto
  let ?ys = "manager_space m1"
  let ?storage = "?ys @ drop (length ?ys) storage"
  have d: "distinct ?xs" using good_space [OF Suc.prems(1)] by (simp add: space_inv_def)
  have ys: "length ?ys \<le> length ?xs \<and> set ?ys = (if sel ?k then set ?xs - {?k} else set ?xs)
      \<and> (\<forall>j > i. j < length ?ys \<longrightarrow> ?ys ! j = ?xs ! j)"
  proof (cases "sel ?k")
    case True
    then obtain p where p: "p < length ?xs" "?xs ! p = ?k" "?ys = butlast (?xs[p := last ?xs])"
      using m1(3) sel_k(1) by (auto simp: taken_def)
    have "p \<le> i"
    proof (rule ccontr)
      assume "\<not> p \<le> i"
      then have "cells ! p = ?k" using Suc.prems(5) [of p] Suc.prems(6) [OF p(1)] Suc.prems(7) p(1,2) by simp
      then show False using \<open>\<not> p \<le> i\<close> Suc.prems(2,7) i p(1) by (simp add: nth_eq_iff_index_eq)
    qed
    then show ?thesis using swap_remove(2,3) [OF d p(1)] p True by auto
  next
    case False
    then show ?thesis using m1(3) sel_k(1) by simp
  qed
  have "\<exists>m'. over_space handler ?storage (Suc i) n m1 = Inr m' \<and> good m' \<and> set (manager_space m') = {k \<in> set cells. \<not> sel k}
     \<and> set (multi (protocol m')) = set (multi (protocol m1)) \<union> {k \<in> set (drop (Suc i) cells). req k}"
  proof (rule Suc.IH [OF m1(2) Suc.prems(2)])
    show "length ?storage = length cells" using ys Suc.prems(4,7) by simp
    show "?storage ! j = cells ! j" if "Suc i \<le> j" "j < length cells" for j
    proof (cases "j < length ?ys")
      case True
      then have "?ys ! j = ?xs ! j" "j < length ?xs" using ys that(1) by auto
      then show ?thesis using True Suc.prems(5) [of j] Suc.prems(6) [of j] that by (simp add: nth_append)
    next
      case False
      then show ?thesis using Suc.prems(4) Suc.prems(5) [of j] that by (simp add: nth_append)
    qed
    show "?storage ! j = ?ys ! j" if "j < length ?ys" for j using that by (simp add: nth_append)
    show "length ?ys \<le> length cells" using ys Suc.prems(7) by simp
    show "set ?ys = {k \<in> set (take (Suc i) cells). \<not> sel k} \<union> set (drop (Suc i) cells)"
      using ys Suc.prems(8) fresh unfolding drop_i by (auto split: if_splits)
    show "selected m1 k = sel k \<and> requested m1 k = req k" if "k \<in> set (drop (Suc i) cells)" for k
      using m1(5) [of k] Suc.prems(9) [of k] that fresh drop_i(1) by auto
  qed (use Suc.prems(3) in simp)
  then obtain m' where "over_space handler ?storage (Suc i) n m1 = Inr m'" "good m'" "set (manager_space m') = {k \<in> set cells. \<not> sel k}"
    "set (multi (protocol m')) = set (multi (protocol m1)) \<union> {k \<in> set (drop (Suc i) cells). req k}" by blast
  moreover have "{k \<in> set (drop i cells). req k} = (if req ?k then {?k} else {}) \<union> {k \<in> set (drop (Suc i) cells). req k}"
    unfolding drop_i(1) by auto
  ultimately show ?case using m1(1,4) sel_k(2) k(1) by auto
qed

lemma visits_each_once:
  assumes "good m"
  shows "\<exists>m'. for_each_tracker handler m = Inr m' \<and> good m'
    \<and> set (manager_space m') = {k \<in> set (manager_space m). \<not> selected m k}
    \<and> set (multi (protocol m')) = set (multi (protocol m)) \<union> {k \<in> set (manager_space m). requested m k}"
proof -
  have "distinct (manager_space m)" using good_space [OF assms] by (simp add: space_inv_def)
  from over_rest [OF assms this, of 0 "length (manager_space m)" "manager_space m" "selected m" "requested m"]
  show ?thesis by (simp add: for_each_tracker_def)
qed

end


text \<open>A manager all of whose idle trackers can be announced to.\<close>

definition ready :: "tracker \<Rightarrow> bool" where
  "ready t \<longleftrightarrow> current_idx (announce_url t) < length (urls t) \<and> current_proto t = Proto_http"

definition ready_space :: "tracker_manager \<Rightarrow> bool" where
  "ready_space m \<longleftrightarrow> space_inv m \<and> (\<forall>k \<in> set (manager_space m). \<exists>v. views m k = Some v \<and> ready v)"

definition seen :: "(tracker \<Rightarrow> bool) \<Rightarrow> tracker_manager \<Rightarrow> string \<Rightarrow> bool" where
  "seen P m k \<longleftrightarrow> (\<exists>v. views m k = Some v \<and> P v)"

lemma view_simps [simp]:
  "urls (view t) = urls t" "announce_url (view t) = announce_url t" "current_proto (view t) = current_proto t"
  "tracker_state (view t) = tracker_state t" "timers (view t) = timers t" "user_space (view t) = user_space t"
  "interruptible (tracker_ctx (view t)) = interruptible (tracker_ctx t)" "tracker_id (view t) = tracker_id t"
  by (simp_all add: view_def urls_def)

lemma ready_view [simp]: "ready (view t) = ready t"
  by (simp add: ready_def)

lemma seen_cong: "views m' k = views m k \<Longrightarrow> seen P m' k = seen P m k"
  by (simp add: seen_def)

lemma ready_tracker: "ready_space m \<Longrightarrow> k \<in> set (manager_space m) \<Longrightarrow> \<exists>t. tracker_connections m k = Some t \<and> ready t"
  by (auto simp: ready_space_def views_def)

text \<open>Writing to a tracker without moving it.\<close>

lemma set_tracker_ready:
  assumes "ready_space m" and "tracker_connections m k = Some t" and "manager_space_idx (tracker_ctx u) = manager_space_idx (tracker_ctx t)"
    and "ready t \<Longrightarrow> ready u"
  shows "ready_space (set_tracker k u m)" and "j \<noteq> k \<Longrightarrow> views (set_tracker k u m) j = views m j"
  using assms by (fastforce simp: ready_space_def space_inv_def views_def)+

lemma taken_set: "taken k m m' \<Longrightarrow> space_inv m \<Longrightarrow> set (manager_space m') = set (manager_space m) - {k}"
  by (auto simp: taken_def space_inv_def swap_remove(2))

lemma send_ready:
  assumes "ready_space m" and "k \<in> set (manager_space m)"
  shows "\<exists>m'. send_to_protocol_space k m = Inr m' \<and> ready_space m' \<and> taken k m m' \<and> views m' = views m
    \<and> protocol m' = protocol m \<and> tracker_context m' = tracker_context m"
proof -
  have inv: "space_inv m" using assms(1) by (simp add: ready_space_def)
  obtain m' where m': "send_to_protocol_space k m = Inr m'" "space_inv m'" "taken k m m'" "views m' = views m"
    "protocol m' = protocol m" "tracker_context m' = tracker_context m"
    using send_to_protocol_space_inv [OF inv assms(2)] by blast
  have "ready_space m'" using assms(1) m'(2,4) taken_set [OF m'(3) inv] by (simp add: ready_space_def)
  with m' show ?thesis by blast
qed

lemma set_announce_ready:
  assumes "ready_space m" and "tracker_connections m k = Some t" and "ready t"
  shows "\<exists>u. set_announce_url_for_tracker k event m = Inr (set_tracker k (t\<lparr>user_space := u\<rparr>) m)"
  using assms(2,3)
  by (auto simp: set_announce_url_for_tracker_def tracker_at_def get_url_def ready_def urls_def Let_def)

lemma add_request_ready:
  assumes "views m k = Some v" and "current_proto v = Proto_http"
  shows "\<exists>p. protocol_add_request k m = Inr (m\<lparr>protocol := p\<rparr>) \<and> set (multi p) = insert k (set (multi (protocol m)))"
proof -
  obtain t where t: "tracker_connections m k = Some t" "current_proto t = Proto_http"
    using assms by (auto simp: views_def)
  then show ?thesis
    by (intro exI [of _ "http_add_request k (user_space t) (protocol m)"])
      (auto simp: protocol_add_request_def tracker_at_def http_add_request_def)
qed

lemma protocol_frame [simp]: "ready_space (m\<lparr>protocol := p\<rparr>) = ready_space m" "views (m\<lparr>protocol := p\<rparr>) = views m"
  by (simp_all add: ready_space_def space_inv_def views_def fun_eq_iff)

lemma announce_ready:
  assumes r: "ready_space m" and k: "k \<in> set (manager_space m)"
  shows "\<exists>m'. announce k event m = Inr m' \<and> ready_space m' \<and> taken k m m'
    \<and> set (multi (protocol m')) = insert k (set (multi (protocol m))) \<and> (\<forall>j. j \<noteq> k \<longrightarrow> views m' j = views m j)"
proof -
  obtain t where t: "tracker_connections m k = Some t" "ready t" using ready_tracker [OF r k] by blast
  obtain u where u: "set_announce_url_for_tracker k event m = Inr (set_tracker k (t\<lparr>user_space := u\<rparr>) m)"
    using set_announce_ready [OF r t] by blast
  let ?m = "set_tracker k (t\<lparr>user_space := u\<rparr>) m"
  have m: "ready_space ?m" "\<And>j. j \<noteq> k \<Longrightarrow> views ?m j = views m j"
    using set_tracker_ready [OF r t(1), of "t\<lparr>user_space := u\<rparr>"] by (simp_all add: ready_def urls_def)
  obtain m2 where m2: "send_to_protocol_space k ?m = Inr m2" "ready_space m2" "taken k ?m m2" "views m2 = views ?m"
    "protocol m2 = protocol ?m"
    using send_ready [OF m(1), of k] k by auto
  have "views m2 k = Some (view (t\<lparr>user_space := u\<rparr>))" using m2(4) by (simp add: views_def)
  moreover have "current_proto (view (t\<lparr>user_space := u\<rparr>)) = Proto_http" using t(2) by (simp add: ready_def)
  ultimately obtain p where p: "protocol_add_request k m2 = Inr (m2\<lparr>protocol := p\<rparr>)"
    "set (multi p) = insert k (set (multi (protocol m2)))"
    using add_request_ready by blast
  have "taken k m (m2\<lparr>protocol := p\<rparr>)" using m2(3) by (simp add: taken_def)
  then show ?thesis using u m2 p m(2) by (intro exI [of _ "m2\<lparr>protocol := p\<rparr>"]) (simp add: announce_def)
qed

definition wants_reannounce :: "tracker \<Rightarrow> bool" where
  "wants_reannounce t \<longleftrightarrow> timers_type (timers t) = Timer_two \<and> interruptible (tracker_ctx t) \<and> tracker_state t = Tracker_active"

definition is_active :: "tracker \<Rightarrow> bool" where
  "is_active t \<longleftrightarrow> tracker_state t = Tracker_active"

lemma seen_some: "tracker_connections m k = Some t \<Longrightarrow> (\<And>t. P (view t) = P t) \<Longrightarrow> seen P m k = P t"
  by (simp add: seen_def views_def)

text \<open>The handlers of the loops that announce: some trackers are left alone, the others announced to.\<close>

lemma announcing_step:
  assumes h: "\<And>k m. handler k m = bind_fault (tracker_at k m) (\<lambda>t.
      if P t then announce k (context_event (tracker_context m)) (set_tracker k (f t) m) else Inr m)"
    and f: "\<And>t. tracker_ctx (f t) = tracker_ctx t" "\<And>t. ready (f t) = ready t" and P: "\<And>t. P (view t) = P t"
    and r: "ready_space m" and k: "k \<in> set (manager_space m)"
  shows "\<exists>m'. handler k m = Inr m' \<and> ready_space m' \<and> (if seen P m k then taken k m m' else manager_space m' = manager_space m)
      \<and> set (multi (protocol m')) = set (multi (protocol m)) \<union> (if seen P m k then {k} else {})
      \<and> (\<forall>j. j \<noteq> k \<longrightarrow> seen P m' j = seen P m j \<and> seen P m' j = seen P m j)"
proof -
  obtain t where t: "tracker_connections m k = Some t" "ready t" using ready_tracker [OF r k] by blast
  have seen: "seen P m k = P t" by (rule seen_some [where t = t and P = P]) (use t(1) P in simp_all)
  show ?thesis
  proof (cases "P t")
    case False
    then have "handler k m = Inr m" using h t by (simp add: tracker_at_some)
    then show ?thesis using False seen r by simp
  next
    case True
    let ?m = "set_tracker k (f t) m"
    have m: "ready_space ?m" "\<And>j. j \<noteq> k \<Longrightarrow> views ?m j = views m j"
      using set_tracker_ready [OF r t(1), of "f t"] f by simp_all
    obtain m' where m': "announce k (context_event (tracker_context m)) ?m = Inr m'" "ready_space m'" "taken k ?m m'"
      "set (multi (protocol m')) = insert k (set (multi (protocol ?m)))" "\<forall>j. j \<noteq> k \<longrightarrow> views m' j = views ?m j"
      using announce_ready [OF m(1), of k "context_event (tracker_context m)"] k by auto
    have "taken k m m'" using m'(3) by (simp add: taken_def)
    moreover have "seen P m' j = seen P m j" if "j \<noteq> k" for j
      using that m(2) m'(5) by (intro seen_cong) simp
    ultimately show ?thesis using h t True m' seen by (simp add: tracker_at_some)
  qed
qed

interpretation forced: space_loop force_reannounce_tracker ready_space "seen is_active" "seen is_active"
proof (unfold_locales, goal_cases)
  case (1 m)
  then show ?case by (simp add: ready_space_def)
next
  case (2 m k)
  show ?case
    by (rule announcing_step [where f = "\<lambda>t. disarm_maximum (disarm_minimum t)"])
      (use 2 in \<open>simp_all add: force_reannounce_tracker_def is_active_def disarm_maximum_def disarm_minimum_def ready_def urls_def\<close>)
qed

interpretation renewed: space_loop reannounce_tracker ready_space "seen wants_reannounce" "seen wants_reannounce"
proof (unfold_locales, goal_cases)
  case (1 m)
  then show ?case by (simp add: ready_space_def)
next
  case (2 m k)
  show ?case
    by (rule announcing_step [where f = disarm_maximum])
      (use 2 in \<open>simp_all add: reannounce_tracker_def wants_reannounce_def disarm_maximum_def ready_def urls_def\<close>)
qed

text \<open>C24: both kinds of announce on request reach every idle tracker they are for, once each, although
  the loop's body takes trackers out of the vector that is being iterated: afterwards those
  trackers have left the space, their requests are with \<open>libcurl\<close>, and every other tracker is
  where it was.  A plain announce leaves alone the trackers whose minimum interval has not passed.\<close>

theorem reannounce_reaches_every_tracker:
  assumes "ready_space m"
  shows "(\<exists>m'. force_reannounce_event m = Inr m'
      \<and> set (manager_space m') = {k \<in> set (manager_space m). \<not> seen is_active m k}
      \<and> set (multi (protocol m')) = set (multi (protocol m)) \<union> {k \<in> set (manager_space m). seen is_active m k})
    \<and> (\<exists>m'. reannounce_event m = Inr m'
      \<and> set (manager_space m') = {k \<in> set (manager_space m). \<not> seen wants_reannounce m k}
      \<and> set (multi (protocol m')) = set (multi (protocol m)) \<union> {k \<in> set (manager_space m). seen wants_reannounce m k})"
  using forced.visits_each_once [OF assms] renewed.visits_each_once [OF assms]
  unfolding force_reannounce_event_def reannounce_event_def by blast

section \<open>What can go wrong\<close>

text \<open>An answer that is not bencoded destroys its tracker while the loop over \<open>libcurl\<close>'s
  messages still holds a pointer to it: the next statement writes through the dangling pointer.\<close>

lemma unreadable_answer_dangles:
  assumes "tracker_connections m k = Some t" and "domain_name (announce_url t) = k" and "body (user_space t) \<noteq> []"
    and "decode_input (body (user_space t)) = None" and "done_message msg" and "easy_handle msg = k"
    and "result_ok msg" and "http_res_code msg = 200"
  shows "tracker_messages inet_pton (msg # msgs) m = Inl Dangling_reference"
  using assms
  by (simp add: tracker_messages_def do_on_success_def tracker_at_some update_tracker_def Let_def) (simp add: tracker_at_def)

text \<open>A request that the manager is not in the state for is neither served nor dropped: the handler
  leaves it in the set and signals itself again, so that the event loop spins on it.\<close>

lemma unserved_event_signals_again:
  assumes "if context_active (tracker_context m) then event_set m = start_mask
     else event_set m \<in> {reannounce_mask, force_reannounce_mask, shutdown_mask}"
  shows "handle_event order now 0 m = Inr (m\<lparr>signal_pending := True\<rparr>)"
  using assms
  by (cases m) (auto simp: handle_event_def has_event_def start_mask_def reannounce_mask_def force_reannounce_mask_def
      shutdown_mask_def Let_def split: if_splits)

text \<open>A tracker that is idle without an answer stays inactive at a shutdown, and the next start asserts.\<close>

lemma restart_asserts:
  assumes "manager_space m = [k]" and "tracker_connections m k = Some t" and "tracker_state t = Tracker_inactive"
    and "manager_space_idx (tracker_ctx t) = 0" and "has_http (tracker_ctx t)" and "current_proto t = Proto_http"
  shows "\<exists>m'. shutdown_event m = Inr m' \<and> start_event [k] now m' = Inl Assertion_failed"
  using assms
  by (simp add: shutdown_event_def for_each_tracker_def numeral_eq_Suc shutdown_tracker_def update_tracker_def tracker_at_some
      send_to_protocol_space_def start_event_def start_tracker_def disarm_maximum_def Let_def)

section \<open>Examples\<close>

text \<open>A manager of two trackers: one with a \<open>udp\<close> and an \<open>http\<close> address, and one with a minimum interval.\<close>

definition example_tracker :: tracker where
  "example_tracker = \<lparr>user_space = \<lparr>url = [], body = ''d8:intervali60ee'', body_size = 16\<rparr>, tracker_id = ''id'',
     tracker_state = Tracker_active, current_proto = Proto_http,
     tracker_ctx = new_tracker_context\<lparr>has_http := True\<rparr>, timers = new_timers,
     announce_url = \<lparr>url_list = [''http://t/a'', ''udp://t/a''], domain_name = ''t'', current_idx = 0, failed_idx = 0,
       just_failed = False\<rparr>\<rparr>"

definition example_slow_tracker :: tracker where
  "example_slow_tracker = example_tracker\<lparr>user_space := new_network_data\<lparr>body := ''x''\<rparr>,
     tracker_ctx := \<lparr>online = True, interruptible = True, has_http = True, url_failures = 0, manager_space_idx = 1\<rparr>,
     timers := new_timers\<lparr>timers_type := Timer_two\<rparr>,
     announce_url := new_announce_list\<lparr>url_list := [''http://u/a''], domain_name := ''u''\<rparr>\<rparr>"

definition example_trackers :: tracker_manager where
  "example_trackers = \<lparr>started_tp = 0, event_set = start_mask, signal_pending = False, protocol = new_http_handler,
     tracker_context = \<lparr>uploaded = 0, downloaded = 5, left_bytes = 10, context_event = Update, announced_port = 6881,
       compact = 1, escaped_info_hash_byte = ''%12'', context_active = True\<rparr>,
     tracker_connections = [''t'' \<mapsto> example_tracker, ''u'' \<mapsto> example_slow_tracker],
     manager_space = [''t'', ''u''], discoveries = [], consumer_pending = False\<rparr>"

lemmas example_defs = example_trackers_def example_tracker_def example_slow_tracker_def new_tracker_context_def new_timers_def
  new_announce_list_def new_network_data_def

lemma example_simps:
  "tracker_connections example_trackers ''t'' = Some example_tracker" "manager_space example_trackers = [''t'', ''u'']"
  "context_active (tracker_context example_trackers)" "urls example_tracker = [''http://t/a'', ''udp://t/a'']"
  "announce_url example_tracker = \<lparr>url_list = [''http://t/a'', ''udp://t/a''], domain_name = ''t'', current_idx = 0,
     failed_idx = 0, just_failed = False\<rparr>" "url_failures (tracker_ctx example_tracker) = 0" "tracker_id example_tracker = ''id''"
  by (simp_all add: example_defs urls_def)

theorem seek_http_terminates_witness:
  "\<exists>n < 2. let i = Suc n mod 2 in
    seek_http (seek_fuel example_tracker) example_tracker = Inr (0 = i, at_url i example_tracker) \<and> is_http (urls example_tracker ! i)
    \<and> (\<forall>j<n. \<not> is_http (urls example_tracker ! (Suc j mod 2)))"
proof -
  have f: "length (urls example_tracker) = 2" "current_idx (announce_url example_tracker) = 0"
    "failed_idx (announce_url example_tracker) = 0" "\<exists>u\<in>set (urls example_tracker). is_http u"
    by (simp_all add: example_simps is_http_def)
  show ?thesis using seek_http_terminates [of example_tracker, unfolded f(1,2,3)] f(4) by simp
qed


theorem reannounce_reaches_every_tracker_witness:
  "(\<exists>m'. force_reannounce_event example_trackers = Inr m' \<and> set (manager_space m') = {}
      \<and> set (multi (protocol m')) = {''t'', ''u''})
   \<and> (\<exists>m'. reannounce_event example_trackers = Inr m' \<and> set (manager_space m') = {''t''}
      \<and> set (multi (protocol m')) = {''u''})"
proof -
  have r: "ready_space example_trackers"
    by (auto simp: ready_space_def space_inv_def views_def ready_def urls_def example_defs less_Suc_eq numeral_eq_Suc)
  have s: "{k \<in> set (manager_space example_trackers). \<not> seen is_active example_trackers k} = {}"
    "{k \<in> set (manager_space example_trackers). seen is_active example_trackers k} = {''t'', ''u''}"
    "{k \<in> set (manager_space example_trackers). \<not> seen wants_reannounce example_trackers k} = {''t''}"
    "{k \<in> set (manager_space example_trackers). seen wants_reannounce example_trackers k} = {''u''}"
    by (auto simp: seen_def views_def view_def is_active_def wants_reannounce_def example_defs)
  have p: "multi (protocol example_trackers) = []" by (simp add: example_defs new_http_handler_def)
  show ?thesis using reannounce_reaches_every_tracker [OF r] unfolding s p by simp
qed

end
