(* ===== verification/Discovery.thy ===== *)
theory Discovery
  imports TrackerProperties ManagerBehaviour
begin

text \<open>
  The way of an address from a tracker to the connection manager: an answer is taken apart in the
  thread of the trackers, its addresses go through the queue that the two threads share, and the
  connection manager takes them over into its cache.  The queue is the list that its own theory
  shows it to be; the producer's end is \<open>discoveries\<close>, the consumer's \<open>discovered\<close>.
\<close>

section \<open>Taking over\<close>

lemma drain_loop_cache:
  "discovery_cache (drain_loop addrs s) = fold push addrs (discovery_cache s)"
  "discovered (drain_loop addrs s) = (if addrs = [] then discovered s else [])"
  "connection_pool (drain_loop addrs s) = connection_pool s"
  by (induction addrs arbitrary: s) simp_all

lemma drain_cache:
  assumes "cache_valid (discovery_cache s)"
  shows "discovered (drain_discovered s) = []"
    and "elements (discovery_cache (drain_discovered s)) =
      (let known = elements (discovery_cache s) @ discovered s in drop (length known - length (cache (discovery_cache s))) known)"
  using cache.push_all [OF assms, of "discovered s"]
  by (simp_all add: drain_discovered_def drain_loop_cache send_notification_def Let_def)

section \<open>Well-formed contacts\<close>

text \<open>What \<open>inet_pton\<close> documents: four bytes for an address of the first family, sixteen for one of the second.\<close>

definition inet_pton_ok :: "(int \<Rightarrow> string \<Rightarrow> byte list option) \<Rightarrow> bool" where
  "inet_pton_ok inet_pton \<longleftrightarrow> (\<forall>text bytes. inet_pton AF_INET text = Some bytes \<longrightarrow> length bytes = 4)
     \<and> (\<forall>text bytes. inet_pton AF_INET6 text = Some bytes \<longrightarrow> length bytes = 16)"

text \<open>
  What taking an answer apart does to the queue: it grows at its end by well-formed contacts, within
  its capacity, and the consumer is to be notified if it has grown.
\<close>

definition pushes :: "bool \<Rightarrow> tracker_manager \<Rightarrow> bool \<times> tracker_manager \<Rightarrow> bool" where
  "pushes notify m r \<longleftrightarrow> (\<exists>cs. snd r = m\<lparr>discoveries := discoveries m @ cs\<rparr> \<and> (\<forall>c\<in>set cs. contact_ok c)
     \<and> (cs = [] \<or> length (discoveries m @ cs) \<le> discoveries_capacity) \<and> (fst r \<longleftrightarrow> notify \<or> cs \<noteq> []))"

lemma pushes_none: "pushes notify m (notify, m)"
  by (cases m) (auto simp: pushes_def intro!: exI [of _ "[]"])

lemma pushes_one:
  assumes "contact_ok c" and "discoveries_push c m = (pushed, m1)" and "pushes (if pushed \<and> \<not> notify then True else notify) m1 r"
  shows "pushes notify m r"
proof (cases "length (discoveries m) < discoveries_capacity")
  case True
  then have m1: "pushed" "m1 = m\<lparr>discoveries := discoveries m @ [c]\<rparr>" using assms(2) by (simp_all add: discoveries_push_def)
  then obtain cs where "snd r = m1\<lparr>discoveries := discoveries m1 @ cs\<rparr>" "\<forall>c\<in>set cs. contact_ok c"
    "cs = [] \<or> length (discoveries m1 @ cs) \<le> discoveries_capacity" "fst r" using assms(3) by (cases notify) (auto simp: pushes_def)
  then show ?thesis unfolding pushes_def using m1 assms(1) True by (intro exI [of _ "c # cs"]) auto
next
  case False
  then have "\<not> pushed" "m1 = m" using assms(2) by (simp_all add: discoveries_push_def)
  then show ?thesis using assms(3) by simp
qed

lemma compact_peers_pushes: "pushes notify m (compact_peers bytes notify m)"
proof (induction bytes notify m rule: compact_peers.induct)
  case (1 a b c d p q rest notify m)
  let ?e = "new_contact\<lparr>is_v6 := False, n_addr := write_at 0 [a, b, c, d] (n_addr new_contact), n_port := port_of_bytes [p, q]\<rparr>"
  have ok: "contact_ok ?e" by (simp add: contact_ok_def new_contact_def write_at_def)
  obtain pushed m1 where push: "discoveries_push ?e m = (pushed, m1)" by (cases "discoveries_push ?e m")
  from pushes_one [OF ok push 1 [OF refl push [symmetric] refl]]
  show ?case unfolding compact_peers.simps Let_def push prod.case .
qed (simp_all add: pushes_none)

lemma list_peer_ok:
  assumes "inet_pton_ok inet_pton" and "list_peer inet_pton d = Inr (Some c)"
  shows "contact_ok c"
proof -
  have set: "contact_ok (e\<lparr>n_addr := write_at 0 bytes (n_addr new_contact), is_v6 := v, n_port := p\<rparr>)"
    if "contact_ok e" "length bytes \<le> 16" for e bytes v p
    using that by (simp add: contact_ok_def new_contact_def write_at_def)
  have new: "contact_ok new_contact" "length x = 20 \<Longrightarrow> contact_ok (new_contact\<lparr>peer_id := Some (as_bytes x)\<rparr>)" for x
    by (simp_all add: contact_ok_def new_contact_def as_bytes_def)
  have len: "inet_pton AF_INET x = Some bytes \<Longrightarrow> length bytes \<le> 16" "inet_pton AF_INET6 x = Some bytes \<Longrightarrow> length bytes \<le> 16"
    for x bytes using assms(1) by (auto simp: inet_pton_ok_def)
  show ?thesis using assms(2) unfolding list_peer_def Let_def
    by (elim bind_faultE)
      (auto elim!: bind_faultE intro!: set new split: option.split_asm if_split_asm, (erule len)+)
qed

lemma list_peers_pushes:
  "inet_pton_ok inet_pton \<Longrightarrow> list_peers inet_pton ps notify m = Inr r \<Longrightarrow> pushes notify m r"
proof (induction inet_pton ps notify m rule: list_peers.induct)
  case (1 inet_pton notify m)
  then show ?case by (auto simp: pushes_none)
next
  case (2 inet_pton p ps notify m)
  obtain d e where d: "get_as_dictionary p = Inr d" "list_peer inet_pton d = Inr e"
    using "2.prems"(2) by (auto simp: bind_fault_Inr)
  show ?case
  proof (cases e)
    case None
    then show ?thesis using 2 d by simp
  next
    case (Some c)
    obtain pushed m1 where push: "discoveries_push c m = (pushed, m1)" by (cases "discoveries_push c m")
    have "contact_ok c" using list_peer_ok d Some "2.prems"(1) by simp
    from pushes_one [OF this push] show ?thesis using 2 d Some push by (simp add: Let_def)
  qed
qed

definition feeds :: "tracker_manager \<Rightarrow> tracker_manager \<Rightarrow> bool" where
  "feeds m m' \<longleftrightarrow> (\<exists>cs. discoveries m' = discoveries m @ cs \<and> (\<forall>c\<in>set cs. contact_ok c)
     \<and> (cs = [] \<or> length (discoveries m') \<le> discoveries_capacity)
     \<and> (cs \<noteq> [] \<or> consumer_pending m \<longrightarrow> consumer_pending m'))"

lemma response_peers_pushes:
  assumes "inet_pton_ok inet_pton" and "response_peers inet_pton parse m = Inr (goes_on, m')"
  obtains goes notify n where "m' = (if goes \<and> notify then n\<lparr>consumer_pending := True\<rparr> else n)"
    "goes \<and> pushes False m (notify, n) \<or> n = m \<and> \<not> notify"
proof (cases "ben_find ''peers'' parse")
  case None
  then show ?thesis using assms(2) that [of False False m] by (simp add: response_peers_def)
next
  case (Some v)
  then obtain goes notify n where "m' = (if goes \<and> notify then n\<lparr>consumer_pending := True\<rparr> else n)"
      "goes \<and> pushes False m (notify, n) \<or> n = m \<and> \<not> notify"
    using assms(2) compact_peers_pushes [of False m] list_peers_pushes [OF assms(1)]
    by (cases "type_of_data v")
      (auto simp: response_peers_def Let_def elim!: bind_faultE split: if_split_asm prod.split_asm, (metis)+)
  then show ?thesis by (rule that)
qed

lemma response_peers_feeds:
  assumes "inet_pton_ok inet_pton" and "response_peers inet_pton parse m = Inr (goes_on, m')"
  shows "feeds m m'"
  by (rule response_peers_pushes [OF assms]) (auto simp: pushes_def feeds_def)

text \<open>C38: the contacts that the trackers queue are the ones the connection manager relies on: whatever
  the answer, if it is taken apart without a fault, the queue has grown at its end by contacts with
  sixteen bytes of address and, if any, twenty of peer id, and within its capacity.  So in every
  reachable state the arrival of these contacts is an event the manager's safety covers.\<close>

theorem answered_contacts_wellformed:
  assumes "inet_pton_ok inet_pton" and "response_peers inet_pton parse m = Inr (goes_on, m')"
    and "discoveries m = discovered s" and "length (discovered s) \<le> discoveries_capacity"
  shows "\<exists>cs. discoveries m' = discovered s @ cs \<and> enabled (Contacts cs) s"
  using response_peers_feeds [OF assms(1,2)] assms(3,4) by (auto simp: feeds_def)

section \<open>Examples\<close>

theorem answered_contacts_wellformed_witness:
  "\<exists>cs m'. response_peers (\<lambda>family text. if text = ''x'' then Some (replicate (if family = AF_INET then 4 else 16) 7) else None)
      [(''peers'', Data (List [Data (Dictionary [(''ip'', data_of_string ''x''), (''port'', data_of_integer 80)]) no_position]) no_position)]
      example_trackers = Inr (True, m')
    \<and> discoveries m' = cs \<and> cs \<noteq> [] \<and> enabled (Contacts cs) (new_manager (replicate 20 7) example_kernel)"
proof -
  let ?p = "\<lambda>family text. if text = ''x'' then Some (replicate (if family = AF_INET then 4 else 16) (7 :: byte)) else None"
  let ?d = "[(''peers'', Data (List [Data (Dictionary [(''ip'', data_of_string ''x''), (''port'', data_of_integer 80)]) no_position]) no_position)]"
  let ?s = "new_manager (replicate 20 7) example_kernel"
  have p: "inet_pton_ok ?p" by (simp add: inet_pton_ok_def AF_INET_def AF_INET6_def)
  have d: "discoveries example_trackers = discovered ?s" "discovered ?s = []" by (simp_all add: example_trackers_def new_manager_def)
  obtain m' where m': "response_peers ?p ?d example_trackers = Inr (True, m')" "discoveries m' \<noteq> []"
    by (simp add: response_peers_def ben_find_def list_peer_def data_of_string_def data_of_integer_def discoveries_push_def
        discoveries_capacity_def d Let_def)
  from answered_contacts_wellformed [OF p m'(1) d(1)] show ?thesis using m' d(2) by auto
qed

end
