(* ===== verification/TrackerSafety.thy ===== *)
theory TrackerSafety
  imports Discovery
begin

text \<open>
  The tracker manager as a whole: its handlers as the steps of an event loop, the invariant that
  they keep, and what holds in every state that can be reached: no handler faults and no tracker
  is lost, as long as the answers are of the form the protocol asks for.
\<close>

section \<open>The invariant\<close>

definition stopped :: "tracker \<Rightarrow> bool" where
  "stopped t \<longleftrightarrow> \<not> ev_active (minimum (timers t)) \<and> \<not> ev_active (maximum (timers t))"

text \<open>
  An idle tracker will announce again: its maximum timer runs, and a minimum timer that runs
  fires earlier.
\<close>

definition due :: "tracker \<Rightarrow> bool" where
  "due t \<longleftrightarrow> ev_active (maximum (timers t))
     \<and> (ev_active (minimum (timers t)) \<longrightarrow> tracker_state t = Tracker_active \<and> timers_type (timers t) = Timer_two
          \<and> ev_after (minimum (timers t)) < ev_after (maximum (timers t)))
     \<and> (timers_type (timers t) = Timer_two \<and> \<not> interruptible (tracker_ctx t) \<longrightarrow> ev_active (minimum (timers t)))
     \<and> (timers_type (timers t) = Timer_two \<and> interruptible (tracker_ctx t) \<longrightarrow> \<not> ev_active (minimum (timers t)))"

definition addressed :: "tracker \<Rightarrow> bool" where
  "addressed t \<longleftrightarrow> length (urls t) < 2 ^ 63 \<and> (has_http (tracker_ctx t) \<longrightarrow>
     current_idx (announce_url t) < length (urls t) \<and> (\<exists>u\<in>set (urls t). is_http u))"

text \<open>A tracker that is idle (in the space), or whose request is with \<open>libcurl\<close>, or neither.\<close>

definition tracker_ok :: "bool \<Rightarrow> bool \<Rightarrow> tracker \<Rightarrow> bool" where
  "tracker_ok idle flying t \<longleftrightarrow> addressed t \<and> \<not> (idle \<and> flying) \<and> url_failures (tracker_ctx t) \<le> 5
     \<and> (tracker_state t = Tracker_null \<longrightarrow> timers_type (timers t) = Timer_one)
     \<and> (idle \<or> flying \<longrightarrow> has_http (tracker_ctx t) \<and> current_proto t = Proto_http \<and> tracker_state t \<noteq> Tracker_null)
     \<and> (if idle then due t else stopped t)"

abbreviation idle :: "tracker_manager \<Rightarrow> string set" where
  "idle m \<equiv> set (manager_space m)"

abbreviation flying :: "tracker_manager \<Rightarrow> string set" where
  "flying m \<equiv> set (multi (protocol m))"

definition tracker_inv :: "tracker_manager \<Rightarrow> bool" where
  "tracker_inv m \<longleftrightarrow> space_inv m \<and> flying m \<subseteq> dom (views m)
     \<and> (\<forall>k v. views m k = Some v \<longrightarrow> tracker_ok (k \<in> idle m) (k \<in> flying m) v)"

definition https :: "tracker_manager \<Rightarrow> string set" where
  "https m = {k. \<exists>v. views m k = Some v \<and> has_http (tracker_ctx v)}"

lemma https_iff: "k \<in> https m \<longleftrightarrow> (\<exists>v. views m k = Some v \<and> has_http (tracker_ctx v))"
  by (simp add: https_def)

text \<open>No tracker with an \<open>http\<close> address is lost while the manager is active.\<close>

definition settled :: "tracker_manager \<Rightarrow> bool" where
  "settled m \<longleftrightarrow> (if context_active (tracker_context m) then https m = idle m \<union> flying m else idle m = {})"

section \<open>Reading and writing\<close>

lemma status_view [simp]:
  "stopped (view t) = stopped t" "due (view t) = due t" "addressed (view t) = addressed t" "tracker_ok i f (view t) = tracker_ok i f t"
  "has_http (tracker_ctx (view t)) = has_http (tracker_ctx t)" "url_failures (tracker_ctx (view t)) = url_failures (tracker_ctx t)"
  by (simp_all add: stopped_def due_def addressed_def tracker_ok_def view_def urls_def)

lemma status_user [simp]:
  "tracker_ok i f (t\<lparr>user_space := u\<rparr>) = tracker_ok i f t" "view (t\<lparr>user_space := u\<rparr>) = (view t)\<lparr>user_space := u\<rparr>"
  by (simp_all add: tracker_ok_def addressed_def stopped_def due_def urls_def view_def)

lemma views_set [simp]: "views (set_tracker k u m) = (views m)(k \<mapsto> view u)"
  by (auto simp: views_def)

lemma started_set [simp]: "started_tp (set_tracker k u m) = started_tp m"
  by (simp add: set_tracker_def)

lemma views_some: "tracker_connections m k = Some t \<Longrightarrow> views m k = Some (view t)"
  by (simp add: views_def)

lemma views_frame [simp]: "views (m\<lparr>tracker_context := c\<rparr>) = views m" "views (m\<lparr>manager_space := s\<rparr>) = views m"
  "views (m\<lparr>discoveries := d\<rparr>) = views m" "views (m\<lparr>consumer_pending := b\<rparr>) = views m" "views (m\<lparr>event_set := e\<rparr>) = views m"
  "views (m\<lparr>signal_pending := b\<rparr>) = views m" "views (m\<lparr>started_tp := n\<rparr>) = views m"
  by (simp_all add: views_def fun_eq_iff)

lemma space_set:
  "space_inv m \<Longrightarrow> tracker_connections m k = Some t \<Longrightarrow> (k \<in> idle m \<Longrightarrow> manager_space_idx (tracker_ctx u) = manager_space_idx (tracker_ctx t))
    \<Longrightarrow> space_inv (set_tracker k u m)"
  by (fastforce simp: space_inv_def)

lemma inv_tracker: "tracker_inv m \<Longrightarrow> tracker_connections m k = Some t \<Longrightarrow> tracker_ok (k \<in> idle m) (k \<in> flying m) t"
  unfolding tracker_inv_def by (metis status_view(4) views_some)

lemma inv_idle: "tracker_inv m \<Longrightarrow> k \<in> idle m \<Longrightarrow> \<exists>t. tracker_connections m k = Some t"
  unfolding tracker_inv_def space_inv_def by (metis in_set_conv_nth)

lemma inv_flying: "tracker_inv m \<Longrightarrow> k \<in> flying m \<Longrightarrow> \<exists>t. tracker_connections m k = Some t"
  unfolding tracker_inv_def by (auto simp: views_def dom_def)

text \<open>A handler touches one tracker and moves no other.\<close>

lemma tracker_inv_step:
  assumes "tracker_inv m" and "space_inv m'" and "\<And>j. j \<noteq> k \<Longrightarrow> views m' j = views m j"
    and "idle m' - {k} = idle m - {k}" and "flying m' - {k} = flying m - {k}"
    and "views m' k = Some v" and "tracker_ok (k \<in> idle m') (k \<in> flying m') v"
  shows "tracker_inv m'"
proof -
  have same: "j \<in> idle m' \<longleftrightarrow> j \<in> idle m" "j \<in> flying m' \<longleftrightarrow> j \<in> flying m" if "j \<noteq> k" for j
    using assms(4,5) that by blast+
  have "j \<in> dom (views m')" if "j \<in> flying m'" for j
    using that assms(1,3,6) same [of j] unfolding tracker_inv_def by (cases "j = k") auto
  moreover have "tracker_ok (j \<in> idle m') (j \<in> flying m') w" if "views m' j = Some w" for j w
    using that assms(1,3,6,7) same [of j] unfolding tracker_inv_def by (cases "j = k") auto
  ultimately show ?thesis using assms(2) unfolding tracker_inv_def by blast
qed

lemma https_step: "(\<And>j. j \<noteq> k \<Longrightarrow> views m' j = views m j) \<Longrightarrow> views m k = Some w \<Longrightarrow> views m' k = Some v \<Longrightarrow>
    has_http (tracker_ctx v) = has_http (tracker_ctx w) \<Longrightarrow> https m' = https m"
  unfolding https_def by (intro Collect_cong) (metis option.inject)

lemma view_eqD: "view u = view v \<Longrightarrow> \<exists>n. u = v\<lparr>tracker_ctx := (tracker_ctx v)\<lparr>manager_space_idx := n\<rparr>\<rparr>"
  by (cases u, cases v, cases "tracker_ctx u", cases "tracker_ctx v") (auto simp: view_def)

text \<open>Sending a tracker off.\<close>

lemma send_result:
  assumes "space_inv m" and "k \<in> idle m"
  shows "\<exists>m'. send_to_protocol_space k m = Inr m' \<and> space_inv m' \<and> taken k m m' \<and> idle m' = idle m - {k} \<and> views m' = views m
    \<and> protocol m' = protocol m \<and> tracker_context m' = tracker_context m"
  using send_to_protocol_space_inv [OF assms] taken_set [OF _ assms(1)] by blast

lemma url_result:
  assumes "views m k = Some v" and "current_idx (announce_url v) < length (urls v)" and "space_inv m"
  shows "\<exists>m' u. set_announce_url_for_tracker k event m = Inr m' \<and> space_inv m' \<and> views m' = (views m)(k \<mapsto> v\<lparr>user_space := u\<rparr>)
    \<and> manager_space m' = manager_space m \<and> protocol m' = protocol m \<and> tracker_context m' = tracker_context m"
proof -
  obtain t where t: "tracker_connections m k = Some t" "v = view t" using assms(1) by (auto simp: views_def)
  obtain u where u: "set_announce_url_for_tracker k event m = Inr (set_tracker k (t\<lparr>user_space := u\<rparr>) m)"
    using t assms(2) by (auto simp: set_announce_url_for_tracker_def tracker_at_def get_url_def urls_def Let_def)
  have "space_inv (set_tracker k (t\<lparr>user_space := u\<rparr>) m)" by (rule space_set [OF assms(3) t(1)]) simp
  then show ?thesis using u t(2) by (intro exI [of _ "set_tracker k (t\<lparr>user_space := u\<rparr>) m"] exI [of _ u]) simp
qed

lemma request_result:
  assumes "views m k = Some v" and "current_proto v = Proto_http" and "space_inv m"
  shows "\<exists>m'. protocol_add_request k m = Inr m' \<and> space_inv m' \<and> views m' = views m \<and> manager_space m' = manager_space m
    \<and> flying m' = insert k (flying m) \<and> tracker_context m' = tracker_context m"
proof -
  obtain p where "protocol_add_request k m = Inr (m\<lparr>protocol := p\<rparr>)" "set (multi p) = insert k (set (multi (protocol m)))"
    using add_request_ready [OF assms(1,2)] by blast
  then show ?thesis using assms(3) by (intro exI [of _ "m\<lparr>protocol := p\<rparr>"]) (simp add: space_inv_def)
qed

lemma announce_result:
  assumes "views m k = Some v" and "ready v" and "space_inv m" and "k \<in> idle m"
  shows "\<exists>m' u. announce k event m = Inr m' \<and> space_inv m' \<and> taken k m m' \<and> idle m' = idle m - {k}
    \<and> views m' = (views m)(k \<mapsto> v\<lparr>user_space := u\<rparr>) \<and> flying m' = insert k (flying m) \<and> tracker_context m' = tracker_context m"
proof -
  have v: "current_idx (announce_url v) < length (urls v)" "current_proto v = Proto_http" using assms(2) by (simp_all add: ready_def)
  obtain m1 u where m1: "set_announce_url_for_tracker k event m = Inr m1" "space_inv m1" "views m1 = (views m)(k \<mapsto> v\<lparr>user_space := u\<rparr>)"
    "manager_space m1 = manager_space m" "protocol m1 = protocol m" "tracker_context m1 = tracker_context m"
    using url_result [OF assms(1) v(1) assms(3)] by blast
  obtain m2 where m2: "send_to_protocol_space k m1 = Inr m2" "space_inv m2" "taken k m1 m2" "idle m2 = idle m1 - {k}" "views m2 = views m1"
    "protocol m2 = protocol m1" "tracker_context m2 = tracker_context m1"
    using send_result [OF m1(2), of k] assms(4) m1(4) by auto
  have "views m2 k = Some (v\<lparr>user_space := u\<rparr>)" "current_proto (v\<lparr>user_space := u\<rparr>) = Proto_http" using m1 m2 v by simp_all
  from request_result [OF this m2(2)] obtain m3 where m3: "protocol_add_request k m2 = Inr m3" "space_inv m3" "views m3 = views m2"
    "manager_space m3 = manager_space m2" "flying m3 = insert k (flying m2)" "tracker_context m3 = tracker_context m2" by blast
  have "taken k m m3" using m2(3) m1(4) m3(4) by (simp add: taken_def)
  then show ?thesis using m1 m2 m3 by (intro exI [of _ m3] exI [of _ u]) (simp add: announce_def)
qed

text \<open>An idle tracker whose timers have been stopped is sent off and the invariant holds again.\<close>

lemma announce_inv:
  assumes inv: "tracker_inv m" and k: "k \<in> idle m" "tracker_connections m k = Some t"
    and u: "tracker_ok False True u" "manager_space_idx (tracker_ctx u) = manager_space_idx (tracker_ctx t)"
  shows "\<exists>m'. announce k event (set_tracker k u m) = Inr m' \<and> tracker_inv m' \<and> taken k m m' \<and> idle m' = idle m - {k}
    \<and> flying m' = insert k (flying m) \<and> (\<forall>j. j \<noteq> k \<longrightarrow> views m' j = views m j) \<and> https m' = https m \<and> tracker_context m' = tracker_context m"
proof -
  have t: "tracker_ok True (k \<in> flying m) t" using inv_tracker [OF inv k(2)] k(1) by simp
  have s: "space_inv (set_tracker k u m)" using inv k u(2) by (auto simp: tracker_inv_def intro: space_set)
  have r: "ready (view u)" using u(1) by (simp add: ready_def tracker_ok_def addressed_def)
  obtain m' w where m': "announce k event (set_tracker k u m) = Inr m'" "space_inv m'" "taken k (set_tracker k u m) m'" "idle m' = idle m - {k}"
    "views m' = (views m)(k \<mapsto> (view u)\<lparr>user_space := w\<rparr>)" "flying m' = insert k (flying m)" "tracker_context m' = tracker_context m"
    using announce_result [OF _ r s, of k event] k(1) by auto
  have "tracker_inv m'"
    by (rule tracker_inv_step [OF inv m'(2), where k = k and v = "(view u)\<lparr>user_space := w\<rparr>"]) (use m' u(1) in simp_all)
  moreover have "https m' = https m"
    by (rule https_step [where k = k and w = "view t" and v = "(view u)\<lparr>user_space := w\<rparr>"]) (use m'(5) k(2) t u(1) in \<open>auto simp: views_some tracker_ok_def\<close>)
  ultimately show ?thesis using m' by (intro exI [of _ m']) (simp add: taken_def)
qed

section \<open>The loops of the events\<close>

definition running :: "manager_context_t \<Rightarrow> string set \<Rightarrow> tracker_manager \<Rightarrow> bool" where
  "running c H m \<longleftrightarrow> tracker_inv m \<and> tracker_context m = c \<and> https m = H"

lemma running_step:
  assumes h: "\<And>k m. handler k m = bind_fault (tracker_at k m) (\<lambda>t.
      if P t then announce k (context_event (tracker_context m)) (set_tracker k (f t) m) else Inr m)"
    and f: "\<And>t. tracker_ok True False t \<Longrightarrow> P t \<Longrightarrow> tracker_ok False True (f t)" "\<And>t. tracker_ctx (f t) = tracker_ctx t"
    and P: "\<And>t. P (view t) = P t"
    and r: "running c H m" and k: "k \<in> idle m"
  shows "\<exists>m'. handler k m = Inr m' \<and> running c H m' \<and> (if seen P m k then taken k m m' else manager_space m' = manager_space m)
      \<and> flying m' = flying m \<union> (if seen P m k then {k} else {}) \<and> (\<forall>j. j \<noteq> k \<longrightarrow> seen P m' j = seen P m j \<and> seen P m' j = seen P m j)"
proof -
  have inv: "tracker_inv m" using r by (simp add: running_def)
  obtain t where t: "tracker_connections m k = Some t" using inv_idle [OF inv k] by blast
  have ok: "tracker_ok True (k \<in> flying m) t" using inv_tracker [OF inv t] k by simp
  then have ok: "tracker_ok True False t" by (cases "k \<in> flying m") (simp_all add: tracker_ok_def)
  have seen: "seen P m k = P t" by (rule seen_some [where t = t and P = P]) (use t P in simp_all)
  show ?thesis
  proof (cases "P t")
    case False
    then have "handler k m = Inr m" using h t by (simp add: tracker_at_some)
    then show ?thesis using False seen r by simp
  next
    case True
    from announce_inv [OF inv k t f(1) [OF ok True]] obtain m' where
      "announce k (context_event (tracker_context m)) (set_tracker k (f t) m) = Inr m'" "tracker_inv m'" "taken k m m'"
      "flying m' = insert k (flying m)" "\<forall>j. j \<noteq> k \<longrightarrow> views m' j = views m j" "https m' = https m" "tracker_context m' = tracker_context m"
      using f(2) by metis
    moreover from this(5) have "\<forall>j. j \<noteq> k \<longrightarrow> seen P m' j = seen P m j" by (auto simp: seen_def)
    ultimately show ?thesis using h t True seen r by (simp add: tracker_at_some running_def)
  qed
qed

interpretation forced_run: space_loop force_reannounce_tracker "running c H" "seen is_active" "seen is_active" for c H
proof (unfold_locales, goal_cases)
  case (1 m)
  then show ?case by (simp add: running_def tracker_inv_def)
next
  case (2 m k)
  show ?case
    by (rule running_step [where f = "\<lambda>t. disarm_maximum (disarm_minimum t)"])
      (use 2 in \<open>simp_all add: force_reannounce_tracker_def is_active_def disarm_maximum_def disarm_minimum_def ev_stop_def
        tracker_ok_def addressed_def stopped_def urls_def\<close>)
qed

lemma disarmed_ok:
  assumes "tracker_ok True False t" and "stopped u" and "has_http (tracker_ctx u) = has_http (tracker_ctx t)"
    and "url_failures (tracker_ctx u) = url_failures (tracker_ctx t)" and "announce_url u = announce_url t"
    and "current_proto u = current_proto t" and "tracker_state u = tracker_state t" and "timers_type (timers u) = timers_type (timers t)"
  shows "tracker_ok False flies u"
  using assms by (simp add: tracker_ok_def addressed_def urls_def)

lemma disarmed_flies:
  assumes "tracker_ok True False t" and "wants_reannounce t"
  shows "tracker_ok False True (disarm_maximum t)"
proof (rule disarmed_ok [OF assms(1)])
  have "due t" using assms(1) by (simp add: tracker_ok_def)
  then have "\<not> ev_active (minimum (timers t))" using assms(2) unfolding wants_reannounce_def due_def by blast
  then show "stopped (disarm_maximum t)" by (simp add: stopped_def disarm_maximum_def ev_stop_def)
qed (simp_all add: disarm_maximum_def)

interpretation renewed_run: space_loop reannounce_tracker "running c H" "seen wants_reannounce" "seen wants_reannounce" for c H
proof (unfold_locales, goal_cases)
  case (1 m)
  then show ?case by (simp add: running_def tracker_inv_def)
next
  case (2 m k)
  have h: "reannounce_tracker j n = bind_fault (tracker_at j n) (\<lambda>t. if wants_reannounce t
      then announce j (context_event (tracker_context n)) (set_tracker j (disarm_maximum t) n) else Inr n)" for j n
    by (simp only: reannounce_tracker_def wants_reannounce_def)
  have v: "wants_reannounce (view t) = wants_reannounce t" for t by (simp add: wants_reannounce_def)
  show ?case by (rule running_step [OF h disarmed_flies _ v 2]) (simp_all add: disarm_maximum_def)
qed

lemma shutdown_step:
  assumes r: "running c H m" and k: "k \<in> idle m"
  shows "\<exists>m'. shutdown_tracker k m = Inr m' \<and> running c H m' \<and> taken k m m'
      \<and> flying m' = flying m \<union> (if seen is_active m k then {k} else {}) \<and> (\<forall>j. j \<noteq> k \<longrightarrow> seen is_active m' j = seen is_active m j)"
proof -
  have inv: "tracker_inv m" using r by (simp add: running_def)
  obtain t where t: "tracker_connections m k = Some t" using inv_idle [OF inv k] by blast
  have "tracker_ok True (k \<in> flying m) t" using inv_tracker [OF inv t] k by simp
  then have ok: "tracker_ok True False t" and fly: "k \<notin> flying m" by (cases "k \<in> flying m", simp_all add: tracker_ok_def)+
  let ?u = "disarm_maximum t"
  have http: "has_http (tracker_ctx ?u)" using ok by (simp add: tracker_ok_def disarm_maximum_def)
  let ?w = "if timers_type (timers ?u) = Timer_two then disarm_minimum ?u else ?u"
  have s: "space_inv (set_tracker k ?u m)" by (rule space_set [OF _ t]) (use inv in \<open>simp_all add: tracker_inv_def disarm_maximum_def\<close>)
  obtain m1 where m1: "send_to_protocol_space k (set_tracker k ?u m) = Inr m1" "space_inv m1" "taken k (set_tracker k ?u m) m1"
    "idle m1 = idle m - {k}" "views m1 = (views m)(k \<mapsto> view ?u)" "protocol m1 = protocol m" "tracker_context m1 = tracker_context m"
    using send_result [OF s, of k] k by auto
  obtain u where u: "tracker_connections m1 k = Some u" "view u = view ?u" using fun_cong [OF m1(5), of k] by (auto simp: views_def)
  obtain n where n: "u = ?u\<lparr>tracker_ctx := (tracker_ctx ?u)\<lparr>manager_space_idx := n\<rparr>\<rparr>" using view_eqD [OF u(2)] by blast
  have seen: "seen is_active m k = (tracker_state t = Tracker_active)"
    using t by (simp add: seen_def views_some is_active_def)
  have st: "tracker_state u = tracker_state t" "timers_type (timers u) = timers_type (timers t)"
    by (simp_all add: n disarm_maximum_def)
  have others: "(\<forall>j. j \<noteq> k \<longrightarrow> seen is_active m' j = seen is_active m j)" if "\<forall>j. j \<noteq> k \<longrightarrow> views m' j = views m j" for m'
    using that by (simp add: seen_def)
  have finish: "running c H m' \<and> taken k m m' \<and> (\<forall>j. j \<noteq> k \<longrightarrow> seen is_active m' j = seen is_active m j)"
    if "space_inv m'" "manager_space m' = manager_space m1" "views m' = (views m)(k \<mapsto> v)" "flying m' - {k} = flying m"
      "tracker_context m' = tracker_context m" "tracker_ok False (k \<in> flying m') v" "has_http (tracker_ctx v)" for m' v
  proof -
    have "tracker_inv m'"
      by (rule tracker_inv_step [OF inv that(1), where k = k and v = v]) (use that m1(4) fly in auto)
    moreover have "https m' = https m"
      by (rule https_step [where k = k and w = "view t" and v = v])
        (use that(3,7) t ok in \<open>simp_all add: views_some tracker_ok_def\<close>)
    ultimately show ?thesis using r that m1(3) others [of m'] by (simp add: running_def taken_def)
  qed
  show ?thesis
  proof (cases "tracker_state t = Tracker_active")
    case False
    then have "tracker_state t = Tracker_inactive" using ok by (cases "tracker_state t") (simp_all add: tracker_ok_def)
    moreover have "tracker_ok False False ?u"
    proof (rule disarmed_ok [OF ok])
      have "\<not> ev_active (minimum (timers t))" using ok False by (simp add: tracker_ok_def due_def)
      then show "stopped ?u" by (simp add: stopped_def disarm_maximum_def ev_stop_def)
    qed (simp_all add: disarm_maximum_def)
    moreover have "running c H m1 \<and> taken k m m1 \<and> (\<forall>j. j \<noteq> k \<longrightarrow> seen is_active m1 j = seen is_active m j)"
      by (rule finish [where v = "view ?u"]) (use m1 fly calculation(2) http in simp_all)
    ultimately show ?thesis using m1(1,6) t u(1) st seen
      by (simp add: shutdown_tracker_def update_tracker_def tracker_at_some)
  next
    case True
    let ?w = "if timers_type (timers u) = Timer_two then disarm_minimum u else u"
    let ?m2 = "set_tracker k ?w m1"
    have w: "tracker_ok False True ?w"
    proof (rule disarmed_ok [OF ok])
      have "ev_active (minimum (timers t)) \<Longrightarrow> timers_type (timers t) = Timer_two" using ok by (simp add: tracker_ok_def due_def)
      then show "stopped ?w" by (auto simp: stopped_def n disarm_minimum_def disarm_maximum_def ev_stop_def)
    qed (simp_all add: n disarm_minimum_def disarm_maximum_def)
    have s2: "space_inv ?m2" by (rule space_set [OF m1(2) u(1)]) (simp add: disarm_minimum_def)
    obtain m3 x where m3: "set_announce_url_for_tracker k (context_event (tracker_context m1)) ?m2 = Inr m3" "space_inv m3"
      "views m3 = (views m)(k \<mapsto> (view ?w)\<lparr>user_space := x\<rparr>)" "manager_space m3 = manager_space m1" "protocol m3 = protocol m1"
      "tracker_context m3 = tracker_context m1"
      using url_result [of ?m2 k "view ?w" "context_event (tracker_context m1)"] s2 w m1(5)
      by (auto simp: tracker_ok_def addressed_def)
    obtain m4 where m4: "protocol_add_request k m3 = Inr m4" "space_inv m4" "views m4 = views m3" "manager_space m4 = manager_space m3"
      "flying m4 = insert k (flying m3)" "tracker_context m4 = tracker_context m3"
      using request_result [of m3 k "(view ?w)\<lparr>user_space := x\<rparr>"] m3 w by (auto simp: tracker_ok_def)
    have "running c H m4 \<and> taken k m m4 \<and> (\<forall>j. j \<noteq> k \<longrightarrow> seen is_active m4 j = seen is_active m j)"
      by (rule finish [where v = "(view ?w)\<lparr>user_space := x\<rparr>"]) (use m1 m3 m4 fly w http in \<open>simp_all add: n disarm_minimum_def\<close>)
    moreover have "shutdown_tracker k m = Inr m4"
      using m1(1) t u(1) st True m3(1) m4(1) by (simp add: shutdown_tracker_def update_tracker_def tracker_at_some Let_def)
    ultimately show ?thesis using seen True m1(6) m3(5) m4(5) by simp
  qed
qed

interpretation shut: space_loop shutdown_tracker "running c H" "\<lambda>m k. True" "seen is_active" for c H
proof (unfold_locales, goal_cases)
  case (1 m)
  then show ?case by (simp add: running_def tracker_inv_def)
next
  case (2 m k)
  then show ?case using shutdown_step [OF 2] by simp
qed

section \<open>The start\<close>

definition startable :: "tracker_manager \<Rightarrow> bool" where
  "startable m \<longleftrightarrow> (\<forall>k \<in> https m. \<exists>v. views m k = Some v \<and> tracker_state v = Tracker_null)"

definition populated :: "tracker \<Rightarrow> tracker \<Rightarrow> bool" where
  "populated v w \<longleftrightarrow> (w = v \<or> (\<exists>i < length (urls v). w = at_url i v)) \<and> current_proto w = Proto_http"

lemma populated_keeps:
  assumes "populated v w"
  shows "urls w = urls v" "has_http (tracker_ctx w) = has_http (tracker_ctx v)" "tracker_state w = tracker_state v"
    "timers w = timers v" "url_failures (tracker_ctx w) = url_failures (tracker_ctx v)" "current_proto w = Proto_http"
    "addressed v \<Longrightarrow> addressed w"
  using assms by (auto simp: populated_def at_url_def urls_def addressed_def)

lemma view_at_url [simp]: "view (at_url i t) = at_url i (view t)"
  by (simp add: view_def at_url_def urls_def)

lemma seek_populates:
  assumes "addressed t" and "has_http (tracker_ctx t)"
  shows "\<exists>b w. (if current_proto t \<noteq> Proto_http then seek_http (seek_fuel t) t else Inr (False, t)) = Inr (b, w) \<and> populated t w"
proof (cases "current_proto t = Proto_http")
  case True
  then show ?thesis by (auto simp: populated_def)
next
  case False
  obtain i where "i < length (urls t)" "seek_http (seek_fuel t) t = Inr (failed_idx (announce_url t) = i, at_url i t)" "is_http (urls t ! i)"
    using seek_http_finds [of t] assms unfolding addressed_def Let_def by (metis mod_less_divisor length_pos_if_in_set)
  then show ?thesis using False by (auto simp: populated_def at_url_def)
qed

lemma space_inv_append:
  assumes "space_inv m" and "k \<notin> idle m" and "manager_space_idx (tracker_ctx u) = length (manager_space m)"
  shows "space_inv ((set_tracker k u m)\<lparr>manager_space := manager_space m @ [k]\<rparr>)"
proof -
  have "\<exists>t. ((tracker_connections m)(k \<mapsto> u)) ((manager_space m @ [k]) ! i) = Some t \<and> manager_space_idx (tracker_ctx t) = i"
    if "i < Suc (length (manager_space m))" for i
  proof (cases "i = length (manager_space m)")
    case False
    then have i: "i < length (manager_space m)" using that by simp
    then have "manager_space m ! i \<noteq> k" using assms(2) nth_mem by metis
    then show ?thesis using assms(1) i by (simp add: space_inv_def nth_append)
  qed (use assms(3) in simp)
  then show ?thesis using assms(1,2) by (simp add: space_inv_def)
qed

lemma populate_result:
  "space_inv m \<Longrightarrow> distinct ks \<Longrightarrow> set ks \<inter> idle m = {} \<Longrightarrow> (\<And>k. k \<in> set ks \<Longrightarrow> \<exists>v. views m k = Some v \<and> addressed v) \<Longrightarrow>
   \<exists>m'. populate_manager_space ks m = Inr m' \<and> space_inv m' \<and> idle m' = idle m \<union> (set ks \<inter> https m)
     \<and> protocol m' = protocol m \<and> tracker_context m' = tracker_context m
     \<and> (\<forall>k. if k \<in> set ks \<inter> https m then \<exists>v w. views m k = Some v \<and> views m' k = Some w \<and> populated v w else views m' k = views m k)"
proof (induction ks arbitrary: m)
  case Nil
  then show ?case by simp
next
  case (Cons k ks)
  obtain t where t: "tracker_connections m k = Some t" "addressed t" using Cons.prems(4) [of k] by (auto simp: views_def)
  show ?case
  proof (cases "has_http (tracker_ctx t)")
    case False
    then have "k \<notin> https m" using t by (simp add: https_def views_some)
    moreover have "\<exists>v. views m j = Some v \<and> addressed v" if "j \<in> set ks" for j using Cons.prems(4) that by simp
    ultimately show ?thesis using Cons.IH [OF Cons.prems(1)] Cons.prems(2,3) t False by (auto simp: tracker_at_some)
  next
    case True
    obtain b w where w: "(if current_proto t \<noteq> Proto_http then seek_http (seek_fuel t) t else Inr (False, t)) = Inr (b, w)" "populated t w"
      using seek_populates [OF t(2) True] by blast
    let ?u = "w\<lparr>tracker_ctx := (tracker_ctx w)\<lparr>manager_space_idx := length (manager_space m)\<rparr>\<rparr>"
    let ?m = "(set_tracker k ?u m)\<lparr>manager_space := manager_space m @ [k]\<rparr>"
    have v: "views ?m = (views m)(k \<mapsto> view w)" by (simp add: view_def)
    have pop: "populated (view t) (view w)" using w(2) by (auto simp: populated_def)
    have k: "k \<in> https m" using True t by (simp add: https_def views_some)
    have http: "https ?m = https m"
      by (rule https_step [where k = k and w = "view t" and v = "view w"]) (use v t populated_keeps(2) [OF w(2)] in \<open>simp_all add: views_some\<close>)
    have step: "populate_manager_space (k # ks) m = populate_manager_space ks ?m"
      using t(1) True w(1) by (simp add: tracker_at_some Let_def del: not_None_eq split del: if_split)
    have inv: "space_inv ?m" by (rule space_inv_append) (use Cons.prems in simp_all)
    have "\<exists>v. views ?m j = Some v \<and> addressed v" if "j \<in> set ks" for j
      using Cons.prems(2) Cons.prems(4) [of j] that unfolding v by auto
    moreover have "distinct ks" "set ks \<inter> idle ?m = {}" using Cons.prems(2,3) by auto
    ultimately obtain m' where m': "populate_manager_space ks ?m = Inr m'" "space_inv m'" "idle m' = idle ?m \<union> (set ks \<inter> https m)"
      "protocol m' = protocol m" "tracker_context m' = tracker_context m"
      "\<forall>j. if j \<in> set ks \<inter> https m then \<exists>v w. views ?m j = Some v \<and> views m' j = Some w \<and> populated v w else views m' j = views ?m j"
      using Cons.IH [OF inv] http by auto
    have "idle m' = idle m \<union> (set (k # ks) \<inter> https m)" using m'(3) k by auto
    moreover have "if j \<in> set (k # ks) \<inter> https m then \<exists>v w. views m j = Some v \<and> views m' j = Some w \<and> populated v w else views m' j = views m j" for j
    proof (cases "j = k")
      case True
      then have "views m' j = Some (view w)" using m'(6) Cons.prems(2) unfolding v by (metis IntD1 distinct.simps(2) fun_upd_same)
      then show ?thesis using True k t(1) pop by (simp add: views_some)
    next
      case False
      then show ?thesis using spec [OF m'(6), of j] unfolding v by (auto split: if_splits)
    qed
    moreover have "populate_manager_space (k # ks) m = Inr m'" using step m'(1) by (rule trans)
    ultimately show ?thesis using m'(2,4,5) by blast
  qed
qed

definition started :: "tracker \<Rightarrow> tracker" where
  "started t = t\<lparr>tracker_state := Tracker_inactive, timers := (timers t)\<lparr>maximum := arm_timer 100 (maximum (timers t))\<rparr>\<rparr>"

lemma start_loop:
  "i + n = length (manager_space m) \<Longrightarrow> distinct (manager_space m) \<Longrightarrow> (\<And>j. j \<in> set (drop i (manager_space m)) \<Longrightarrow>
     \<exists>t. tracker_connections m j = Some t \<and> tracker_state t = Tracker_null \<and> timers_type (timers t) = Timer_one) \<Longrightarrow>
   over_space start_tracker (manager_space m) i n m = Inr (m\<lparr>tracker_connections :=
     \<lambda>k. if k \<in> set (drop i (manager_space m)) then map_option started (tracker_connections m k) else tracker_connections m k\<rparr>)"
proof (induction n arbitrary: i m)
  case 0
  then show ?case by simp
next
  case (Suc n)
  let ?xs = "manager_space m"
  let ?k = "?xs ! i"
  have i: "i < length ?xs" using Suc.prems(1) by simp
  have d: "drop i ?xs = ?k # drop (Suc i) ?xs" using i by (simp add: Cons_nth_drop_Suc)
  have fresh: "?k \<notin> set (drop (Suc i) ?xs)" using Suc.prems(2) d by (metis distinct.simps(2) distinct_drop)
  obtain t where t: "tracker_connections m ?k = Some t" "tracker_state t = Tracker_null" "timers_type (timers t) = Timer_one"
    using Suc.prems(3) [of ?k] d by auto
  let ?m = "set_tracker ?k (started t) m"
  have start: "start_tracker ?k m = Inr ?m" using t by (simp add: start_tracker_def tracker_at_some started_def)
  have "over_space start_tracker (manager_space ?m) (Suc i) n ?m = Inr (?m\<lparr>tracker_connections :=
     \<lambda>k. if k \<in> set (drop (Suc i) (manager_space ?m)) then map_option started (tracker_connections ?m k) else tracker_connections ?m k\<rparr>)"
  proof (rule Suc.IH)
    fix j
    assume j: "j \<in> set (drop (Suc i) (manager_space ?m))"
    then have "j \<noteq> ?k" using fresh by auto
    moreover have "j \<in> set (drop i ?xs)" using j d by simp
    ultimately show "\<exists>t. tracker_connections ?m j = Some t \<and> tracker_state t = Tracker_null \<and> timers_type (timers t) = Timer_one"
      using Suc.prems(3) [of j] by simp
  qed (use Suc.prems in simp_all)
  moreover have "(\<lambda>k. if k \<in> set (drop (Suc i) ?xs) then map_option started (tracker_connections ?m k) else tracker_connections ?m k)
      = (\<lambda>k. if k \<in> set (drop i ?xs) then map_option started (tracker_connections m k) else tracker_connections m k)"
    using t(1) fresh by (auto simp: d fun_eq_iff)
  ultimately show ?case using start by (simp add: set_tracker_def)
qed

lemma startable_idle: "tracker_inv m \<Longrightarrow> startable m \<Longrightarrow> idle m = {} \<and> flying m = {}"
proof -
  assume inv: "tracker_inv m" and s: "startable m"
  have "k \<notin> idle m \<and> k \<notin> flying m" for k
  proof (rule ccontr)
    assume k: "\<not> (k \<notin> idle m \<and> k \<notin> flying m)"
    then obtain t where t: "tracker_connections m k = Some t" using inv_idle [OF inv] inv_flying [OF inv] by blast
    then have "has_http (tracker_ctx t)" "tracker_state t \<noteq> Tracker_null"
      using inv_tracker [OF inv t] k by (auto simp: tracker_ok_def)
    moreover from this(1) have "k \<in> https m" using t by (simp add: https_def views_some)
    then obtain v where "views m k = Some v" "tracker_state v = Tracker_null" using s unfolding startable_def by blast
    ultimately show False using views_some [OF t] by (metis option.inject view_simps(4))
  qed
  then have "idle m = {}" "flying m = {}" by (simp_all add: set_eq_iff del: set_empty)
  then show ?thesis ..
qed

lemma start_event_inv:
  assumes inv: "tracker_inv m" and s: "startable m" and order: "distinct order" "set order = dom (tracker_connections m)"
  shows "\<exists>m'. start_event order now m = Inr m' \<and> tracker_inv m' \<and> idle m' = https m' \<and> flying m' = {} \<and> https m' = https m
    \<and> tracker_context m' = tracker_context m"
proof -
  have empty: "idle m = {}" "flying m = {}" using startable_idle [OF inv s] by simp_all
  have sub: "https m \<subseteq> set order" using order(2) by (auto simp: https_def views_def)
  have ok: "views m k = Some v \<Longrightarrow> tracker_ok False False v" for k v
    using inv empty unfolding tracker_inv_def by simp
  obtain m1 where m1: "populate_manager_space order m = Inr m1" "space_inv m1" "idle m1 = https m" "protocol m1 = protocol m"
    "tracker_context m1 = tracker_context m"
    "\<forall>k. if k \<in> https m then \<exists>v w. views m k = Some v \<and> views m1 k = Some w \<and> populated v w else views m1 k = views m k"
  proof -
    have "\<exists>v. views m k = Some v \<and> addressed v" if "k \<in> set order" for k
      using that order(2) ok [of k] by (auto simp: views_def tracker_ok_def)
    moreover have "set order \<inter> https m = https m" using sub by blast
    ultimately show ?thesis using that populate_result [of m order] inv order(1) empty unfolding tracker_inv_def by auto
  qed
  have idle_one: "\<exists>t v. tracker_connections m1 k = Some t \<and> views m k = Some v \<and> populated v (view t)
      \<and> tracker_state t = Tracker_null \<and> timers_type (timers t) = Timer_one \<and> tracker_ok False False v" if "k \<in> https m" for k
  proof -
    obtain v w where vw: "views m k = Some v" "views m1 k = Some w" "populated v w" using m1(6) \<open>k \<in> https m\<close> by metis
    have "tracker_state v = Tracker_null" using s \<open>k \<in> https m\<close> vw(1) by (auto simp: startable_def)
    moreover obtain t where "tracker_connections m1 k = Some t" "w = view t" using vw(2) by (auto simp: views_def)
    ultimately show ?thesis using vw ok [OF vw(1)] populated_keeps(3,4) [OF vw(3)] by (auto simp: tracker_ok_def)
  qed
  let ?m = "m1\<lparr>tracker_connections := \<lambda>k. if k \<in> idle m1 then map_option started (tracker_connections m1 k) else tracker_connections m1 k\<rparr>"
  have nulls: "\<exists>t. tracker_connections m1 j = Some t \<and> tracker_state t = Tracker_null \<and> timers_type (timers t) = Timer_one"
    if "j \<in> set (drop 0 (manager_space m1))" for j
    using that m1(3) idle_one [of j] by auto
  have "distinct (manager_space m1)" using m1(2) by (simp add: space_inv_def)
  from start_loop [of 0 "length (manager_space m1)" m1, OF _ this nulls]
  have loop: "for_each_tracker start_tracker m1 = Inr ?m" by (simp add: for_each_tracker_def)
  have view_started: "view (started t) = started (view t)" for t by (simp add: view_def started_def)
  have v: "views ?m k = (if k \<in> https m then map_option started (views m1 k) else views m k)" for k
    using spec [OF m1(6), of k] m1(3) by (cases "tracker_connections m1 k") (auto simp: views_def view_started split: if_splits)
  have space: "space_inv ?m"
    using m1(2) unfolding space_inv_def by (fastforce simp: started_def)
  have one: "tracker_ok (k \<in> https m) False w \<and> (has_http (tracker_ctx w) \<longleftrightarrow> k \<in> https m)" if w: "views ?m k = Some w" for k w
  proof (cases "k \<in> https m")
    case True
    then obtain t v where t: "tracker_connections m1 k = Some t" "views m k = Some v" "populated v (view t)" "timers_type (timers t) = Timer_one"
      "tracker_ok False False v" using idle_one by blast
    have w: "w = started (view t)" using w t(1) True unfolding v by (simp add: views_some)
    have a: "has_http (tracker_ctx v)" using True t(2) by (simp add: https_def)
    note keeps = populated_keeps [OF t(3)]
    have "addressed (started (view t))" using keeps(7) t(5) by (simp add: tracker_ok_def addressed_def started_def urls_def)
    moreover have "due (started (view t))"
      using t(4,5) keeps(4) by (auto simp: due_def started_def tracker_ok_def stopped_def arm_timer_def)
    ultimately show ?thesis using w True a keeps t(5) by (simp add: tracker_ok_def started_def)
  next
    case False
    then have "views m k = Some w" using w unfolding v by simp
    then show ?thesis using False ok [of k w] by (auto simp: https_def)
  qed
  have "k \<in> https ?m \<longleftrightarrow> k \<in> https m" for k
  proof
    assume "k \<in> https ?m"
    then show "k \<in> https m" using one unfolding https_iff by blast
  next
    assume k: "k \<in> https m"
    then obtain t where "tracker_connections m1 k = Some t" using idle_one by blast
    then have "views ?m k = Some (started (view t))" using k unfolding v by (simp add: views_some)
    then show "k \<in> https ?m" using one k unfolding https_iff by blast
  qed
  then have "https ?m = https m" by blast
  moreover have sets: "idle ?m = https m" "flying ?m = {}" using m1(3,4) empty(2) by simp_all
  have "tracker_inv ?m"
    unfolding tracker_inv_def sets by (intro conjI allI impI space) (simp_all only: one empty_iff empty_subsetI)
  moreover have "tracker_inv (m\<lparr>started_tp := now\<rparr>) = tracker_inv m" "https (m\<lparr>started_tp := now\<rparr>) = https m" for m
    by (simp_all add: tracker_inv_def https_def space_inv_def)
  ultimately show ?thesis using m1 loop empty(2)
    by (intro exI [of _ "?m\<lparr>started_tp := now\<rparr>"]) (simp add: start_event_def)
qed

section \<open>Timers\<close>

text \<open>What a step of a single tracker leaves alone.\<close>

definition same_world :: "tracker_manager \<Rightarrow> tracker_manager \<Rightarrow> bool" where
  "same_world m m' \<longleftrightarrow> https m' = https m \<and> tracker_context m' = tracker_context m"

text \<open>Two timers that were set together fire in the order of their durations.\<close>

definition may_expire :: "bool \<Rightarrow> tracker \<Rightarrow> bool" where
  "may_expire longer t \<longleftrightarrow> (let mn = minimum (timers t); mx = maximum (timers t)
     in if longer then ev_active mx \<and> \<not> (ev_active mn \<and> ev_after mn < ev_after mx) else ev_active mn)"

lemma inv_set:
  assumes inv: "tracker_inv m" and t: "tracker_connections m k = Some t" and idx: "manager_space_idx (tracker_ctx u) = manager_space_idx (tracker_ctx t)"
    and ok: "tracker_ok (k \<in> idle m) (k \<in> flying m) u" and http: "has_http (tracker_ctx u) = has_http (tracker_ctx t)"
  shows "tracker_inv (set_tracker k u m)" and "same_world m (set_tracker k u m)"
proof -
  have "space_inv (set_tracker k u m)" by (rule space_set [OF _ t]) (use inv idx in \<open>simp_all add: tracker_inv_def\<close>)
  then show "tracker_inv (set_tracker k u m)"
    by (rule tracker_inv_step [OF inv, where k = k and v = "view u"]) (use ok in simp_all)
  have "https (set_tracker k u m) = https m"
    by (rule https_step [where k = k and w = "view t" and v = "view u"]) (use t http in \<open>simp_all add: views_some\<close>)
  then show "same_world m (set_tracker k u m)" by (simp add: same_world_def)
qed

lemma timeout_inv:
  assumes inv: "tracker_inv m" and t: "tracker_connections m k = Some t" and e: "may_expire longer t"
  shows "\<exists>m'. tracker_timeout_handler now k longer m = Inr m' \<and> tracker_inv m' \<and> same_world m m'
    \<and> idle m' \<union> flying m' = idle m \<union> flying m \<and> (idle m = {} \<longrightarrow> idle m' = {})
    \<and> (if longer then k \<in> flying m'
       else \<exists>u. m' = set_tracker k u m \<and> \<not> ev_active (minimum (timers u)) \<and> ev_active (maximum (timers u)))"
proof -
  have ok: "tracker_ok (k \<in> idle m) (k \<in> flying m) t" by (rule inv_tracker [OF inv t])
  have k: "k \<in> idle m" "k \<notin> flying m"
    using ok e by (auto simp: tracker_ok_def stopped_def may_expire_def Let_def split: if_splits)
  then have ok: "tracker_ok True False t" using ok by simp
  then have due: "due t" by (simp add: tracker_ok_def)
  show ?thesis
  proof (cases longer)
    case True
    have min: "\<not> ev_active (minimum (timers t))"
    proof -
      have "ev_active (minimum (timers t)) \<Longrightarrow> ev_after (minimum (timers t)) < ev_after (maximum (timers t))"
        using due unfolding due_def by blast
      moreover have "\<not> (ev_active (minimum (timers t)) \<and> ev_after (minimum (timers t)) < ev_after (maximum (timers t)))"
        using e True by (simp add: may_expire_def Let_def)
      ultimately show ?thesis by blast
    qed
    let ?u = "disarm_maximum t"
    have u: "tracker_ok False True ?u"
      by (rule disarmed_ok [OF ok]) (use min in \<open>simp_all add: stopped_def disarm_maximum_def ev_stop_def\<close>)
    have "\<not> (timers_type (timers t) = Timer_two \<and> \<not> interruptible (tracker_ctx t))" using due min unfolding due_def by blast
    then have go: "\<not> (timers_type (timers ?u) = Timer_two \<and> \<not> interruptible (tracker_ctx ?u))" by (simp add: disarm_maximum_def)
    let ?e = "if now - started_tp m < startup_window then Started else context_event (tracker_context m)"
    have eq: "tracker_timeout_handler now k longer m = announce k ?e (set_tracker k ?u m)"
      using t True go by (auto simp: tracker_timeout_handler_def update_tracker_def tracker_at_some Let_def)
    obtain m' where m': "announce k ?e (set_tracker k ?u m) = Inr m'" "tracker_inv m'" "idle m' = idle m - {k}"
      "flying m' = insert k (flying m)" "https m' = https m" "tracker_context m' = tracker_context m"
      using announce_inv [OF inv k(1) t u, of ?e] disarm_maximum_def [of t] by force
    then show ?thesis using eq k True by (intro exI [of _ m']) (auto simp: same_world_def)
  next
    case False
    then have min: "ev_active (minimum (timers t))" using e by (simp add: may_expire_def Let_def)
    then have two: "timers_type (timers t) = Timer_two" "\<not> interruptible (tracker_ctx t)" using due unfolding due_def by blast+
    let ?u = "(disarm_minimum t)\<lparr>tracker_ctx := (tracker_ctx t)\<lparr>interruptible := True\<rparr>\<rparr>"
    have eq: "tracker_timeout_handler now k longer m = Inr (set_tracker k ?u m)"
      using t False two by (simp add: tracker_timeout_handler_def update_tracker_def tracker_at_some disarm_minimum_def)
    have "due ?u" using due two(1) by (simp add: due_def disarm_minimum_def ev_stop_def)
    then have "tracker_ok True False ?u" using ok by (simp add: tracker_ok_def addressed_def disarm_minimum_def urls_def)
    moreover have "\<not> ev_active (minimum (timers ?u)) \<and> ev_active (maximum (timers ?u))"
      using due by (simp add: due_def disarm_minimum_def ev_stop_def)
    ultimately show ?thesis using inv_set [OF inv t, of ?u] eq k False
      by (intro exI [of _ "set_tracker k ?u m"] conjI) (auto simp: disarm_minimum_def)
  qed
qed

section \<open>Answers\<close>

text \<open>How a request ends once its tracker has been dealt with.\<close>

definition finish_request :: "string \<Rightarrow> tracker_manager \<Rightarrow> fault + tracker_manager" where
  "finish_request k m = bind_fault (update_tracker k (\<lambda>t. t\<lparr>user_space := (user_space t)\<lparr>body := []\<rparr>\<rparr>) m)
     (\<lambda>m. Inr (m\<lparr>protocol := http_rmv_request k (protocol m)\<rparr>))"

lemma reset_ok: "tracker_ok True False u \<Longrightarrow> tracker_ok False False (shutdown_reset u)"
  by (auto simp: tracker_ok_def addressed_def shutdown_reset_def stopped_def timers_reset_def context_reset_def announce_reset_def
      ev_stop_def urls_def)

lemma land:
  assumes inv: "tracker_inv m" and k: "k \<in> flying m" and t: "tracker_connections m k = Some t"
    and m1: "tracker_connections m1 = (tracker_connections m)(k \<mapsto> u)" "manager_space m1 = manager_space m" "protocol m1 = protocol m"
      "tracker_context m1 = tracker_context m"
    and u: "tracker_ok True False u"
  shows "\<exists>m'. bind_fault (back_or_reset k m1) (finish_request k) = Inr m' \<and> tracker_inv m' \<and> same_world m m'
    \<and> flying m' = flying m - {k} \<and> idle m' = (if context_active (tracker_context m) then insert k (idle m) else idle m)
    \<and> (\<forall>j. j \<noteq> k \<longrightarrow> tracker_connections m' j = tracker_connections m j)"
proof -
  have ok: "tracker_ok (k \<in> idle m) True t" using inv_tracker [OF inv t] k by simp
  then have k': "k \<notin> idle m" by (auto simp: tracker_ok_def)
  have http: "has_http (tracker_ctx u) = has_http (tracker_ctx t)" using ok u by (simp add: tracker_ok_def)
  have inv_m: "space_inv m" using inv by (simp add: tracker_inv_def)
  have inv_1: "space_inv m1" using inv_m k' unfolding space_inv_def m1 by (metis fun_upd_other nth_mem)
  define w where "w = (if context_active (tracker_context m) then u\<lparr>tracker_ctx := (tracker_ctx u)\<lparr>manager_space_idx := length (manager_space m)\<rparr>\<rparr>
      else shutdown_reset u)"
  let ?w = "w\<lparr>user_space := (user_space w)\<lparr>body := []\<rparr>\<rparr>"
  let ?m = "m1\<lparr>tracker_connections := (tracker_connections m)(k \<mapsto> ?w), protocol := http_rmv_request k (protocol m),
    manager_space := manager_space m @ (if context_active (tracker_context m) then [k] else [])\<rparr>"
  have eq: "bind_fault (back_or_reset k m1) (finish_request k) = Inr ?m"
    by (simp add: back_or_reset_def m1 return_to_manager_space_def update_tracker_def tracker_at_def set_tracker_def finish_request_def w_def)
  have v: "views ?m = (views m)(k \<mapsto> view ?w)" by (auto simp: views_def)
  have vj: "views ?m j = views m j" if "j \<noteq> k" for j unfolding v using that by simp
  have vk: "views ?m k = Some (view ?w)" by (simp only: v fun_upd_same)
  have sp: "space_inv ?m"
  proof (cases "context_active (tracker_context m)")
    case True
    have "space_inv ((set_tracker k ?w m)\<lparr>manager_space := manager_space m @ [k]\<rparr>)"
      by (rule space_inv_append [OF inv_m k']) (simp add: w_def True)
    then show ?thesis using True by (simp add: space_inv_def)
  next
    case False
    have "space_inv (set_tracker k ?w m)" by (rule space_set [OF inv_m t]) (use k' in simp)
    then show ?thesis using False by (simp add: space_inv_def)
  qed
  have ok_w: "tracker_ok (k \<in> idle ?m) (k \<in> flying ?m) (view ?w)"
  proof (cases "context_active (tracker_context m)")
    case True
    then have "view w = view u" by (simp add: w_def view_def)
    then have "tracker_ok True False w" using u by (metis status_view(4))
    then show ?thesis using True by (simp add: http_rmv_request_def)
  next
    case False
    then show ?thesis using reset_ok [OF u] k' by (simp add: w_def http_rmv_request_def)
  qed
  have "tracker_inv ?m"
    by (rule tracker_inv_step [OF inv sp vj _ _ vk ok_w]) (auto simp: http_rmv_request_def)
  moreover have "https ?m = https m"
    by (rule https_step [OF vj views_some [OF t] vk]) (use http in \<open>auto simp: w_def shutdown_reset_def context_reset_def\<close>)
  ultimately show ?thesis using eq m1(4) by (intro exI [of _ ?m]) (auto simp: same_world_def http_rmv_request_def)
qed

lemma note_failure_simps [simp]:
  "urls (note_failure t) = urls t" "current_idx (announce_url (note_failure t)) = current_idx (announce_url t)"
  "tracker_ctx (note_failure t) = tracker_ctx t" "minimum (timers (note_failure t)) = minimum (timers t)"
  "timers_type (timers (note_failure t)) = Timer_one" "tracker_state (note_failure t) = Tracker_inactive"
  "seek_fuel (note_failure t) = seek_fuel t"
  by (simp_all add: note_failure_def urls_def seek_fuel_def Let_def)

lemma at_url_more [simp]:
  "tracker_ctx (at_url i t) = tracker_ctx t" "timers (at_url i t) = timers t" "tracker_state (at_url i t) = tracker_state t"
  "current_proto (at_url i t) = (if is_http (urls t ! i) then Proto_http else Proto_udp)"
  "urls (t\<lparr>tracker_ctx := c\<rparr>) = urls t" "urls (t\<lparr>timers := ti\<rparr>) = urls t"
  by (simp_all add: at_url_def urls_def)

lemma inactive_result:
  assumes t: "tracker_connections m k = Some t" "addressed t" "has_http (tracker_ctx t)" "url_failures (tracker_ctx t) \<le> 4" "stopped t"
  shows "\<exists>u. inactive_state_handler k m = back_or_reset k (set_tracker k u m) \<and> tracker_ok True False u"
proof -
  let ?t = "note_failure t"
  obtain i where i: "i < length (urls t)" "is_http (urls t ! i)"
    "seek_http (seek_fuel t) ?t = Inr (failed_idx (announce_url ?t) = i, at_url i ?t)"
    using seek_http_finds [of ?t] t(2,3) unfolding addressed_def Let_def note_failure_simps
    by (metis mod_less_divisor length_pos_if_in_set)
  have ok: "tracker_ok True False (arm_maximum d ((at_url i ?t)\<lparr>tracker_ctx := (tracker_ctx t)\<lparr>url_failures := n\<rparr>, timers := (timers ?t)\<lparr>maximum_duration := d'\<rparr>\<rparr>))"
    if "n \<le> 5" for d d' n
  proof -
    have "\<not> ev_active (minimum (timers t))" using t(5) by (simp add: stopped_def)
    then show ?thesis using i(1,2) t(2,3) that
      by (simp add: tracker_ok_def addressed_def due_def arm_maximum_def arm_timer_def)
  qed
  show ?thesis
  proof (cases "failed_idx (announce_url ?t) = i")
    case True
    let ?n = "url_failures (tracker_ctx t)"
    have n: "sz_add ?n (Suc 0) = Suc ?n" using t(4) by (simp add: sz_add_id sz_modulus_def)
    let ?u = "(at_url i ?t)\<lparr>tracker_ctx := (tracker_ctx t)\<lparr>url_failures := Suc ?n\<rparr>\<rparr>"
    have "get_retry_seconds ?u = Inr (retry_wait (Suc ?n))" using t(4) by (simp add: retry_seconds)
    then show ?thesis using i True t(1,4) n ok [of "Suc ?n"]
      by (auto simp: inactive_state_handler_def tracker_at_some at_url_def Let_def)
  next
    case False
    let ?u = "(at_url i ?t)\<lparr>timers := (timers ?t)\<lparr>maximum_duration := 5\<rparr>\<rparr>"
    have same: "(at_url i ?t)\<lparr>tracker_ctx := (tracker_ctx t)\<lparr>url_failures := url_failures (tracker_ctx t)\<rparr>,
        timers := (timers ?t)\<lparr>maximum_duration := 5\<rparr>\<rparr> = ?u"
      by (simp add: at_url_def)
    have "url_failures (tracker_ctx t) \<le> 5" using t(4) by simp
    from ok [OF this, of 5 5] have "tracker_ok True False (arm_maximum 5 ?u)" unfolding same .
    moreover have "inactive_state_handler k m = back_or_reset k (set_tracker k (arm_maximum 5 ?u) m)"
      using i(3) False t(1) by (simp add: inactive_state_handler_def tracker_at_some Let_def)
    ultimately show ?thesis by blast
  qed
qed

text \<open>Answers of the form that the protocol asks for.\<close>

fun is_integer :: "data \<Rightarrow> bool" where
  "is_integer (Data (Integer _) _) = True"
| "is_integer _ = False"

fun is_string :: "data \<Rightarrow> bool" where
  "is_string (Data (String _) _) = True"
| "is_string _ = False"

definition if_present :: "(data \<Rightarrow> bool) \<Rightarrow> data option \<Rightarrow> bool" where
  "if_present P v \<longleftrightarrow> (case v of None \<Rightarrow> True | Some x \<Rightarrow> P x)"

fun entry_ok :: "data \<Rightarrow> bool" where
  "entry_ok (Data (Dictionary d) _) \<longleftrightarrow> if_present is_string (ben_find ''peer id'' d) \<and> if_present is_string (ben_find ''ip'' d)
     \<and> if_present is_integer (ben_find ''port'' d)"
| "entry_ok _ \<longleftrightarrow> False"

definition peers_ok :: "dictionary \<Rightarrow> bool" where
  "peers_ok d \<longleftrightarrow> (case ben_find ''peers'' d of
     None \<Rightarrow> False
   | Some (Data (String text) _) \<Rightarrow> text \<noteq> [] \<and> length text mod 6 = 0
   | Some (Data (List ps) _) \<Rightarrow> (\<forall>p\<in>set ps. entry_ok p)
   | Some _ \<Rightarrow> True)"

definition answer_ok :: "dictionary \<Rightarrow> tracker \<Rightarrow> bool" where
  "answer_ok d t \<longleftrightarrow> peers_ok d \<and> (case response_fields d t of
     Inl _ \<Rightarrow> False
   | Inr u \<Rightarrow> timers_type (timers u) = Timer_two \<longrightarrow> minimum_duration (timers u) < maximum_duration (timers u))"

lemma is_integerE: "is_integer v \<Longrightarrow> \<exists>n. get_as_integer v = Inr n"
  by (cases v rule: is_integer.cases) simp_all

lemma is_stringE: "is_string v \<Longrightarrow> \<exists>s. get_as_string v = Inr s"
  by (cases v rule: is_string.cases) simp_all

lemma same_discoveries: "\<exists>d. m = m\<lparr>discoveries := d\<rparr>" for m :: tracker_manager
  by (rule exI [of _ "discoveries m"]) simp

lemma push_frame: "\<exists>d. snd (discoveries_push c m) = m\<lparr>discoveries := d\<rparr>"
  by (cases m) (simp add: discoveries_push_def)

lemma compact_frame: "\<exists>d. snd (compact_peers bytes notify m) = m\<lparr>discoveries := d\<rparr>"
proof (induction bytes notify m rule: compact_peers.induct)
  case (1 a b c d p q rest notify m)
  let ?e = "new_contact\<lparr>is_v6 := False, n_addr := write_at 0 [a, b, c, d] (n_addr new_contact), n_port := port_of_bytes [p, q]\<rparr>"
  obtain pushed m1 where push: "discoveries_push ?e m = (pushed, m1)" by (cases "discoveries_push ?e m")
  obtain x where x: "m1 = m\<lparr>discoveries := x\<rparr>" using push_frame [of ?e m] push by auto
  obtain y where "snd (compact_peers rest (if pushed \<and> \<not> notify then True else notify) m1) = m1\<lparr>discoveries := y\<rparr>"
    using 1 [OF refl refl, of pushed m1] push by metis
  then show ?case unfolding compact_peers.simps Let_def push prod.case using x by (intro exI [of _ y]) simp
qed (simp_all add: same_discoveries)

lemma list_peer_total: "entry_ok (Data (Dictionary d) pos) \<Longrightarrow> \<exists>e. list_peer inet_pton d = Inr e"
proof -
  assume "entry_ok (Data (Dictionary d) pos)"
  then have a: "ben_find ''peer id'' d = Some v \<Longrightarrow> \<exists>s. get_as_string v = Inr s" "ben_find ''ip'' d = Some v \<Longrightarrow> \<exists>s. get_as_string v = Inr s"
    "ben_find ''port'' d = Some v \<Longrightarrow> \<exists>n. get_as_integer v = Inr n" for v
    using is_stringE is_integerE by (auto simp: if_present_def)
  obtain e0 where e0: "(case ben_find ''peer id'' d of
         None \<Rightarrow> Inr new_contact
       | Some found_value \<Rightarrow> bind_fault (get_as_string found_value) (\<lambda>id_text.
           Inr (if length id_text = 20 then new_contact\<lparr>peer_id := Some (as_bytes id_text)\<rparr> else new_contact))) = Inr e0"
    using a(1) by (cases "ben_find ''peer id'' d") auto
  show ?thesis unfolding list_peer_def e0 bind_fault.simps
    by (cases "ben_find ''ip'' d"; cases "ben_find ''port'' d") (use a(2,3) in \<open>fastforce simp: Let_def split: option.split\<close>)+
qed

lemma list_peers_total:
  "\<forall>p\<in>set ps. entry_ok p \<Longrightarrow> \<exists>b d. list_peers inet_pton ps notify m = Inr (b, m\<lparr>discoveries := d\<rparr>)"
proof (induction ps arbitrary: notify m)
  case Nil
  then show ?case by (cases m) simp
next
  case (Cons p ps)
  obtain d pos where p: "p = Data (Dictionary d) pos" using Cons.prems by (cases p rule: entry_ok.cases) auto
  obtain e where e: "list_peer inet_pton d = Inr e" using list_peer_total [of d pos] Cons.prems p by auto
  show ?case
  proof (cases e)
    case None
    then show ?thesis using Cons e p by simp
  next
    case (Some c)
    obtain pushed m1 where push: "discoveries_push c m = (pushed, m1)" by (cases "discoveries_push c m")
    obtain x where x: "m1 = m\<lparr>discoveries := x\<rparr>" using push_frame [of c m] push by auto
    obtain b y where "list_peers inet_pton ps (if pushed \<and> \<not> notify then True else notify) m1 = Inr (b, m1\<lparr>discoveries := y\<rparr>)"
      using Cons.IH Cons.prems by (metis list.set_intros(2))
    then show ?thesis using Some e p push x by (intro exI [of _ b] exI [of _ y]) (simp add: Let_def)
  qed
qed

lemma peers_total:
  assumes "peers_ok d"
  shows "\<exists>x c. response_peers inet_pton d m = Inr (True, m\<lparr>discoveries := x, consumer_pending := c\<rparr>)"
proof -
  obtain v pos where v: "ben_find ''peers'' d = Some (Data v pos)" using assms by (auto simp: peers_ok_def split: option.splits data.splits)
  have wake: "\<exists>x c. (if b then (m\<lparr>discoveries := y\<rparr>)\<lparr>consumer_pending := True\<rparr> else m\<lparr>discoveries := y\<rparr>) = m\<lparr>discoveries := x, consumer_pending := c\<rparr>"
    for b y by (cases b; cases m) auto
  show ?thesis
  proof (cases v)
    case (String str)
    have "as_bytes str \<noteq> []" "length (as_bytes str) mod 6 = 0" using assms v String by (simp_all add: peers_ok_def as_bytes_def)
    moreover obtain b y where "compact_peers (as_bytes str) False m = (b, m\<lparr>discoveries := y\<rparr>)"
      using compact_frame [of "as_bytes str" False m] by (cases "compact_peers (as_bytes str) False m") auto
    ultimately show ?thesis using v String wake [of b y] by (simp add: response_peers_def Let_def)
  next
    case (List ps)
    have "\<forall>p\<in>set ps. entry_ok p" using assms v List by (simp add: peers_ok_def)
    then obtain b y where "list_peers inet_pton ps False m = Inr (b, m\<lparr>discoveries := y\<rparr>)" using list_peers_total by metis
    then show ?thesis using v List wake [of b y] by (simp add: response_peers_def)
  next
    case (Integer n)
    then show ?thesis using v wake [of False "discoveries m"] by (simp add: response_peers_def)
  next
    case (Dictionary e)
    then show ?thesis using v wake [of False "discoveries m"] by (simp add: response_peers_def)
  qed
qed

lemma fields_keep:
  assumes "response_fields d t = Inr u"
  shows "urls u = urls t" "current_idx (announce_url u) = current_idx (announce_url t)" "tracker_ctx u = (tracker_ctx t)\<lparr>url_failures := 0\<rparr>"
    "current_proto u = current_proto t" "tracker_state u = Tracker_active" "minimum (timers u) = minimum (timers t)"
    "maximum (timers u) = maximum (timers t)"
  using assms unfolding response_fields_def Let_def
  by (auto simp: urls_def elim!: bind_faultE split: option.split_asm if_split_asm)

lemma armed_ok:
  assumes "tracker_ok False True t" and "response_fields d t = Inr u"
    and "timers_type (timers u) = Timer_two \<longrightarrow> minimum_duration (timers u) < maximum_duration (timers u)"
  shows "tracker_ok True False (arm_response_timers u)"
proof -
  note keep = fields_keep [OF assms(2)]
  have "\<not> ev_active (minimum (timers u))" using assms(1) keep(6) by (simp add: tracker_ok_def stopped_def)
  moreover have "timers_type (timers u) = Timer_one \<or> timers_type (timers u) = Timer_two" by (cases "timers_type (timers u)") simp_all
  ultimately have "due (arm_response_timers u)"
    using assms(3) keep(5) by (auto simp: due_def arm_response_timers_def arm_maximum_def arm_minimum_def arm_timer_def Let_def)
  then show ?thesis using assms(1) keep
    by (auto simp: tracker_ok_def addressed_def arm_response_timers_def arm_maximum_def arm_minimum_def urls_def Let_def)
qed

text \<open>What a message may say about a request in flight.\<close>

definition message_ok :: "curl_message \<Rightarrow> tracker \<Rightarrow> bool" where
  "message_ok msg t \<longleftrightarrow>
     (if result_ok msg \<and> http_res_code msg = 200 \<and> body (user_space t) \<noteq> []
      then (case decode_input (body (user_space t)) of
              Some (Data (Dictionary d) _) \<Rightarrow>
                if ben_contains ''failure reason'' d then url_failures (tracker_ctx t) \<le> 4
                else answer_ok d (t\<lparr>tracker_ctx := (tracker_ctx t)\<lparr>online := True\<rparr>\<rparr>)
            | _ \<Rightarrow> False)
      else url_failures (tracker_ctx t) \<le> 4)"

lemma online_ok [simp]: "tracker_ok i f (t\<lparr>tracker_ctx := (tracker_ctx t)\<lparr>online := b\<rparr>\<rparr>) = tracker_ok i f t"
  by (simp add: tracker_ok_def addressed_def due_def stopped_def urls_def)

lemma message_inv:
  assumes inv: "tracker_inv m" and k: "easy_handle msg \<in> flying m"
    and t: "tracker_connections m (easy_handle msg) = Some t" and ok: "message_ok msg t"
  shows "\<exists>m'. tracker_messages inet_pton [msg] m = Inr m' \<and> tracker_inv m' \<and> same_world m m'
    \<and> (if \<not> done_message msg then m' = m
       else flying m' = flying m - {easy_handle msg}
         \<and> idle m' = (if context_active (tracker_context m) then insert (easy_handle msg) (idle m) else idle m)
         \<and> (\<forall>j. j \<noteq> easy_handle msg \<longrightarrow> tracker_connections m' j = tracker_connections m j))"
proof (cases "done_message msg")
  case False
  then show ?thesis using inv by (simp add: tracker_messages_def same_world_def)
next
  case True
  let ?k = "easy_handle msg"
  have t_ok: "tracker_ok False True t" using inv_tracker [OF inv t] k by (cases "?k \<in> idle m") (simp_all add: tracker_ok_def)
  let ?handler = "if result_ok msg \<and> http_res_code msg = 200 then do_on_success inet_pton ?k m else do_on_failure ?k m"
  have eq: "tracker_messages inet_pton [msg] m = bind_fault ?handler (finish_request ?k)"
    using True by (simp add: tracker_messages_def finish_request_def [abs_def] Let_def)
  have inactive: "\<exists>u. inactive_state_handler ?k (set_tracker ?k (t\<lparr>tracker_ctx := (tracker_ctx t)\<lparr>online := b\<rparr>\<rparr>) m) =
      back_or_reset ?k (set_tracker ?k u m) \<and> tracker_ok True False u" if "url_failures (tracker_ctx t) \<le> 4" for b
    using inactive_result [of "set_tracker ?k (t\<lparr>tracker_ctx := (tracker_ctx t)\<lparr>online := b\<rparr>\<rparr>) m" ?k] that t_ok
    by (fastforce simp: tracker_ok_def addressed_def stopped_def urls_def)
  have "\<exists>m1 u. ?handler = back_or_reset ?k m1 \<and> tracker_connections m1 = (tracker_connections m)(?k \<mapsto> u) \<and> manager_space m1 = manager_space m
      \<and> protocol m1 = protocol m \<and> tracker_context m1 = tracker_context m \<and> tracker_ok True False u" (is "\<exists>m1 u. ?lands m1 u")
  proof -
    have failed: "\<exists>m1 u. ?lands m1 u"
      if "?handler = inactive_state_handler ?k (set_tracker ?k (t\<lparr>tracker_ctx := (tracker_ctx t)\<lparr>online := b\<rparr>\<rparr>) m)"
        "url_failures (tracker_ctx t) \<le> 4" for b
    proof -
      note small = that(2)
      obtain u where "inactive_state_handler ?k (set_tracker ?k (t\<lparr>tracker_ctx := (tracker_ctx t)\<lparr>online := b\<rparr>\<rparr>) m) =
          back_or_reset ?k (set_tracker ?k u m)" "tracker_ok True False u" using inactive [OF small, of b] by blast
      then show ?thesis using that(1) by (intro exI [of _ "set_tracker ?k u m"] exI [of _ u]) simp
    qed
    show ?thesis
    proof (cases "result_ok msg \<and> http_res_code msg = 200 \<and> body (user_space t) \<noteq> []")
      case False
      then show ?thesis using ok failed [of True] failed [of False] t
        by (auto simp: message_ok_def do_on_success_def do_on_failure_def update_tracker_def tracker_at_some Let_def)
    next
      case nonempty: True
      then obtain d pos where d: "decode_input (body (user_space t)) = Some (Data (Dictionary d) pos)"
        using ok by (auto simp: message_ok_def split: option.splits data.splits variant.splits)
      let ?t = "t\<lparr>tracker_ctx := (tracker_ctx t)\<lparr>online := True\<rparr>\<rparr>"
      show ?thesis
      proof (cases "ben_contains ''failure reason'' d")
        case True
        then show ?thesis using ok nonempty d failed [of True] t by (simp add: message_ok_def do_on_success_def tracker_at_some Let_def)
      next
        case False
        then have "answer_ok d ?t" using ok nonempty d by (simp add: message_ok_def)
        then obtain u where u: "peers_ok d" "response_fields d ?t = Inr u"
          "timers_type (timers u) = Timer_two \<longrightarrow> minimum_duration (timers u) < maximum_duration (timers u)"
          by (auto simp: answer_ok_def split: sum.splits)
        let ?m = "set_tracker ?k u m"
        obtain x c where r: "response_peers inet_pton d ?m = Inr (True, ?m\<lparr>discoveries := x, consumer_pending := c\<rparr>)"
          using peers_total [OF u(1)] by blast
        let ?u = "arm_response_timers u"
        have "?handler = back_or_reset ?k (set_tracker ?k ?u (?m\<lparr>discoveries := x, consumer_pending := c\<rparr>))"
          using nonempty d False t u(2) r
          by (simp add: do_on_success_def tracker_at_some active_state_handler_def update_tracker_def tracker_at_def Let_def)
        moreover have "tracker_ok True False ?u" by (rule armed_ok [OF _ u(2,3)]) (use t_ok in simp)
        ultimately show ?thesis by (intro exI [of _ "set_tracker ?k ?u (?m\<lparr>discoveries := x, consumer_pending := c\<rparr>)"] exI [of _ ?u]) simp
      qed
    qed
  qed
  then obtain m1 u where m1: "?handler = back_or_reset ?k m1" "tracker_connections m1 = (tracker_connections m)(?k \<mapsto> u)"
      "manager_space m1 = manager_space m" "protocol m1 = protocol m" "tracker_context m1 = tracker_context m" "tracker_ok True False u"
    by blast
  show ?thesis using land [OF inv k t m1(2-6)] eq m1(1) True by simp
qed

section \<open>The event loop\<close>

definition sound :: "tracker_manager \<Rightarrow> bool" where
  "sound m \<longleftrightarrow> tracker_inv m \<and> settled m"

lemma inv_frame [simp]:
  "tracker_inv (set_active b m) = tracker_inv m" "https (set_active b m) = https m" "idle (set_active b m) = idle m"
  "flying (set_active b m) = flying m" "tracker_inv (m\<lparr>event_set := e\<rparr>) = tracker_inv m" "https (m\<lparr>event_set := e\<rparr>) = https m"
  "tracker_inv (m\<lparr>signal_pending := s\<rparr>) = tracker_inv m" "https (m\<lparr>signal_pending := s\<rparr>) = https m"
  "context_active (tracker_context (set_active b m)) = b" "views (set_active b m) = views m"
  by (simp_all add: set_active_def tracker_inv_def https_def space_inv_def)

lemma sound_frame [simp]:
  "sound (m\<lparr>event_set := e\<rparr>) = sound m" "sound (m\<lparr>signal_pending := s\<rparr>) = sound m"
  by (simp_all add: sound_def settled_def)

lemma start_sound:
  assumes "sound m" and "startable m" and "distinct order" and "set order = dom (tracker_connections m)"
  shows "\<exists>m'. start_event order now m = Inr m' \<and> sound (set_active True m')"
  using start_event_inv [of m order now] assms by (fastforce simp: sound_def settled_def)

lemma shutdown_sound: "sound m \<Longrightarrow> \<exists>m'. shutdown_event m = Inr m' \<and> sound (set_active False m')"
  using shut.visits_each_once [of "tracker_context m" "https m" m]
  by (auto simp: sound_def settled_def running_def shutdown_event_def)

lemma loop_sound:
  assumes "sound m" and "running (tracker_context m) (https m) m'" and "idle m' = {k \<in> idle m. \<not> P k}" and "flying m' = flying m \<union> {k \<in> idle m. P k}"
  shows "sound m'"
proof -
  have "idle m' \<union> flying m' = idle m \<union> flying m" using assms(3,4) by blast
  then show ?thesis using assms unfolding sound_def settled_def running_def by (auto split: if_splits)
qed

lemma force_sound:
  assumes "sound m"
  shows "\<exists>m'. force_reannounce_event m = Inr m' \<and> sound m'"
proof -
  have "running (tracker_context m) (https m) m" using assms by (simp add: running_def sound_def)
  from forced_run.visits_each_once [OF this] show ?thesis using loop_sound [OF assms] unfolding force_reannounce_event_def by blast
qed

lemma reannounce_sound:
  assumes "sound m"
  shows "\<exists>m'. reannounce_event m = Inr m' \<and> sound m'"
proof -
  have "running (tracker_context m) (https m) m" using assms by (simp add: running_def sound_def)
  from renewed_run.visits_each_once [OF this] show ?thesis using loop_sound [OF assms] unfolding reannounce_event_def by blast
qed

lemma handle_event_sound:
  assumes m: "sound m" and start: "has_event start_mask (event_set m) \<Longrightarrow> \<not> context_active (tracker_context m) \<Longrightarrow>
    startable m \<and> distinct order \<and> set order = dom (tracker_connections m)"
  shows "\<exists>m'. handle_event order now late m = Inr m' \<and> sound m'"
proof -
  let ?e = "event_set m"
  obtain m1 h1 where 1: "(if has_event start_mask ?e \<and> \<not> context_active (tracker_context m)
      then bind_fault (start_event order now m) (\<lambda>m. Inr (set_active True m, 0 OR start_mask)) else Inr (m, 0)) = Inr (m1, h1)" "sound m1"
    using start_sound [OF m, of order now] start m by (cases "has_event start_mask ?e \<and> \<not> context_active (tracker_context m)") auto
  obtain m2 h2 where 2: "(if has_event shutdown_mask ?e \<and> context_active (tracker_context m1)
      then bind_fault (shutdown_event m1) (\<lambda>m. Inr (set_active False m, h1 OR (shutdown_mask OR reannounce_mask OR force_reannounce_mask)))
      else Inr (m1, h1)) = Inr (m2, h2)" "sound m2"
    using shutdown_sound [OF 1(2)] 1(2) by (cases "has_event shutdown_mask ?e \<and> context_active (tracker_context m1)") auto
  obtain m3 h3 e3 where 3: "(if has_event force_reannounce_mask ?e
      then bind_fault (force_reannounce_event m2) (\<lambda>m. Inr (m, h2 OR (force_reannounce_mask OR reannounce_mask), ?e AND NOT reannounce_mask))
      else Inr (m2, h2, ?e)) = Inr (m3, h3, e3)" "sound m3"
    using force_sound [OF 2(2)] 2(2) by (cases "has_event force_reannounce_mask ?e") auto
  obtain m4 h4 where 4: "(if has_event reannounce_mask e3
      then bind_fault (reannounce_event m3) (\<lambda>m. Inr (m, h3 OR reannounce_mask)) else Inr (m3, h3)) = Inr (m4, h4)" "sound m4"
    using reannounce_sound [OF 3(2)] 3(2) by (cases "has_event reannounce_mask e3") auto
  show ?thesis
  proof (cases "context_active (tracker_context m2)")
    case True
    then show ?thesis using 4(2)
      by (intro exI [of _ "let m = m4\<lparr>event_set := (event_set m4 OR late) AND NOT h4\<rparr>
          in if (event_set m4 OR late) AND NOT h4 \<noteq> 0 then m\<lparr>signal_pending := True\<rparr> else m"])
        (simp add: handle_event_def Let_def 1(1) 2(1) 3(1) 4(1))
  next
    case False
    then show ?thesis using 2(2)
      by (intro exI [of _ "let m = m2\<lparr>event_set := (event_set m2 OR late) AND NOT h2\<rparr>
          in if (event_set m2 OR late) AND NOT h2 \<noteq> 0 then m\<lparr>signal_pending := True\<rparr> else m"])
        (simp add: handle_event_def Let_def 1(1) 2(1))
  qed
qed

text \<open>What wakes the loop: a timer, data and messages from \<open>libcurl\<close>, and requests of other threads.\<close>

datatype tracker_step =
    Tracker_timeout string bool int
  | Tracker_data string string
  | Tracker_message curl_message
  | Tracker_request event_mask
  | Tracker_signal "string list" int event_mask

fun tracker_enabled :: "tracker_step \<Rightarrow> tracker_manager \<Rightarrow> bool" where
  "tracker_enabled (Tracker_timeout k longer now) m \<longleftrightarrow>
     (case tracker_connections m k of None \<Rightarrow> False | Some t \<Rightarrow> may_expire longer t)"
| "tracker_enabled (Tracker_data k bytes) m \<longleftrightarrow> k \<in> flying m"
| "tracker_enabled (Tracker_message msg) m \<longleftrightarrow> easy_handle msg \<in> flying m \<and>
     (case tracker_connections m (easy_handle msg) of None \<Rightarrow> False | Some t \<Rightarrow> message_ok msg t)"
| "tracker_enabled (Tracker_request wanted) m \<longleftrightarrow> True"
| "tracker_enabled (Tracker_signal order now late) m \<longleftrightarrow> signal_pending m \<and>
     (has_event start_mask (event_set m) \<and> \<not> context_active (tracker_context m) \<longrightarrow>
        startable m \<and> distinct order \<and> set order = dom (tracker_connections m))"

fun tracker_handle :: "(int \<Rightarrow> string \<Rightarrow> byte list option) \<Rightarrow> tracker_step \<Rightarrow> tracker_manager \<Rightarrow> fault + tracker_manager" where
  "tracker_handle inet_pton (Tracker_timeout k longer now) m = tracker_timeout_handler now k longer m"
| "tracker_handle inet_pton (Tracker_data k bytes) m = tracker_receive k bytes m"
| "tracker_handle inet_pton (Tracker_message msg) m = tracker_messages inet_pton [msg] m"
| "tracker_handle inet_pton (Tracker_request wanted) m = Inr (request_event wanted m)"
| "tracker_handle inet_pton (Tracker_signal order now late) m = handle_event order now late (m\<lparr>signal_pending := False\<rparr>)"

inductive tracker_reachable :: "(int \<Rightarrow> string \<Rightarrow> byte list option) \<Rightarrow> tracker_manager \<Rightarrow> bool" for inet_pton where
  start: "new_tracker_manager curl_escape torrent listening_port = Inr m \<Longrightarrow>
    \<forall>t\<in>ran (tracker_connections m). length (urls t) < 2 ^ 63 \<Longrightarrow> tracker_reachable inet_pton m"
| step: "tracker_reachable inet_pton m \<Longrightarrow> tracker_enabled e m \<Longrightarrow> tracker_handle inet_pton e m = Inr m' \<Longrightarrow>
    tracker_reachable inet_pton m'"

lemma settled_step:
  assumes "sound m" and "tracker_inv m'" and "same_world m m'" and "idle m' \<union> flying m' = idle m \<union> flying m" and "idle m = {} \<longrightarrow> idle m' = {}"
  shows "sound m'"
  using assms by (auto simp: sound_def settled_def same_world_def split: if_splits)

lemma tracker_handle_sound:
  assumes m: "sound m" and e: "tracker_enabled e m"
  shows "\<exists>m'. tracker_handle inet_pton e m = Inr m' \<and> sound m'"
proof (cases e)
  case (Tracker_timeout k longer now)
  then obtain t where t: "tracker_connections m k = Some t" "may_expire longer t" using e by (auto split: option.splits)
  have "tracker_inv m" using m by (simp add: sound_def)
  from timeout_inv [OF this t, of now] show ?thesis using settled_step [OF m] Tracker_timeout by fastforce
next
  case (Tracker_data k bytes)
  have inv: "tracker_inv m" using m by (simp add: sound_def)
  obtain t where t: "tracker_connections m k = Some t" using inv_flying [OF inv, of k] e Tracker_data by auto
  let ?u = "t\<lparr>user_space := the (snd (easy_callback bytes 1 (length bytes) (Some (user_space t))))\<rparr>"
  have "tracker_ok (k \<in> idle m) (k \<in> flying m) ?u" using inv_tracker [OF inv t] by simp
  then have "tracker_inv (set_tracker k ?u m)" "same_world m (set_tracker k ?u m)" by (intro inv_set [OF inv t]; simp)+
  then have "sound (set_tracker k ?u m)" using settled_step [OF m, of "set_tracker k ?u m"] by simp
  then show ?thesis using t Tracker_data by (simp add: tracker_receive_def update_tracker_def tracker_at_some)
next
  case (Tracker_message msg)
  then obtain t where t: "tracker_connections m (easy_handle msg) = Some t" "message_ok msg t" "easy_handle msg \<in> flying m"
    using e by (auto split: option.splits)
  have inv: "tracker_inv m" using m by (simp add: sound_def)
  obtain m' where m': "tracker_messages inet_pton [msg] m = Inr m'" "tracker_inv m'" "same_world m m'"
    "if \<not> done_message msg then m' = m else flying m' = flying m - {easy_handle msg}
         \<and> idle m' = (if context_active (tracker_context m) then insert (easy_handle msg) (idle m) else idle m)
         \<and> (\<forall>j. j \<noteq> easy_handle msg \<longrightarrow> tracker_connections m' j = tracker_connections m j)"
    using message_inv [OF inv t(3,1,2)] by blast
  have "sound m'" using m m'(2,3,4) t(3) by (auto simp: sound_def settled_def same_world_def split: if_splits)
  then show ?thesis using m'(1) Tracker_message by simp
next
  case (Tracker_request wanted)
  then show ?thesis using m by (simp add: request_event_def)
next
  case (Tracker_signal order now late)
  then show ?thesis using handle_event_sound [of "m\<lparr>signal_pending := False\<rparr>" order now late] m e by (simp add: startable_def)
qed


text \<open>What the constructor builds.\<close>

definition fresh_tracker :: "tracker \<Rightarrow> bool" where
  "fresh_tracker t \<longleftrightarrow> tracker_state t = Tracker_null \<and> timers t = new_timers \<and> url_failures (tracker_ctx t) = 0
     \<and> current_idx (announce_url t) = 0 \<and> (has_http (tracker_ctx t) \<longrightarrow> (\<exists>u\<in>set (urls t). is_http u))"

lemma initialize_fresh:
  "initialize_trackers addresses m = Inr m' \<Longrightarrow> (\<forall>t\<in>ran (tracker_connections m). fresh_tracker t) \<Longrightarrow>
   (\<forall>t\<in>ran (tracker_connections m'). fresh_tracker t) \<and> manager_space m' = manager_space m \<and> protocol m' = protocol m
     \<and> tracker_context m' = tracker_context m"
proof (induction addresses m rule: initialize_trackers.induct)
  case (1 m)
  then show ?case by simp
next
  case (2 address addresses m)
  obtain key where key: "get_hostname address = Inr key" using 2(2) by (cases "get_hostname address") simp_all
  let ?t0 = "case tracker_connections m key of Some t \<Rightarrow> t | None \<Rightarrow> new_tracker\<lparr>announce_url := new_announce_list\<lparr>domain_name := key\<rparr>\<rparr>"
  let ?t1 = "if is_http address then ?t0\<lparr>tracker_ctx := (tracker_ctx ?t0)\<lparr>has_http := True\<rparr>\<rparr> else ?t0"
  let ?t2 = "if address \<in> set (url_list (announce_url ?t1)) then ?t1
     else ?t1\<lparr>announce_url := (announce_url ?t1)\<lparr>url_list := url_list (announce_url ?t1) @ [address]\<rparr>\<rparr>"
  have "fresh_tracker ?t0" using 2(3) by (auto simp: fresh_tracker_def new_tracker_def new_tracker_context_def new_announce_list_def
      ran_def split: option.split)
  then have "fresh_tracker ?t2" by (auto simp: fresh_tracker_def urls_def)
  then have fresh: "\<forall>t\<in>ran (tracker_connections (set_tracker key ?t2 m)). fresh_tracker t"
    using 2(3) by (auto simp: ran_def split: if_split_asm)
  have eq: "initialize_trackers addresses (set_tracker key ?t2 m) = Inr m'" using 2(2) by (simp add: key Let_def)
  from 2(1) [OF key refl refl refl eq fresh] show ?case unfolding tracker_update .
qed

lemma constructed_sound:
  assumes m: "new_tracker_manager curl_escape torrent listening_port = Inr m" and short: "\<forall>t\<in>ran (tracker_connections m). length (urls t) < 2 ^ 63"
  shows "sound m"
proof -
  have made: "(\<forall>t\<in>ran (tracker_connections m). fresh_tracker t) \<and> manager_space m = [] \<and> protocol m = new_http_handler
      \<and> \<not> context_active (tracker_context m)"
    using m unfolding new_tracker_manager_def Let_def
    by (auto elim!: bind_faultE dest!: initialize_fresh)
  then have "tracker_ok False False v" if v: "views m k = Some v" for k v
  proof -
    obtain t where t: "tracker_connections m k = Some t" "v = view t" using v by (auto simp: views_def)
    then have "t \<in> ran (tracker_connections m)" by (rule_tac ranI)
    then have "fresh_tracker t" "length (urls t) < 2 ^ 63" using made short by blast+
    then show ?thesis using t(2)
      by (auto simp: fresh_tracker_def tracker_ok_def addressed_def stopped_def new_timers_def new_ev_timer_def intro: length_pos_if_in_set)
  qed
  moreover have "space_inv m" using made by (simp add: space_inv_def)
  moreover have "multi (protocol m) = []" using made by (simp add: new_http_handler_def)
  ultimately show ?thesis using made by (simp add: sound_def settled_def tracker_inv_def)
qed

lemma tracker_reachable_sound: "tracker_reachable inet_pton m \<Longrightarrow> sound m"
proof (induction rule: tracker_reachable.induct)
  case (start curl_escape torrent listening_port m)
  then show ?case by (rule constructed_sound)
next
  case (step m e m')
  then show ?case using tracker_handle_sound [OF step.IH step.hyps(2), of inet_pton] by simp
qed


section \<open>Properties\<close>

lemma idle_runs: "tracker_ok True f t \<Longrightarrow> ev_active (maximum (timers t)) \<and> \<not> f"
  by (cases f) (simp_all add: tracker_ok_def due_def)

lemma other_stopped: "tracker_ok False f t \<Longrightarrow> \<not> ev_active (minimum (timers t)) \<and> \<not> ev_active (maximum (timers t))"
  by (simp add: tracker_ok_def stopped_def)



text \<open>C7: an idle tracker announces again after at most two of its timers have fired: a minimum timer
  that runs fires first and only marks the tracker, and the maximum timer then sends its request.\<close>

theorem idle_tracker_announces:
  assumes "tracker_reachable inet_pton m" and "k \<in> set (manager_space m)"
  shows "\<exists>t m1 m2. tracker_connections m k = Some t
    \<and> (if ev_active (minimum (timers t))
       then tracker_enabled (Tracker_timeout k False now) m \<and> tracker_handle inet_pton (Tracker_timeout k False now) m = Inr m1
       else m1 = m)
    \<and> tracker_enabled (Tracker_timeout k True later) m1 \<and> tracker_handle inet_pton (Tracker_timeout k True later) m1 = Inr m2
    \<and> k \<in> set (multi (protocol m2)) \<and> k \<notin> set (manager_space m2)"
proof -
  have inv: "tracker_inv m" using tracker_reachable_sound [OF assms(1)] by (simp add: sound_def)
  obtain t where t: "tracker_connections m k = Some t" using inv_idle [OF inv assms(2)] by blast
  have k: "k \<notin> flying m" using inv_tracker [OF inv t] assms(2) by (auto simp: tracker_ok_def)
  have last_leg: "\<exists>m2. tracker_enabled (Tracker_timeout k True later) n \<and> tracker_handle inet_pton (Tracker_timeout k True later) n = Inr m2
      \<and> k \<in> flying m2 \<and> k \<notin> idle m2"
    if n: "tracker_inv n" "tracker_connections n k = Some u" "\<not> ev_active (minimum (timers u))" "ev_active (maximum (timers u))" for n u
  proof -
    have e: "may_expire True u" using n(3,4) by (simp add: may_expire_def Let_def)
    obtain m2 where m2: "tracker_timeout_handler later k True n = Inr m2" "tracker_inv m2" "k \<in> flying m2"
      using timeout_inv [OF n(1,2) e, of later] by auto
    obtain v where v: "tracker_connections m2 k = Some v" using inv_flying [OF m2(2,3)] by blast
    have "k \<notin> idle m2" using inv_tracker [OF m2(2) v] m2(3) idle_runs [of "k \<in> flying m2" v] by metis
    then show ?thesis using e n(2) m2 by simp
  qed
  show ?thesis
  proof (cases "ev_active (minimum (timers t))")
    case False
    have "ev_active (maximum (timers t))" using inv_tracker [OF inv t] assms(2) idle_runs by (simp only:)
    from last_leg [OF inv t False this] obtain m2 where
      "tracker_enabled (Tracker_timeout k True later) m \<and> tracker_handle inet_pton (Tracker_timeout k True later) m = Inr m2
        \<and> k \<in> flying m2 \<and> k \<notin> idle m2" by blast
    then show ?thesis using t False by (intro exI [of _ t] exI [of _ m] exI [of _ m2]) (simp only: if_False simp_thms)
  next
    case True
    then have e: "may_expire False t" by (simp add: may_expire_def Let_def)
    obtain u where u: "tracker_timeout_handler now k False m = Inr (set_tracker k u m)" "tracker_inv (set_tracker k u m)"
      "\<not> ev_active (minimum (timers u))" "ev_active (maximum (timers u))"
      using timeout_inv [OF inv t e, of now] by auto
    have "tracker_connections (set_tracker k u m) k = Some u" by simp
    from last_leg [OF u(2) this u(3,4)] obtain m2 where
      "tracker_enabled (Tracker_timeout k True later) (set_tracker k u m) \<and> tracker_handle inet_pton (Tracker_timeout k True later) (set_tracker k u m) = Inr m2
        \<and> k \<in> flying m2 \<and> k \<notin> idle m2" by blast
    then show ?thesis using True e t u(1) by (intro exI [of _ t] exI [of _ "set_tracker k u m"] exI [of _ m2]) simp
  qed
qed


section \<open>Examples\<close>

text \<open>A torrent with one tracker: the manager as it is constructed, and after its start.\<close>

definition example_torrent :: torrent where
  "example_torrent = \<lparr>transcibe = [(''announce'', data_of_string ''http://t/a'')], info_hash_byte = [], is_file = True,
     download_size = 10, piece_count = 1, file_count = 1\<rparr>"

definition example_idle :: tracker where
  "example_idle = new_tracker\<lparr>tracker_ctx := new_tracker_context\<lparr>has_http := True\<rparr>,
     announce_url := new_announce_list\<lparr>domain_name := ''t'', url_list := [''http://t/a'']\<rparr>\<rparr>"

definition example_constructed :: tracker_manager where
  "example_constructed = \<lparr>started_tp = 0, event_set = 0, signal_pending = False, protocol = new_http_handler,
     tracker_context = \<lparr>uploaded = 0, downloaded = 0, left_bytes = 10, context_event = Update, announced_port = 6881, compact = 1,
       escaped_info_hash_byte = ''%12'', context_active = False\<rparr>,
     tracker_connections = [''t'' \<mapsto> example_idle], manager_space = [], discoveries = [], consumer_pending = False\<rparr>"

definition example_started :: tracker_manager where
  "example_started = example_constructed\<lparr>tracker_context := (tracker_context example_constructed)\<lparr>context_active := True\<rparr>,
     tracker_connections := [''t'' \<mapsto> started (at_url 0 example_idle)], manager_space := [''t'']\<rparr>"

lemma example_constructed: "new_tracker_manager (\<lambda>_. ''%12'') example_torrent 6881 = Inr example_constructed"
  by (simp add: new_tracker_manager_def get_tracker_urls_def example_torrent_def example_constructed_def example_idle_def
    get_hostname_def position_or_npos_def substr_def is_http_def data_of_string_def set_tracker_def ben_find_def sz_of_int_def sz_modulus_def
    new_tracker_def new_announce_list_def Let_def)

lemma example_constructed_reachable: "tracker_reachable (\<lambda>_ _. None) example_constructed"
  by (rule tracker_reachable.start [OF example_constructed]) (simp add: example_constructed_def example_idle_def urls_def)

lemmas example_fields = example_constructed_def example_started_def example_idle_def new_tracker_def new_tracker_context_def
  new_timers_def new_announce_list_def new_http_handler_def started_def at_url_def urls_def

lemma example_request: "tracker_handle f (Tracker_request start_mask) example_constructed
    = Inr (example_constructed\<lparr>event_set := start_mask, signal_pending := True\<rparr>)"
  by (simp add: request_event_def example_constructed_def)

lemma example_start: "tracker_handle f (Tracker_signal [''t''] 0 0) (example_constructed\<lparr>event_set := start_mask, signal_pending := True\<rparr>)
    = Inr example_started"
  by (simp add: handle_event_def has_event_def start_mask_def shutdown_mask_def force_reannounce_mask_def reannounce_mask_def
    start_event_def for_each_tracker_def start_tracker_def tracker_at_def set_tracker_def seek_fuel_def seek_to_next_url_def
    set_active_def is_http_def Let_def example_fields new_ev_timer_def arm_timer_def sz_add_def sz_modulus_def)


lemma example_may_start:
  "tracker_enabled (Tracker_signal [''t''] 0 0) (example_constructed\<lparr>event_set := start_mask, signal_pending := True\<rparr>)"
  by (auto simp: startable_def https_def views_def view_def example_fields split: if_splits)

lemma example_started_reachable: "tracker_reachable (\<lambda>_ _. None) example_started"
  by (rule tracker_reachable.step [OF tracker_reachable.step [OF example_constructed_reachable _ example_request] example_may_start example_start]) simp



theorem idle_tracker_announces_witness:
  "\<exists>m'. tracker_handle (\<lambda>_ _. None) (Tracker_timeout ''t'' True 40000) example_started = Inr m'
    \<and> ''t'' \<in> set (multi (protocol m')) \<and> ''t'' \<notin> set (manager_space m')"
proof -
  have f: "''t'' \<in> set (manager_space example_started)" "tracker_connections example_started ''t'' = Some (started (at_url 0 example_idle))"
    "\<not> ev_active (minimum (timers (started (at_url 0 example_idle))))"
    by (simp_all add: example_fields new_ev_timer_def)
  show ?thesis using idle_tracker_announces [OF example_started_reachable f(1), where later = 40000 and now = 0] f(2,3)
    by (auto simp del: tracker_handle.simps tracker_enabled.simps)
qed

end
