(* ===== verification/TrackerAnswers.thy ===== *)
theory TrackerAnswers
  imports TrackerSafety
begin

text \<open>
  A whole announce: from the bytes that a tracker answers, through the bencode decoder, to the
  addresses in the queue to the connection manager and the timer of the next announce.
\<close>

section \<open>An answer with a compact list\<close>

lemma decode_empty: "decode_input [] = None"
  by code_simp

text \<open>
  The bytes of an answer: an interval, perhaps a smaller minimum interval, and addresses in the
  compact form.
\<close>

definition compact_reply :: "string \<Rightarrow> int \<Rightarrow> int option \<Rightarrow> (byte list \<times> 16 word) list \<Rightarrow> bool" where
  "compact_reply bytes n mn es \<longleftrightarrow> (\<exists>d pos ip s pp. decode_input bytes = Some (Data (Dictionary d) pos)
     \<and> \<not> ben_contains ''failure reason'' d \<and> ben_find ''tracker id'' d = None
     \<and> ben_find ''interval'' d = Some (Data (Integer n) ip) \<and> 0 < n
     \<and> (case mn of None \<Rightarrow> ben_find ''min interval'' d = None
        | Some k \<Rightarrow> 0 < k \<and> k < n \<and> (\<exists>mp. ben_find ''min interval'' d = Some (Data (Integer k) mp)))
     \<and> ben_find ''peers'' d = Some (Data (String s) pp) \<and> as_bytes s = compact_form es \<and> es \<noteq> []
     \<and> (\<forall>e\<in>set es. length (fst e) = 4))"

definition answered_fields :: "int \<Rightarrow> int option \<Rightarrow> tracker \<Rightarrow> tracker" where
  "answered_fields n mn t = t\<lparr>tracker_state := Tracker_active, tracker_ctx := (tracker_ctx t)\<lparr>url_failures := 0\<rparr>,
     announce_url := (announce_url t)\<lparr>failed_idx := sz_modulus - 1, just_failed := False\<rparr>,
     timers := (timers t)\<lparr>timers_type := (if mn = None then Timer_one else Timer_two), maximum_duration := n,
       minimum_duration := (case mn of None \<Rightarrow> minimum_duration (timers t) | Some k \<Rightarrow> k)\<rparr>\<rparr>"

lemma interval_fields:
  assumes "ben_find ''interval'' d = Some (Data (Integer n) ip)" and "0 < n" and "ben_find ''tracker id'' d = None"
    and "case mn of None \<Rightarrow> ben_find ''min interval'' d = None
      | Some k \<Rightarrow> 0 < k \<and> k < n \<and> (\<exists>mp. ben_find ''min interval'' d = Some (Data (Integer k) mp))"
  shows "response_fields d t = Inr (answered_fields n mn t)"
  using assms by (cases mn) (auto simp: response_fields_def answered_fields_def Let_def)

text \<open>What is left of a tracker when such an answer has been dealt with.\<close>

definition waits :: "int \<Rightarrow> int option \<Rightarrow> tracker \<Rightarrow> bool" where
  "waits n mn u \<longleftrightarrow> body (user_space u) = [] \<and> url_failures (tracker_ctx u) = 0 \<and> tracker_state u = Tracker_active
     \<and> maximum (timers u) = \<lparr>ev_active = True, ev_after = 1000 * n\<rparr>
     \<and> (case mn of None \<Rightarrow> \<not> ev_active (minimum (timers u))
        | Some k \<Rightarrow> minimum (timers u) = \<lparr>ev_active = True, ev_after = 1000 * k\<rparr> \<and> \<not> interruptible (tracker_ctx u))"

lemma armed_waits:
  assumes "stopped t"
  shows "waits n mn ((arm_response_timers (answered_fields n mn t))\<lparr>
      tracker_ctx := (tracker_ctx (arm_response_timers (answered_fields n mn t)))\<lparr>manager_space_idx := i\<rparr>,
      user_space := v\<lparr>body := []\<rparr>\<rparr>)"
  using assms
  by (cases mn) (simp_all add: waits_def arm_response_timers_def answered_fields_def arm_maximum_def arm_minimum_def arm_timer_def
    stopped_def Let_def)

lemma reply_handled:
  assumes m: "sound m" "context_active (tracker_context m)" "length (discoveries m) \<le> 100"
    and msg: "done_message msg" "result_ok msg" "http_res_code msg = 200" "easy_handle msg \<in> set (multi (protocol m))"
    and t: "tracker_connections m (easy_handle msg) = Some t" and reply: "compact_reply (body (user_space t)) n mn es"
  shows "tracker_enabled (Tracker_message msg) m \<and> (\<exists>m' u. tracker_messages inet_pton [msg] m = Inr m'
    \<and> tracker_connections m' (easy_handle msg) = Some u \<and> waits n mn u \<and> easy_handle msg \<in> set (manager_space m')
    \<and> easy_handle msg \<notin> set (multi (protocol m'))
    \<and> discoveries m' = discoveries m @ take (100 - length (discoveries m)) (map v4_contact es)
    \<and> consumer_pending m' = (consumer_pending m \<or> length (discoveries m) < 100))"
proof -
  let ?k = "easy_handle msg"
  obtain d pos ip s pp where d: "decode_input (body (user_space t)) = Some (Data (Dictionary d) pos)" "\<not> ben_contains ''failure reason'' d"
    and fields: "\<And>t. response_fields d t = Inr (answered_fields n mn t)"
    and peers: "ben_find ''peers'' d = Some (Data (String s) pp)" "as_bytes s = compact_form es" "es \<noteq> []" "\<forall>e\<in>set es. length (fst e) = 4"
    and less: "case mn of None \<Rightarrow> True | Some k \<Rightarrow> k < n"
    using reply interval_fields unfolding compact_reply_def by (force split: option.splits)
  have inv: "tracker_inv m" using m(1) by (simp add: sound_def)
  have flies: "tracker_ok False True t" using inv_tracker [OF inv t] msg(4) idle_runs [of True t] by (cases "?k \<in> idle m") simp_all
  have nonempty: "body (user_space t) \<noteq> []" using d(1) decode_empty by (metis option.distinct(1))
  have six: "s \<noteq> [] \<and> length s mod 6 = 0"
  proof -
    have "length s = 6 * length es" using compact_length [OF peers(4)] peers(2) by (metis as_bytes_def length_map)
    then show ?thesis using peers(3) by auto
  qed
  have "message_ok msg t"
    using msg nonempty d peers(1,2) six fields less
    by (auto simp: message_ok_def answer_ok_def peers_ok_def answered_fields_def split: option.splits)
  then have e: "tracker_enabled (Tracker_message msg) m" using msg(4) t by simp
  define t1 where "t1 = t\<lparr>tracker_ctx := (tracker_ctx t)\<lparr>online := True\<rparr>\<rparr>"
  define t2 where "t2 = answered_fields n mn t1"
  define m2 where "m2 = (set_tracker ?k t2 m)\<lparr>discoveries := discoveries m @ take (100 - length (discoveries m)) (map v4_contact es),
      consumer_pending := consumer_pending m \<or> length (discoveries m) < 100\<rparr>"
  define t3 where "t3 = (arm_response_timers t2)\<lparr>tracker_ctx := (tracker_ctx (arm_response_timers t2))\<lparr>manager_space_idx := length (manager_space m)\<rparr>,
      user_space := (user_space t)\<lparr>body := []\<rparr>\<rparr>"
  define m' where "m' = m2\<lparr>tracker_connections := (tracker_connections m)(?k \<mapsto> t3), manager_space := manager_space m @ [?k],
      protocol := http_rmv_request ?k (protocol m)\<rparr>"
  have r: "response_peers inet_pton d (set_tracker ?k t2 m) = Inr (True, m2)"
    using compact_answer [OF peers, of "set_tracker ?k t2 m" inet_pton] m(3) by (simp add: m2_def)
  have success: "do_on_success inet_pton ?k m = bind_fault (update_tracker ?k arm_response_timers m2) (back_or_reset ?k)"
    using nonempty d t fields [of t1] r by (simp add: do_on_success_def tracker_at_some active_state_handler_def t1_def t2_def Let_def)
  have u: "user_space (arm_response_timers t2) = user_space t"
    by (simp add: arm_response_timers_def arm_maximum_def arm_minimum_def t2_def t1_def answered_fields_def Let_def)
  have handled: "tracker_messages inet_pton [msg] m = Inr m'"
    using msg success m(2)
    by (simp add: tracker_messages_def update_tracker_def tracker_at_def m2_def set_tracker_def back_or_reset_def
        return_to_manager_space_def m'_def t3_def u Let_def)
  have "stopped t1" using flies by (simp add: tracker_ok_def t1_def stopped_def)
  then have "waits n mn t3" using armed_waits [of t1 n mn] by (simp add: t3_def t2_def)
  then show ?thesis using e handled
    by (intro conjI exI [of _ m'] exI [of _ t3]) (simp_all add: m'_def m2_def http_rmv_request_def)
qed

text \<open>C11: a successful announce, end to end.  When the transfer of an active manager's request ends with
  status 200 and the bytes that came in are the bencoding of a dictionary with a positive interval,
  perhaps a smaller minimum interval, and a compact list of peers, then the tracker is idle again in
  a state that can be reached, its request is gone and its buffer empty, its timers run for exactly
  these intervals, and its failures are forgotten; the addresses are at the end of the queue to the
  connection manager, in order, as far as they fit, and the consumer is woken if one did.\<close>

theorem successful_announce:
  assumes "tracker_reachable inet_pton m" and "context_active (tracker_context m)" and "length (discoveries m) \<le> 100"
    and "done_message msg" and "result_ok msg" and "http_res_code msg = 200" and "easy_handle msg \<in> set (multi (protocol m))"
    and "tracker_connections m (easy_handle msg) = Some t" and "compact_reply (body (user_space t)) n mn es"
  shows "\<exists>m' u. tracker_messages inet_pton [msg] m = Inr m' \<and> tracker_reachable inet_pton m'
    \<and> tracker_connections m' (easy_handle msg) = Some u \<and> waits n mn u \<and> easy_handle msg \<in> set (manager_space m')
    \<and> easy_handle msg \<notin> set (multi (protocol m'))
    \<and> discoveries m' = discoveries m @ take (100 - length (discoveries m)) (map v4_contact es)
    \<and> consumer_pending m' = (consumer_pending m \<or> length (discoveries m) < 100)"
proof -
  note handled = reply_handled [OF tracker_reachable_sound [OF assms(1)] assms(2-), of inet_pton]
  then obtain m' where "tracker_messages inet_pton [msg] m = Inr m'" by blast
  then have "tracker_reachable inet_pton m'" using tracker_reachable.step [OF assms(1) handled [THEN conjunct1]] by simp
  then show ?thesis using handled \<open>tracker_messages inet_pton [msg] m = Inr m'\<close> by auto
qed

section \<open>Several transfers at once\<close>

text \<open>One call of \<open>libcurl\<close> brings data for any of the requests in flight: each piece is a step.\<close>

lemma deliver_reachable:
  "tracker_reachable inet_pton m \<Longrightarrow> \<forall>(k, bytes)\<in>set chunks. k \<in> set (multi (protocol m)) \<Longrightarrow>
   \<exists>m'. deliver tracker_receive chunks m = Inr m' \<and> tracker_reachable inet_pton m' \<and> protocol m' = protocol m
     \<and> manager_space m' = manager_space m \<and> tracker_context m' = tracker_context m"
proof (induction chunks arbitrary: m)
  case Nil
  then show ?case by simp
next
  case (Cons chunk chunks)
  obtain k bytes where chunk: "chunk = (k, bytes)" by fastforce
  then have e: "tracker_enabled (Tracker_data k bytes) m" using Cons.prems(2) by simp
  obtain m1 where m1: "tracker_receive k bytes m = Inr m1"
    using tracker_handle_sound [OF tracker_reachable_sound [OF Cons.prems(1)] e, of inet_pton] by auto
  then have "protocol m1 = protocol m" "manager_space m1 = manager_space m" "tracker_context m1 = tracker_context m"
    by (auto simp: tracker_receive_def update_tracker_def elim!: bind_faultE)
  moreover have "tracker_reachable inet_pton m1" using tracker_reachable.step [OF Cons.prems(1) e] m1 by simp
  ultimately show ?case using Cons.IH [of m1] Cons.prems(2) chunk m1 by auto
qed

lemma messages_Cons: "tracker_messages inet_pton (msg # msgs) m = bind_fault (tracker_messages inet_pton [msg] m) (tracker_messages inet_pton msgs)"
  by (simp add: tracker_messages_def Let_def bind_fault_assoc)

lemma messages_reachable:
  "tracker_reachable inet_pton m \<Longrightarrow> distinct (map easy_handle msgs) \<Longrightarrow>
   \<forall>msg\<in>set msgs. done_message msg \<and> easy_handle msg \<in> set (multi (protocol m))
     \<and> (\<exists>t. tracker_connections m (easy_handle msg) = Some t \<and> message_ok msg t) \<Longrightarrow>
   \<exists>m'. tracker_messages inet_pton msgs m = Inr m' \<and> tracker_reachable inet_pton m'
     \<and> set (multi (protocol m')) = set (multi (protocol m)) - easy_handle ` set msgs
     \<and> set (manager_space m') = set (manager_space m) \<union> (if context_active (tracker_context m) then easy_handle ` set msgs else {})"
proof (induction msgs arbitrary: m)
  case Nil
  then show ?case by (simp add: tracker_messages_def)
next
  case (Cons msg msgs)
  obtain t where t: "tracker_connections m (easy_handle msg) = Some t" "message_ok msg t" "easy_handle msg \<in> set (multi (protocol m))"
    "done_message msg" using Cons.prems(3) by auto
  have inv: "tracker_inv m" using tracker_reachable_sound [OF Cons.prems(1)] by (simp add: sound_def)
  obtain m1 where m1: "tracker_messages inet_pton [msg] m = Inr m1" "same_world m m1" "flying m1 = flying m - {easy_handle msg}"
    "idle m1 = (if context_active (tracker_context m) then insert (easy_handle msg) (idle m) else idle m)"
    "\<forall>j. j \<noteq> easy_handle msg \<longrightarrow> tracker_connections m1 j = tracker_connections m j"
    using message_inv [OF inv t(3,1,2), of inet_pton] t(4) by auto
  have "tracker_reachable inet_pton m1"
    using tracker_reachable.step [OF Cons.prems(1), of "Tracker_message msg" m1] t m1(1) by simp
  moreover have "\<forall>msg'\<in>set msgs. done_message msg' \<and> easy_handle msg' \<in> set (multi (protocol m1))
     \<and> (\<exists>t. tracker_connections m1 (easy_handle msg') = Some t \<and> message_ok msg' t)"
  proof
    fix msg' assume "msg' \<in> set msgs"
    moreover from this have "easy_handle msg' \<noteq> easy_handle msg" using Cons.prems(2) by (metis distinct.simps(2) image_eqI list.simps(9) set_map)
    ultimately show "done_message msg' \<and> easy_handle msg' \<in> set (multi (protocol m1))
     \<and> (\<exists>t. tracker_connections m1 (easy_handle msg') = Some t \<and> message_ok msg' t)"
      using Cons.prems(3) m1(3,5) by simp
  qed
  ultimately obtain m' where "tracker_messages inet_pton msgs m1 = Inr m'" "tracker_reachable inet_pton m'"
     "flying m' = flying m1 - easy_handle ` set msgs"
     "idle m' = idle m1 \<union> (if context_active (tracker_context m1) then easy_handle ` set msgs else {})"
    using Cons.IH [of m1] Cons.prems(2) by auto
  then show ?case using m1 messages_Cons [of inet_pton msg msgs m] by (auto simp: same_world_def)
qed


section \<open>Examples\<close>

text \<open>The manager of the example with its request in flight, and after the bytes of an answer.\<close>

definition example_flight :: "string \<Rightarrow> tracker_manager" where
  "example_flight bytes =
     (let target = ''http://t/a'' @ ''?'' @ get_request_params (tracker_context example_started)
      in example_started\<lparr>protocol := \<lparr>multi = [''t''], easy_url = [''t'' \<mapsto> target]\<rparr>,
        tracker_connections := [''t'' \<mapsto> (disarm_maximum (started (at_url 0 example_idle)))\<lparr>
          user_space := \<lparr>url = target, body = bytes, body_size = length bytes\<rparr>\<rparr>], manager_space := []\<rparr>)"

lemma example_timeout: "tracker_handle f (Tracker_timeout ''t'' True 40000) example_started = Inr (example_flight [])"
  by (simp add: tracker_timeout_handler_def update_tracker_def tracker_at_def set_tracker_def announce_def
    set_announce_url_for_tracker_def get_url_def send_to_protocol_space_def protocol_add_request_def http_add_request_def
    startup_window_def disarm_maximum_def example_flight_def new_network_data_def example_fields is_http_def Let_def)

definition example_answer :: string where
  "example_answer = ''d8:intervali60e12:min intervali30e5:peers6:abcd12e''"

lemma example_data: "tracker_handle f (Tracker_data ''t'' example_answer) (example_flight []) = Inr (example_flight example_answer)"
proof -
  have "length example_answer = 50" by (simp add: example_answer_def)
  then show ?thesis
    by (simp add: tracker_receive_def update_tracker_def tracker_at_def set_tracker_def easy_callback_def example_flight_def sz_mul_def sz_add_def
      sz_modulus_def Let_def)
qed

lemma example_empty_reachable: "tracker_reachable (\<lambda>_ _. None) (example_flight [])"
proof -
  have e: "tracker_enabled (Tracker_timeout ''t'' True 40000) example_started"
    by (simp add: example_fields may_expire_def arm_timer_def new_ev_timer_def)
  from tracker_reachable.step [OF example_started_reachable e example_timeout] show ?thesis .
qed

lemma example_flight_reachable: "tracker_reachable (\<lambda>_ _. None) (example_flight example_answer)"
proof -
  have "tracker_enabled (Tracker_data ''t'' example_answer) (example_flight [])" by (simp add: example_flight_def Let_def)
  from tracker_reachable.step [OF example_empty_reachable this example_data] show ?thesis .
qed

lemma example_reply: "compact_reply example_answer 60 (Some 30) [([97, 98, 99, 100], 0x3231)]"
proof -
  let ?s = "\<lambda>a b. \<lparr>stat_start = a, stat_size = b\<rparr>"
  let ?d = "[(''interval'', Data (Integer 60) (?s 11 4)), (''min interval'', Data (Integer 30) (?s 30 4)), (''peers'', Data (String ''abcd12'') (?s 41 8))]"
  have "decode_input example_answer = Some (Data (Dictionary ?d) (?s 0 50))" unfolding example_answer_def by code_simp
  moreover have "as_bytes ''abcd12'' = compact_form [([97, 98, 99, 100], 0x3231)]" by code_simp
  moreover have "\<not> ben_contains ''failure reason'' ?d" "ben_find ''interval'' ?d = Some (Data (Integer 60) (?s 11 4))"
    "ben_find ''min interval'' ?d = Some (Data (Integer 30) (?s 30 4))" "ben_find ''tracker id'' ?d = None"
    "ben_find ''peers'' ?d = Some (Data (String ''abcd12'') (?s 41 8))"
    by (simp_all add: ben_find_def ben_contains_def)
  ultimately show ?thesis unfolding compact_reply_def
    by (intro exI [of _ ?d] exI [of _ "?s 0 50"] exI [of _ "?s 11 4"] exI [of _ "''abcd12''"] exI [of _ "?s 41 8"]) simp
qed

theorem successful_announce_witness:
  "\<exists>m'. tracker_messages (\<lambda>_ _. None) [\<lparr>done_message = True, easy_handle = ''t'', result_ok = True, http_res_code = 200\<rparr>]
      (example_flight example_answer) = Inr m' \<and> ''t'' \<in> set (manager_space m') \<and> ''t'' \<notin> set (multi (protocol m'))
    \<and> discoveries m' = [v4_contact ([97, 98, 99, 100], 0x3231)]"
proof -
  let ?msg = "\<lparr>done_message = True, easy_handle = ''t'', result_ok = True, http_res_code = 200\<rparr>"
  let ?m = "example_flight example_answer"
  obtain t where t: "tracker_connections ?m ''t'' = Some t" "body (user_space t) = example_answer" by (simp add: example_flight_def Let_def)
  have m: "context_active (tracker_context ?m)" "discoveries ?m = []" "multi (protocol ?m) = [''t'']"
    by (simp_all add: example_flight_def example_fields Let_def)
  show ?thesis
    using successful_announce [OF example_flight_reachable m(1), of ?msg t 60 "Some 30" "[([97, 98, 99, 100], 0x3231)]"] t example_reply m
    by auto
qed


end
