(* ===== verification/ManagerFrames.thy ===== *)
theory ManagerFrames
  imports ManagerSafety
begin

text \<open>
  The queue from the trackers to the connection manager has one consumer: of all callbacks of the
  connection manager only \<open>drain_discovered\<close> touches it, and none touches the info hash and the
  handshake that the constructor computed.
\<close>

definition inbox :: "manager \<Rightarrow> peer_contact list \<times> byte list \<times> byte list" where
  "inbox s = (discovered s, info_hash s, handshake s)"

lemma inbox_field [simp]:
  "inbox (s\<lparr>kernel := x0\<rparr>) = inbox s"
  "inbox (s\<lparr>statistics := x1\<rparr>) = inbox s"
  "inbox (s\<lparr>connection_pool := x2\<rparr>) = inbox s"
  "inbox (s\<lparr>peers := x3\<rparr>) = inbox s"
  "inbox (s\<lparr>disconnects := x4\<rparr>) = inbox s"
  "inbox (s\<lparr>discovery_cache := x5\<rparr>) = inbox s"
  "inbox (s\<lparr>retry_queue := x6\<rparr>) = inbox s"
  "inbox (s\<lparr>current := x7\<rparr>) = inbox s"
  "inbox (s\<lparr>empties := x8\<rparr>) = inbox s"
  "inbox (s\<lparr>daemon_pending := x9\<rparr>) = inbox s"
  "inbox (s\<lparr>connects := x10\<rparr>) = inbox s"
  by (simp_all add: inbox_def)

named_theorems queue_kept

lemma inbox_update [simp]:
  "inbox (set_peer i p s) = inbox s"
  "inbox (send_notification s) = inbox s"
  "inbox (modify_peer_socket_w_event i e s) = inbox s"
  "inbox (arm_connection_watchers i e s) = inbox s"
  "inbox (stop_connection_watchers i s) = inbox s"
  "inbox (close_peer_socket i s) = inbox s"
  "inbox (deregister_from_map i s) = inbox s"
  "inbox (inflight_resolved src s) = inbox s"
  "inbox (handle_peer_connection_and_dispatch i s) = inbox s"
  "inbox (initialize_server_specifics i sock st s) = inbox s"
  by (simp_all add: set_peer_def send_notification_def modify_peer_socket_w_event_def arm_connection_watchers_def
      stop_connection_watchers_def close_peer_socket_def deregister_from_map_def inflight_resolved_def
      handle_peer_connection_and_dispatch_def initialize_server_specifics_def Let_def split_beta)

lemma delete_kept [queue_kept]: "delete_peer_connection i s = Inr s' \<Longrightarrow> inbox s' = inbox s"
  by (auto simp: delete_peer_connection_def release_slot_def bind_fault_Inr Let_def)

lemma release_kept [queue_kept]: "release_slot i s = Inr s' \<Longrightarrow> inbox s' = inbox s"
  by (auto simp: release_slot_def bind_fault_Inr)

lemma hard_delete_kept [queue_kept]: "hard_delete_peer_connection i s = Inr s' \<Longrightarrow> inbox s' = inbox s"
  by (auto simp: hard_delete_peer_connection_def Let_def dest!: delete_kept)

lemma failure_kept [queue_kept]: "handle_peer_failure i s = Inr s' \<Longrightarrow> inbox s' = inbox s"
  by (auto simp: handle_peer_failure_def Let_def dest!: delete_kept split: if_splits)

lemma timer_kept [queue_kept]: "peer_timer_callback i s = Inr s' \<Longrightarrow> inbox s' = inbox s"
  by (auto simp: peer_timer_callback_def Let_def dest!: failure_kept split: if_splits)

lemma calls_kept [queue_kept]:
  "peer_transport_level_connected i s = Inr (ok, s') \<Longrightarrow> inbox s' = inbox s"
  "peer_send i s = Inr (r, s') \<Longrightarrow> inbox s' = inbox s"
  "peer_recv i s = Inr (q, s') \<Longrightarrow> inbox s' = inbox s"
  "encode_handshake i s = Inr (ok, s') \<Longrightarrow> inbox s' = inbox s"
  "peer_connect i s = Inr (ok, s') \<Longrightarrow> inbox s' = inbox s"
  by (auto simp: peer_transport_level_connected_def peer_send_def peer_recv_def encode_handshake_def peer_connect_def
      bind_fault_Inr Let_def split: list.splits sum.splits if_splits)

lemma handshake_kept [queue_kept]:
  "handle_peer_transport_level_initiations i event s = Inr s' \<Longrightarrow> inbox s' = inbox s"
  "handshake_write i s = Inr s' \<Longrightarrow> inbox s' = inbox s"
  "handshake_reply i s = Inr s' \<Longrightarrow> inbox s' = inbox s"
  by (auto simp: handle_peer_transport_level_initiations_def handshake_write_def handshake_reply_def bind_fault_Inr Let_def
      dest!: queue_kept split: if_splits)

lemma read_kept [queue_kept]: "handshake_read i s = Inr s' \<Longrightarrow> inbox s' = inbox s"
proof -
  have accepted: "inbox s' = inbox x"
    if "(let s = (if source (peer_at x i) = Tracker then handle_peer_connection_and_dispatch i x else x)
      in if source (peer_at s i) = Tcp_server then handshake_reply i s else Inr s) = Inr s'" for x
  proof -
    define y where "y = (if source (peer_at x i) = Tracker then handle_peer_connection_and_dispatch i x else x)"
    have "inbox y = inbox x" by (simp add: y_def)
    then show ?thesis using that handshake_kept(3) [of i y s'] unfolding y_def [symmetric] Let_def by (auto split: if_splits)
  qed
  assume "handshake_read i s = Inr s'"
  then obtain r s1 where r: "peer_recv i s = Inr (r, s1)" and rest: "(if \<not> recv_ok r then handle_peer_failure i s1
      else let p = peer_at s1 i in bind_fault (handshake_decode (recv_buffer p) (info_hash s1) (peer_id (contact p))) (\<lambda>(result, pid, b).
        let s = set_peer i (p\<lparr>recv_buffer := b, contact := (contact p)\<lparr>peer_id := pid\<rparr>\<rparr>) s1
        in if \<not> complete result then Inr s else if \<not> is_valid result then hard_delete_peer_connection i s
           else let s = (if source (peer_at s i) = Tracker then handle_peer_connection_and_dispatch i s else s)
             in if source (peer_at s i) = Tcp_server then handshake_reply i s else Inr s)) = Inr s'"
    unfolding handshake_read_def by (elim bind_faultE) (auto split: prod.split_asm)
  have "inbox s' = inbox s1"
  proof (cases "recv_ok r")
    case False
    then show ?thesis using rest failure_kept by simp
  next
    case True
    then obtain result :: decode_result and pid b where
      decoded: "(let s = set_peer i ((peer_at s1 i)\<lparr>recv_buffer := b, contact := (contact (peer_at s1 i))\<lparr>peer_id := pid\<rparr>\<rparr>) s1
        in if \<not> complete result then Inr s else if \<not> is_valid result then hard_delete_peer_connection i s
           else let s = (if source (peer_at s i) = Tracker then handle_peer_connection_and_dispatch i s else s)
             in if source (peer_at s i) = Tcp_server then handshake_reply i s else Inr s) = Inr s'"
      using rest unfolding Let_def [of "peer_at s1 i"] by (auto elim!: bind_faultE split: prod.split_asm simp del: Let_def)
    define x where "x = set_peer i ((peer_at s1 i)\<lparr>recv_buffer := b, contact := (contact (peer_at s1 i))\<lparr>peer_id := pid\<rparr>\<rparr>) s1"
    have x: "inbox x = inbox s1" by (simp add: x_def)
    consider "Inr x = (Inr s' :: fault + manager)" | "hard_delete_peer_connection i x = Inr s'"
      | "(let s = (if source (peer_at x i) = Tracker then handle_peer_connection_and_dispatch i x else x)
          in if source (peer_at s i) = Tcp_server then handshake_reply i s else Inr s) = Inr s'"
      using decoded unfolding x_def [symmetric] Let_def [of x] by (cases "complete result"; cases "is_valid result") (simp_all only: if_True if_False simp_thms)
    then show ?thesis using x accepted hard_delete_kept by cases (simp, metis, metis)
  qed
  then show ?thesis using calls_kept(3) [OF r] by simp
qed

lemma socket_kept [queue_kept]: "peer_socket_callback i event s = Inr s' \<Longrightarrow> inbox s' = inbox s"
  by (auto simp: peer_socket_callback_def handle_peer_application_level_handshake_def Let_def
      dest!: queue_kept split: if_splits pstate.splits)

lemma initiate_kept [queue_kept]: "initiate_connect i s = Inr (ok, s') \<Longrightarrow> inbox s' = inbox s"
  by (auto simp: initiate_connect_def bind_fault_Inr dest!: queue_kept split: if_splits)

lemma one_kept [queue_kept]:
  "discovered_one e s = Inr (ok, s') \<Longrightarrow> inbox s' = inbox s"
  "disconnected_one d s = Inr (ok, s') \<Longrightarrow> inbox s' = inbox s"
  "failed_one f s = Inr (ok, s') \<Longrightarrow> inbox s' = inbox s"
  by (auto simp: discovered_one_def disconnected_one_def failed_one_def bind_fault_Inr Let_def
      dest!: queue_kept split: prod.splits option.splits if_splits)

lemma loops_kept [queue_kept]:
  "discovered_loop s = Inr (ok, s') \<Longrightarrow> inbox s' = inbox s"
  "disconnected_peer_scheduler s = Inr (ok, s') \<Longrightarrow> inbox s' = inbox s"
  "failed_peer_scheduler s = Inr (ok, s') \<Longrightarrow> inbox s' = inbox s"
proof -
  show "discovered_loop s = Inr (ok, s') \<Longrightarrow> inbox s' = inbox s"
  proof (induction s arbitrary: ok s' rule: discovered_loop.induct)
    case (1 s)
    obtain e c where pop: "fresh_pop (discovery_cache s) = (e, c)" by fastforce
    show ?case
    proof (cases e)
      case None
      then show ?thesis using "1.prems" pop by (simp add: discovered_loop.simps)
    next
      case (Some x)
      obtain ok1 s1 where one: "discovered_one x (s\<lparr>discovery_cache := c\<rparr>) = Inr (ok1, s1)"
        and rest: "(if ok1 then Inr (True, s1) else discovered_loop s1) = Inr (ok, s')"
        using "1.prems" pop Some by (subst (asm) discovered_loop.simps) (auto elim!: bind_faultE)
      have "inbox s1 = inbox s" using one_kept(1) [OF one] by simp
      then show ?thesis using rest "1.IH" [OF pop [symmetric] Some one refl] by (cases ok1) auto
    qed
  qed
  show "disconnected_peer_scheduler s = Inr (ok, s') \<Longrightarrow> inbox s' = inbox s"
  proof (induction s arbitrary: ok s' rule: disconnected_peer_scheduler.induct)
    case (1 s)
    from "1.prems" show ?case
      by (subst (asm) disconnected_peer_scheduler.simps)
        (fastforce elim!: bind_faultE dest: one_kept "1.IH" split: prod.split_asm list.split_asm if_split_asm)
  qed
  show "failed_peer_scheduler s = Inr (ok, s') \<Longrightarrow> inbox s' = inbox s"
  proof (induction s arbitrary: ok s' rule: failed_peer_scheduler.induct)
    case (1 s)
    from "1.prems" show ?case
      by (subst (asm) failed_peer_scheduler.simps)
        (fastforce elim!: bind_faultE dest: one_kept "1.IH" split: prod.split_asm list.split_asm if_split_asm)
  qed
qed

lemma turn_kept [queue_kept]: "scheduler_turn s = Inr s' \<Longrightarrow> inbox s' = inbox s"
  by (auto simp: scheduler_turn_def discovered_peer_scheduler_def elim!: bind_faultE dest!: loops_kept
      split: spot.split_asm prod.split_asm if_split_asm)

lemma round_robin_kept [queue_kept]: "round_robin_establisher_scheduler s = Inr s' \<Longrightarrow> inbox s' = inbox s"
proof (induction s rule: round_robin_establisher_scheduler.induct)
  case (1 s)
  from "1.prems" show ?case
    by (subst (asm) round_robin_establisher_scheduler.simps)
      (fastforce elim!: bind_faultE dest: turn_kept "1.IH" split: if_split_asm)
qed

lemma accept_kept [queue_kept]: "accept_peer_connection answer s = Inr (ok, s') \<Longrightarrow> inbox s' = inbox s"
  by (auto simp: accept_peer_connection_def replace_old_peer_def Let_def elim!: bind_faultE dest!: delete_kept
      split: sum.split_asm prod.split_asm option.split_asm if_split_asm)

lemma server_kept [queue_kept]: "server_socket_callback answers s = Inr s' \<Longrightarrow> inbox s' = inbox s"
proof (induction answers arbitrary: s)
  case Nil
  then show ?case by (auto simp: server_socket_callback.simps split: if_split_asm)
next
  case (Cons a answers)
  from Cons.prems show ?case
    by (subst (asm) server_socket_callback.simps)
      (fastforce elim!: bind_faultE dest: accept_kept Cons.IH split: if_split_asm prod.split_asm)
qed

text \<open>The consumer's end is only ever emptied.\<close>

lemma handle_kept:
  assumes "handle e s = Inr s'"
  shows "info_hash s' = info_hash s \<and> handshake s' = handshake s"
    and "discovered s' = (case e of Drain \<Rightarrow> [] | Contacts cs \<Rightarrow> discovered s @ cs | _ \<Rightarrow> discovered s)"
proof -
  have drained: "info_hash (drain_loop addrs t) = info_hash t" "handshake (drain_loop addrs t) = handshake t"
    "discovered (drain_loop addrs t) = (if addrs = [] then discovered t else [])" for addrs t
    by (induction addrs arbitrary: t) simp_all
  have "inbox s' = inbox s" if "\<forall>cs. e \<noteq> Contacts cs" "e \<noteq> Drain"
    using assms that by (cases e) (auto simp: notify_disconnected_def dest!: queue_kept)
  then show "info_hash s' = info_hash s \<and> handshake s' = handshake s"
    and "discovered s' = (case e of Drain \<Rightarrow> [] | Contacts cs \<Rightarrow> discovered s @ cs | _ \<Rightarrow> discovered s)"
    using assms by (cases e; auto simp: drain_discovered_def send_notification_def inbox_def drained Let_def)+
qed

end
