(* ===== verification/Engine.thy ===== *)
theory Engine
  imports TrackerAnswers ManagerFrames
begin

text \<open>
  The program as one system: the two managers, each on its thread, around the queue of discovered
  contacts that they share.  The first sections show what every callback of the tracker manager leaves
  alone; then come the construction, the steps of the two threads, and what holds in every state that
  they can reach together.
\<close>

section \<open>What the trackers' handlers do to the queue\<close>

lemma feeds_trans: "feeds a b \<Longrightarrow> feeds b c \<Longrightarrow> feeds a c"
proof -
  assume "feeds a b" and "feeds b c"
  then obtain xs ys where xs: "discoveries b = discoveries a @ xs" "\<forall>c\<in>set xs. contact_ok c"
      "xs = [] \<or> length (discoveries b) \<le> discoveries_capacity" "xs \<noteq> [] \<or> consumer_pending a \<longrightarrow> consumer_pending b"
    and ys: "discoveries c = discoveries b @ ys" "\<forall>c\<in>set ys. contact_ok c"
      "ys = [] \<or> length (discoveries c) \<le> discoveries_capacity" "ys \<noteq> [] \<or> consumer_pending b \<longrightarrow> consumer_pending c"
    unfolding feeds_def by blast
  show ?thesis unfolding feeds_def by (rule exI [of _ "xs @ ys"]) (use xs ys in auto)
qed

text \<open>What the requests tell of this client does not change.\<close>

definition identity :: "tracker_manager \<Rightarrow> string \<times> int" where
  "identity m = (escaped_info_hash_byte (tracker_context m), announced_port (tracker_context m))"

definition advances :: "tracker_manager \<Rightarrow> tracker_manager \<Rightarrow> bool" where
  "advances m m' \<longleftrightarrow> feeds m m' \<and> identity m' = identity m"

lemma advances_trans: "advances a b \<Longrightarrow> advances b c \<Longrightarrow> advances a c"
  by (auto simp: advances_def intro: feeds_trans)

text \<open>Most callbacks leave all this alone.\<close>

definition queue :: "tracker_manager \<Rightarrow> (peer_contact list \<times> bool) \<times> string \<times> int" where
  "queue m = ((discoveries m, consumer_pending m), identity m)"

named_theorems queue_same

lemma queue_advances: "queue m' = queue m \<Longrightarrow> advances m m'"
  by (simp add: queue_def advances_def feeds_def)

lemma queue_frame [simp]:
  "queue (set_tracker k t m) = queue m" "queue (m\<lparr>manager_space := s\<rparr>) = queue m" "queue (m\<lparr>protocol := p\<rparr>) = queue m"
  "queue (m\<lparr>event_set := e\<rparr>) = queue m" "queue (m\<lparr>signal_pending := b\<rparr>) = queue m" "queue (m\<lparr>started_tp := n\<rparr>) = queue m"
  "queue (set_active b m) = queue m" "queue (m\<lparr>tracker_connections := ts\<rparr>) = queue m"
  by (simp_all add: queue_def identity_def set_tracker_def set_active_def)

lemma update_queue [queue_same]: "update_tracker k f m = Inr m' \<Longrightarrow> queue m' = queue m"
  by (auto simp: update_tracker_def elim!: bind_faultE)

lemma space_queue [queue_same]:
  "return_to_manager_space k m = Inr m' \<Longrightarrow> queue m' = queue m"
  "send_to_protocol_space k m = Inr m' \<Longrightarrow> queue m' = queue m"
  by (auto simp: return_to_manager_space_def send_to_protocol_space_def Let_def elim!: bind_faultE dest!: update_queue split: if_split_asm)

lemma request_queue [queue_same]:
  "set_announce_url_for_tracker k event m = Inr m' \<Longrightarrow> queue m' = queue m"
  "protocol_add_request k m = Inr m' \<Longrightarrow> queue m' = queue m"
  by (auto simp: set_announce_url_for_tracker_def protocol_add_request_def Let_def elim!: bind_faultE split: tracker_proto_t.split_asm)

lemma announce_queue [queue_same]: "announce k event m = Inr m' \<Longrightarrow> queue m' = queue m"
  by (auto simp: announce_def elim!: bind_faultE dest!: request_queue space_queue)

lemma ends_queue [queue_same]:
  "back_or_reset k m = Inr m' \<Longrightarrow> queue m' = queue m"
  "inactive_state_handler k m = Inr m' \<Longrightarrow> queue m' = queue m"
proof -
  show ends: "back_or_reset k m = Inr m' \<Longrightarrow> queue m' = queue m" for m
    by (auto simp: back_or_reset_def dest: queue_same split: if_split_asm)
  show "inactive_state_handler k m = Inr m' \<Longrightarrow> queue m' = queue m"
    by (auto simp: inactive_state_handler_def Let_def elim!: bind_faultE dest!: ends split: prod.split_asm if_split_asm)
qed

lemma failure_queue [queue_same]: "do_on_failure k m = Inr m' \<Longrightarrow> queue m' = queue m"
  by (auto simp: do_on_failure_def elim!: bind_faultE dest!: update_queue ends_queue)

lemma timeout_queue [queue_same]: "tracker_timeout_handler now k longer m = Inr m' \<Longrightarrow> queue m' = queue m"
  by (auto simp: tracker_timeout_handler_def Let_def elim!: bind_faultE dest!: update_queue announce_queue split: if_split_asm)

lemma loop_queue:
  assumes "\<And>k m m'. handler k m = Inr m' \<Longrightarrow> queue m' = queue m"
  shows "over_space handler storage i n m = Inr m' \<Longrightarrow> queue m' = queue m"
proof (induction n arbitrary: storage i m)
  case (Suc n)
  obtain m1 where m1: "handler (storage ! i) m = Inr m1"
    "over_space handler (manager_space m1 @ drop (length (manager_space m1)) storage) (i + 1) n m1 = Inr m'"
    using Suc.prems by (auto elim!: bind_faultE)
  then show ?case using Suc.IH [OF m1(2)] assms [OF m1(1)] by simp
qed simp

lemma populate_queue [queue_same]: "populate_manager_space ks m = Inr m' \<Longrightarrow> queue m' = queue m"
proof (induction ks arbitrary: m)
  case Nil
  then show ?case by (simp add: )
next
  case (Cons k ks)
  from Cons.prems show ?case
    by (auto simp: Let_def elim!: bind_faultE dest!: Cons.IH split: if_split_asm prod.split_asm)
qed

lemma trackers_queue [queue_same]:
  "start_tracker k m = Inr m' \<Longrightarrow> queue m' = queue m" "reannounce_tracker k m = Inr m' \<Longrightarrow> queue m' = queue m"
  "force_reannounce_tracker k m = Inr m' \<Longrightarrow> queue m' = queue m" "shutdown_tracker k m = Inr m' \<Longrightarrow> queue m' = queue m"
  by (auto simp: start_tracker_def reannounce_tracker_def force_reannounce_tracker_def shutdown_tracker_def Let_def
      elim!: bind_faultE dest!: queue_same split: if_split_asm)

lemma trackers_loops:
  "over_space start_tracker storage i n m = Inr m' \<Longrightarrow> queue m' = queue m"
  "over_space reannounce_tracker storage i n m = Inr m' \<Longrightarrow> queue m' = queue m"
  "over_space force_reannounce_tracker storage i n m = Inr m' \<Longrightarrow> queue m' = queue m"
  "over_space shutdown_tracker storage i n m = Inr m' \<Longrightarrow> queue m' = queue m"
  by (erule loop_queue [rotated], erule trackers_queue)+

lemma events_queue [queue_same]:
  "reannounce_event m = Inr m' \<Longrightarrow> queue m' = queue m" "force_reannounce_event m = Inr m' \<Longrightarrow> queue m' = queue m"
  "shutdown_event m = Inr m' \<Longrightarrow> queue m' = queue m" "start_event order now m = Inr m' \<Longrightarrow> queue m' = queue m"
  by (auto simp: reannounce_event_def force_reannounce_event_def shutdown_event_def start_event_def for_each_tracker_def
      elim!: bind_faultE dest!: populate_queue trackers_loops)

lemma handle_event_queue [queue_same]: "handle_event order now late m = Inr m' \<Longrightarrow> queue m' = queue m"
  by (auto simp: handle_event_def Let_def elim!: bind_faultE dest!: events_queue split: if_split_asm prod.split_asm)

lemma initialize_queue: "initialize_trackers addresses m = Inr m' \<Longrightarrow> queue m' = queue m"
  by (induction addresses m rule: initialize_trackers.induct) (auto simp: Let_def elim!: bind_faultE)

section \<open>Answers\<close>

lemma discoveries_identity [simp]:
  "identity (m\<lparr>discoveries := ds\<rparr>) = identity m" "identity (m\<lparr>consumer_pending := b\<rparr>) = identity m"
  by (simp_all add: identity_def)

lemma response_peers_advances:
  assumes "inet_pton_ok inet_pton" and "response_peers inet_pton parse m = Inr (goes_on, m')"
  shows "advances m m'"
proof -
  have "identity m' = identity m" by (rule response_peers_pushes [OF assms]) (auto simp: pushes_def)
  then show ?thesis using response_peers_feeds [OF assms] by (simp add: advances_def)
qed

lemma answer_advances:
  assumes "inet_pton_ok inet_pton" and "active_state_handler inet_pton k parse m = Inr m'"
  shows "advances m m'"
proof -
  obtain t goes m1 where t: "response_peers inet_pton parse (set_tracker k t m) = Inr (goes, m1)"
    and rest: "if goes then bind_fault (update_tracker k arm_response_timers m1) (back_or_reset k) = Inr m' else m' = m1"
    using assms(2) by (auto simp: active_state_handler_def Let_def elim!: bind_faultE split: prod.split_asm if_split_asm)
  have "advances m (set_tracker k t m)" by (rule queue_advances) simp
  moreover have "queue m' = queue m1" using rest by (auto elim!: bind_faultE dest!: update_queue ends_queue split: if_split_asm)
  ultimately show ?thesis using response_peers_advances [OF assms(1) t] advances_trans queue_advances by blast
qed

lemma success_advances:
  assumes "inet_pton_ok inet_pton" and "do_on_success inet_pton k m = Inr m'"
  shows "advances m m'"
proof -
  have one: "advances m (set_tracker k t m)" for t by (rule queue_advances) simp
  have active: "active_state_handler inet_pton k d (set_tracker k t m) = Inr m' \<Longrightarrow> advances m m'" for d t
    using answer_advances [OF assms(1)] advances_trans [OF one] by blast
  have inactive: "inactive_state_handler k (set_tracker k t m) = Inr m' \<Longrightarrow> advances m m'" for t
    using ends_queue(2) [of k "set_tracker k t m" m'] by (simp add: queue_advances)
  show ?thesis using assms(2)
    by (auto simp: do_on_success_def queue_advances Let_def elim!: bind_faultE split: option.split_asm if_split_asm) (erule inactive active)+
qed

lemma messages_advance:
  assumes "inet_pton_ok inet_pton"
  shows "tracker_messages inet_pton msgs m = Inr m' \<Longrightarrow> advances m m'"
proof (induction msgs arbitrary: m)
  case Nil
  then show ?case by (simp add: tracker_messages_def queue_advances)
next
  case (Cons msg msgs)
  show ?case
  proof (cases "done_message msg")
    case False
    then show ?thesis using Cons by (simp add: tracker_messages_def)
  next
    case True
    then obtain m1 m2 where m1: "(if result_ok msg \<and> http_res_code msg = 200 then do_on_success inet_pton (easy_handle msg) m
        else do_on_failure (easy_handle msg) m) = Inr m1"
      and m2: "update_tracker (easy_handle msg) (\<lambda>t. t\<lparr>user_space := (user_space t)\<lparr>body := []\<rparr>\<rparr>) m1 = Inr m2"
      and rest: "tracker_messages inet_pton msgs (m2\<lparr>protocol := http_rmv_request (easy_handle msg) (protocol m2)\<rparr>) = Inr m'"
      using Cons.prems by (auto simp: tracker_messages_def Let_def elim!: bind_faultE)
    have "advances m m1" using m1 success_advances [OF assms] failure_queue queue_advances by (metis (full_types))
    moreover have "advances m1 (m2\<lparr>protocol := http_rmv_request (easy_handle msg) (protocol m2)\<rparr>)"
      using update_queue [OF m2] by (simp add: queue_advances)
    ultimately show ?thesis using Cons.IH [OF rest] advances_trans by blast
  qed
qed

lemma tracker_handle_advances:
  assumes "inet_pton_ok inet_pton" and "tracker_handle inet_pton e m = Inr m'"
  shows "advances m m'"
  using assms(2)
  by (cases e) (auto simp: request_event_def tracker_receive_def intro: messages_advance [OF assms(1)] queue_advances dest!: queue_same)

section \<open>The two threads\<close>

text \<open>\<^verbatim>\<open>src/Client/PeerManager.hpp\<close>: the connection manager with its server socket, which listens from the start.\<close>

record peer_manager =
  server :: tcp_server_context
  connection_manager :: manager

definition new_server_context :: tcp_server_context where
  "new_server_context = \<lparr>server_socket = 0, server_store = zero_store, store_len = 0, ipv4_support = False, port = 0\<rparr>"

definition new_peer_manager :: "server_answers \<Rightarrow> kernel \<Rightarrow> torrent \<Rightarrow> fault + peer_manager" where
  "new_peer_manager os k t =
     bind_fault (initialize_server_socket os new_server_context) (\<lambda>srv.
       Inr \<lparr>server = srv, connection_manager = new_manager (info_hash_byte t) k\<rparr>)"

text \<open>
  The program, as \<^verbatim>\<open>src/Tests/TestPeerManager.cpp\<close> puts it together: both managers from one
  torrent, the trackers told the port that the other listens on and given its queue.  Each thread runs
  one handler after the other.  The queue is the one that both ends see, and \<open>consumer_pending\<close> is the
  notification that wakes the consumer: running \<open>drain_discovered\<close> takes it back.  One step is one
  handler as a whole; \<open>SpscQueue\<close> shows that the queue's operations of two handlers that do overlap
  have the effect of one after the other.
\<close>

record engine =
  tracker_side :: tracker_manager
  listener :: tcp_server_context
  peer_side :: manager

definition new_engine :: "server_answers \<Rightarrow> kernel \<Rightarrow> (string \<Rightarrow> string) \<Rightarrow> string option option \<Rightarrow> fault + engine" where
  "new_engine os k curl_escape file =
     bind_fault (torrent_file file) (\<lambda>torrent.
     bind_fault (new_peer_manager os k torrent) (\<lambda>peer_manager.
     bind_fault (new_tracker_manager curl_escape torrent (int (get_listening_port (server peer_manager)))) (\<lambda>tracker.
       Inr \<lparr>tracker_side = tracker, listener = server peer_manager, peer_side = connection_manager peer_manager\<rparr>)))"

datatype engine_step = Tracker_thread tracker_step | Peer_thread event

fun engine_enabled :: "engine_step \<Rightarrow> engine \<Rightarrow> bool" where
  "engine_enabled (Tracker_thread e) s \<longleftrightarrow> tracker_enabled e (tracker_side s)"
| "engine_enabled (Peer_thread e) s \<longleftrightarrow> (case e of
     Contacts cs \<Rightarrow> False
   | Drain \<Rightarrow> consumer_pending (tracker_side s)
   | _ \<Rightarrow> enabled e (peer_side s))"

fun engine_handle :: "(int \<Rightarrow> string \<Rightarrow> byte list option) \<Rightarrow> engine_step \<Rightarrow> engine \<Rightarrow> fault + engine" where
  "engine_handle inet_pton (Tracker_thread e) s =
     bind_fault (tracker_handle inet_pton e (tracker_side s)) (\<lambda>m.
       Inr (s\<lparr>tracker_side := m, peer_side := (peer_side s)\<lparr>discovered := discoveries m\<rparr>\<rparr>))"
| "engine_handle inet_pton (Peer_thread e) s =
     bind_fault (handle e (peer_side s)) (\<lambda>c.
       Inr (s\<lparr>tracker_side := (tracker_side s)\<lparr>discoveries := discovered c,
              consumer_pending := consumer_pending (tracker_side s) \<and> e \<noteq> Drain\<rparr>, peer_side := c\<rparr>))"

inductive engine_reachable :: "(int \<Rightarrow> string \<Rightarrow> byte list option) \<Rightarrow> (string \<Rightarrow> string) \<Rightarrow> engine \<Rightarrow> bool" for inet_pton curl_escape where
  start: "new_engine os k curl_escape (Some (Some src)) = Inr s \<Longrightarrow> open_fds k = [] \<Longrightarrow>
    \<forall>t\<in>ran (tracker_connections (tracker_side s)). length (urls t) < 2 ^ 63 \<Longrightarrow> engine_reachable inet_pton curl_escape s"
| step: "engine_reachable inet_pton curl_escape s \<Longrightarrow> engine_enabled e s \<Longrightarrow> engine_handle inet_pton e s = Inr s' \<Longrightarrow>
    engine_reachable inet_pton curl_escape s'"

section \<open>The invariant\<close>

definition engine_inv :: "engine \<Rightarrow> bool" where
  "engine_inv s \<longleftrightarrow> sound (tracker_side s) \<and> reachable (peer_side s)
     \<and> discoveries (tracker_side s) = discovered (peer_side s) \<and> length (discovered (peer_side s)) \<le> discoveries_capacity
     \<and> (discovered (peer_side s) \<noteq> [] \<longrightarrow> consumer_pending (tracker_side s))"

text \<open>What trackers and peers are told comes from the same torrent and the same listening socket.\<close>

definition torrent_facts :: "(string \<Rightarrow> string) \<Rightarrow> engine \<Rightarrow> bool" where
  "torrent_facts curl_escape s \<longleftrightarrow>
     (\<exists>src t. torrent_file (Some (Some src)) = Inr t \<and> info_hash (peer_side s) = info_hash_byte t)
     \<and> handshake (peer_side s) = compute_handshake (info_hash (peer_side s))
     \<and> identity (tracker_side s) = (curl_escape (byte_stringify_hash (info_hash (peer_side s))), int (get_listening_port (listener s)))"

lemma sound_queue [simp]: "sound (m\<lparr>discoveries := d, consumer_pending := b\<rparr>) = sound m"
  by (simp add: sound_def settled_def tracker_inv_def https_def space_inv_def)

lemma tracker_thread_inv:
  assumes pton: "inet_pton_ok inet_pton" and s: "engine_inv s" and e: "tracker_enabled e (tracker_side s)"
  shows "\<exists>s'. engine_handle inet_pton (Tracker_thread e) s = Inr s' \<and> engine_inv s' \<and> (torrent_facts f s \<longrightarrow> torrent_facts f s')"
proof -
  let ?c = "peer_side s"
  obtain m' where m': "tracker_handle inet_pton e (tracker_side s) = Inr m'" "sound m'"
    using tracker_handle_sound [OF _ e] s unfolding engine_inv_def by blast
  from tracker_handle_advances [OF pton m'(1)] s obtain cs where cs: "discoveries m' = discovered ?c @ cs" "\<forall>c\<in>set cs. contact_ok c"
    "cs = [] \<or> length (discoveries m') \<le> discoveries_capacity" "cs \<noteq> [] \<or> consumer_pending (tracker_side s) \<longrightarrow> consumer_pending m'"
    "identity m' = identity (tracker_side s)"
    unfolding feeds_def advances_def engine_inv_def by auto
  have "length (discoveries m') \<le> discoveries_capacity" using cs(1,3) s by (auto simp: engine_inv_def)
  moreover from this have "enabled (Contacts cs) ?c" using cs(1,2) by simp
  then have "reachable (?c\<lparr>discovered := discoveries m'\<rparr>)"
    using reachable.step [of ?c "Contacts cs"] s cs(1) by (simp add: engine_inv_def)
  ultimately show ?thesis using m' cs(1,4,5) s by (auto simp: engine_inv_def torrent_facts_def)
qed

lemma peer_thread_inv:
  assumes s: "engine_inv s" and e: "engine_enabled (Peer_thread e) s"
  shows "guarantees (engine_handle inet_pton (Peer_thread e) s) (\<lambda>s'. engine_inv s' \<and> (torrent_facts f s \<longrightarrow> torrent_facts f s'))"
proof -
  have on: "enabled e (peer_side s)" using e by (cases e) simp_all
  have r: "reachable (peer_side s)" using s by (simp add: engine_inv_def)
  have "guarantees (handle e (peer_side s)) (\<lambda>_. True)"
    using handle_inv [OF reachable_inv [OF r] on] by (rule guarantees_mono) simp
  then show ?thesis
  proof (cases "handle e (peer_side s)")
    case (Inr c)
    have "discovered c = (if e = Drain then [] else discovered (peer_side s))"
      using handle_kept(2) [OF Inr] e by (cases e) simp_all
    then show ?thesis using Inr reachable.step [OF r on Inr] handle_kept(1) [OF Inr] s
      by (auto simp: engine_inv_def torrent_facts_def identity_def)
  qed simp
qed

lemma new_engine_inv:
  assumes "new_engine os k curl_escape (Some (Some src)) = Inr s" and "open_fds k = []"
    and "\<forall>t\<in>ran (tracker_connections (tracker_side s)). length (urls t) < 2 ^ 63"
  shows "engine_inv s \<and> torrent_facts curl_escape s"
proof -
  obtain t srv m where t: "torrent_file (Some (Some src)) = Inr t"
    and m: "new_tracker_manager curl_escape t (int (get_listening_port srv)) = Inr m"
    and s: "s = \<lparr>tracker_side = m, listener = srv, peer_side = new_manager (info_hash_byte t) k\<rparr>"
    using assms(1) by (auto simp: new_engine_def new_peer_manager_def elim!: bind_faultE)
  have src: "torrent_of_source src = Inr t" using t by (simp add: torrent_file_def)
  have "length (info_hash_byte t) = 20" by (rule torrent_of_source_ok [OF src]) simp
  then have "reachable (new_manager (info_hash_byte t) k)" using assms(2) by (rule reachable.start)
  moreover have "discoveries m = []" "identity m = (curl_escape (byte_stringify_hash (info_hash_byte t)), int (get_listening_port srv))"
    using m by (auto simp: new_tracker_manager_def queue_def identity_def Let_def elim!: bind_faultE dest!: initialize_queue)
  moreover have "sound m" using constructed_sound [OF m] assms(3) s by simp
  ultimately show ?thesis using s t by (auto simp: engine_inv_def torrent_facts_def new_manager_def)
qed

lemma engine_reachable_inv:
  assumes "inet_pton_ok inet_pton"
  shows "engine_reachable inet_pton f s \<Longrightarrow> engine_inv s \<and> torrent_facts f s"
proof (induction rule: engine_reachable.induct)
  case (start os k src s)
  then show ?case by (rule new_engine_inv)
next
  case (step s e s')
  show ?case
  proof (cases e)
    case (Tracker_thread e')
    then show ?thesis using tracker_thread_inv [OF assms, of s e' f] step by auto
  next
    case (Peer_thread e')
    then show ?thesis using peer_thread_inv [of s e' inet_pton f] step by auto
  qed
qed

section \<open>What the composition guarantees\<close>

lemma discovered_ok: "reachable c \<Longrightarrow> \<forall>x\<in>set (discovered c). contact_ok x"
  by (drule reachable_inv) (simp add: manager_inv_def cache_inv_def)

lemma drain_step:
  assumes "engine_inv s"
  shows "\<exists>s'. engine_handle inet_pton (Peer_thread Drain) s = Inr s' \<and> tracker_side s' = (tracker_side s)\<lparr>discoveries := [], consumer_pending := False\<rparr>
    \<and> discovered (peer_side s') = []
    \<and> (let known = elements (discovery_cache (peer_side s)) @ discovered (peer_side s)
       in elements (discovery_cache (peer_side s')) = drop (length known - 200) known)"
proof -
  have r: "reachable (peer_side s)" using assms by (simp add: engine_inv_def)
  have v: "cache_valid (discovery_cache (peer_side s))" "length (cache (discovery_cache (peer_side s))) = 200"
    using reachable_inv [OF r] by (simp_all add: manager_inv_def cache_inv_def cache_capacity_def)
  show ?thesis using drain_cache [OF v(1)] v(2) by (simp add: Let_def)
qed


text \<open>C9: no contact is lost between the threads and no wake-up either: in every state of the program
  both ends see the same queue, never more than a hundred contacts, all well-formed; and if it is not
  empty then the consumer has been notified, its handler runs without a fault, and after it the queue
  is empty and the contacts are the newest in the cache, in order.\<close>

theorem queue_never_stranded:
  assumes "inet_pton_ok inet_pton" and "engine_reachable inet_pton curl_escape s"
  shows "discoveries (tracker_side s) = discovered (peer_side s) \<and> length (discovered (peer_side s)) \<le> 100
    \<and> (\<forall>c\<in>set (discovered (peer_side s)). contact_ok c)
    \<and> (discovered (peer_side s) \<noteq> [] \<longrightarrow> engine_enabled (Peer_thread Drain) s
        \<and> (\<exists>s'. engine_handle inet_pton (Peer_thread Drain) s = Inr s' \<and> discovered (peer_side s') = []
          \<and> (let known = elements (discovery_cache (peer_side s)) @ discovered (peer_side s)
             in elements (discovery_cache (peer_side s')) = drop (length known - 200) known)))"
proof -
  have inv: "engine_inv s" by (rule engine_reachable_inv [OF assms, THEN conjunct1])
  then have "reachable (peer_side s)" by (simp add: engine_inv_def)
  then show ?thesis using inv discovered_ok drain_step [OF inv, of inet_pton]
    by (auto simp: engine_inv_def discoveries_capacity_def simp del: engine_handle.simps)
qed

text \<open>C10: trackers and peers are told the same: whatever the two threads have done, the parameters of
  an announce begin with the escaped info hash of the torrent that the file declares, the client's
  identifier and the port on which the program listens, and the handshake that is sent to peers
  carries that info hash and that identifier; an incoming handshake is compared with that hash.\<close>

theorem announces_and_handshakes_agree:
  assumes "inet_pton_ok inet_pton" and "engine_reachable inet_pton curl_escape s"
  shows "\<exists>src t rest. torrent_file (Some (Some src)) = Inr t \<and> info_hash (peer_side s) = info_hash_byte t
    \<and> get_request_params (tracker_context (tracker_side s)) = ''info_hash='' @ curl_escape (byte_stringify_hash (info_hash_byte t))
        @ ''&peer_id='' @ client_id @ ''&port='' @ int_to_string (int (get_listening_port (listener s))) @ ''&uploaded='' @ rest
    \<and> handshake (peer_side s) = [19] @ map of_char protocol_string @ reserved_bytes @ info_hash_byte t @ map of_char client_id"
proof -
  obtain src t where t: "torrent_file (Some (Some src)) = Inr t" "info_hash (peer_side s) = info_hash_byte t"
      "handshake (peer_side s) = compute_handshake (info_hash_byte t)"
      "identity (tracker_side s) = (curl_escape (byte_stringify_hash (info_hash_byte t)), int (get_listening_port (listener s)))"
    using engine_reachable_inv [OF assms] by (auto simp: torrent_facts_def)
  have "torrent_of_source src = Inr t" using t(1) by (simp add: torrent_file_def)
  then have "length (info_hash_byte t) = 20" by (rule torrent_of_source_ok) simp
  then have "handshake (peer_side s) = [19] @ map of_char protocol_string @ reserved_bytes @ info_hash_byte t @ map of_char client_id"
    using compute_handshake_eq t(3) by simp
  moreover have "\<exists>rest. get_request_params (tracker_context (tracker_side s)) = ''info_hash='' @ curl_escape (byte_stringify_hash (info_hash_byte t))
        @ ''&peer_id='' @ client_id @ ''&port='' @ int_to_string (int (get_listening_port (listener s))) @ ''&uploaded='' @ rest"
    using t(4) by (simp add: get_request_params_def make_param_def client_id_def butlast_append identity_def Let_def)
  ultimately show ?thesis using t(1,2) by blast
qed

text \<open>C8: an announce in full: when the transfer of a request ends well in any state of the program and the
  tracker has answered with an interval and a compact list of peers, then the handler of the trackers
  queues the addresses, as far as they fit into the hundred places, and wakes the connection manager,
  whose handler empties the queue into the cache: it holds what it knew before, what was still
  queued, and the addresses of the answer, each with the four bytes and the port of the wire, in that
  order, and keeps the last two hundred; the tracker waits for the intervals it asked for.\<close>

theorem announce_reaches_cache:
  assumes "inet_pton_ok inet_pton" and "engine_reachable inet_pton curl_escape s" and "context_active (tracker_context (tracker_side s))"
    and "done_message msg" and "result_ok msg" and "http_res_code msg = 200" and "easy_handle msg \<in> set (multi (protocol (tracker_side s)))"
    and "tracker_connections (tracker_side s) (easy_handle msg) = Some t" and "compact_reply (body (user_space t)) n mn es"
  shows "\<exists>s1 s2 u. engine_handle inet_pton (Tracker_thread (Tracker_message msg)) s = Inr s1
    \<and> engine_handle inet_pton (Peer_thread Drain) s1 = Inr s2 \<and> engine_reachable inet_pton curl_escape s2
    \<and> (let queued = discovered (peer_side s);
           known = elements (discovery_cache (peer_side s)) @ queued @ take (100 - length queued) (map v4_contact es)
       in discovered (peer_side s2) = [] \<and> elements (discovery_cache (peer_side s2)) = drop (length known - 200) known)
    \<and> tracker_connections (tracker_side s2) (easy_handle msg) = Some u \<and> waits n mn u
    \<and> easy_handle msg \<in> set (manager_space (tracker_side s2))"
proof -
  let ?c = "peer_side s" and ?m = "tracker_side s" and ?k = "easy_handle msg"
  have inv: "engine_inv s" by (rule engine_reachable_inv [OF assms(1,2), THEN conjunct1])
  then have s: "sound ?m" "discoveries ?m = discovered ?c" "length (discoveries ?m) \<le> 100" "discovered ?c \<noteq> [] \<longrightarrow> consumer_pending ?m"
    by (simp_all add: engine_inv_def discoveries_capacity_def)
  obtain m' u where handled: "tracker_enabled (Tracker_message msg) ?m" "tracker_messages inet_pton [msg] ?m = Inr m'"
    "tracker_connections m' ?k = Some u" "waits n mn u" "?k \<in> set (manager_space m')"
    "discoveries m' = discovered ?c @ take (100 - length (discovered ?c)) (map v4_contact es)"
    "consumer_pending m' = (consumer_pending ?m \<or> length (discovered ?c) < 100)"
    using reply_handled [OF s(1) assms(3) s(3) assms(4-9), of inet_pton] s(2) by auto
  let ?s1 = "s\<lparr>tracker_side := m', peer_side := ?c\<lparr>discovered := discoveries m'\<rparr>\<rparr>"
  have one: "engine_handle inet_pton (Tracker_thread (Tracker_message msg)) s = Inr ?s1" using handled(2) by simp
  then have r1: "engine_reachable inet_pton curl_escape ?s1"
    using engine_reachable.step [OF assms(2), of "Tracker_thread (Tracker_message msg)"] handled(1) by simp
  have "discovered ?c \<noteq> [] \<or> length (discovered ?c) < 100" by auto
  then have e: "engine_enabled (Peer_thread Drain) ?s1" using handled(7) s(4) by auto
  have "engine_inv ?s1" by (rule engine_reachable_inv [OF assms(1) r1, THEN conjunct1])
  from drain_step [OF this] obtain s2 where two: "engine_handle inet_pton (Peer_thread Drain) ?s1 = Inr s2"
    "tracker_side s2 = m'\<lparr>discoveries := [], consumer_pending := False\<rparr>" "discovered (peer_side s2) = []"
    "let known = elements (discovery_cache ?c) @ discoveries m'
     in elements (discovery_cache (peer_side s2)) = drop (length known - 200) known"
    by auto
  have "engine_reachable inet_pton curl_escape s2" by (rule engine_reachable.step [OF r1 e two(1)])
  then show ?thesis using one two handled(3-6)
    by (intro exI [of _ ?s1] exI [of _ s2] exI [of _ u]) (simp add: Let_def del: engine_handle.simps)
qed

section \<open>Examples\<close>

definition example_file :: string where
  "example_file = ''d8:announce10:http://t/a4:infod6:lengthi10e4:name1:a12:piece lengthi10e6:pieces20:AAAAAAAAAAAAAAAAAAAAee''"

definition example_server :: server_answers where
  "example_server = \<lparr>socket6_answer = Inr 3, socket4_answer = Inr 3, v6only_answer = Inr (), bind_answers = [Inr ()],
     sockname_answer = Inr 0xE11A, listen_answer = Inr ()\<rparr>"

definition example_listener :: tcp_server_context where
  "example_listener = \<lparr>server_socket = 3, server_store = zero_store\<lparr>sa_family := AF_INET6, sa_port := 0xE11A\<rparr>, store_len = 28,
     ipv4_support = True, port = 6881\<rparr>"

definition example_engine :: "byte list \<Rightarrow> tracker_manager \<Rightarrow> engine" where
  "example_engine h m = \<lparr>tracker_side = m, listener = example_listener, peer_side = new_manager h example_kernel\<rparr>"

lemma example_listens: "initialize_server_socket example_server new_server_context = Inr example_listener"
  by (simp add: initialize_server_socket_def ipv6_default_server_sockstore_def example_server_def new_server_context_def
    example_listener_def zero_store_def Let_def bind_loop.simps ntohs_def)

lemma example_engine: "\<exists>h. length h = 20 \<and> new_engine example_server example_kernel (\<lambda>_. ''%12'') (Some (Some example_file))
  = Inr (example_engine h example_constructed)"
proof -
  let ?s = "\<lambda>a b. \<lparr>stat_start = a, stat_size = b\<rparr>"
  let ?info = "[(''length'', Data (Integer 10) (?s 39 4)), (''name'', Data (String ''a'') (?s 49 3)),
    (''piece length'', Data (Integer 10) (?s 67 4)), (''pieces'', Data (String ''AAAAAAAAAAAAAAAAAAAA'') (?s 79 23))]"
  let ?d = "[(''announce'', Data (String ''http://t/a'') (?s 11 13)), (''info'', Data (Dictionary ?info) (?s 30 73))]"
  have "decode_input example_file = Some (Data (Dictionary ?d) (?s 0 104))" unfolding example_file_def by code_simp
  then obtain t where t: "torrent_file (Some (Some example_file)) = Inr t" "transcibe t = ?d" "download_size t = 10"
    by (simp add: torrent_file_def torrent_of_source_def ben_find_def Let_def parse_transcription_def
        info_map_def deref_def ben_contains_def parse_files_def parse_pieces_def pieces_def get_piece_length_def ceil_div_def sz_of_int_def)
  have "new_tracker_manager (\<lambda>_. ''%12'') t 6881 = Inr example_constructed"
    by (simp add: new_tracker_manager_def get_tracker_urls_def t(2,3) example_constructed_def example_idle_def get_hostname_def position_or_npos_def
      substr_def is_http_def set_tracker_def ben_find_def sz_of_int_def sz_modulus_def new_tracker_def new_announce_list_def Let_def)
  then have "new_engine example_server example_kernel (\<lambda>_. ''%12'') (Some (Some example_file))
      = Inr (example_engine (info_hash_byte t) example_constructed)"
    using t(1) by (simp add: new_engine_def new_peer_manager_def example_listens example_engine_def get_listening_port_def example_listener_def)
  moreover have "torrent_of_source example_file = Inr t" using t(1) by (simp add: torrent_file_def)
  then have "length (info_hash_byte t) = 20" by (rule torrent_of_source_ok) simp
  ultimately show ?thesis by blast
qed

lemma example_pton: "inet_pton_ok (\<lambda>_ _. None)"
  by (simp add: inet_pton_ok_def)

text \<open>The trackers' example is one of the program.\<close>

lemma example_step:
  assumes "engine_reachable (\<lambda>_ _. None) f (example_engine h m)" and "tracker_enabled e m" and "tracker_handle (\<lambda>_ _. None) e m = Inr m'"
    and "discoveries m' = []"
  shows "engine_reachable (\<lambda>_ _. None) f (example_engine h m')"
proof -
  have "engine_handle (\<lambda>_ _. None) (Tracker_thread e) (example_engine h m) = Inr (example_engine h m')"
    using assms(3,4) by (simp add: example_engine_def new_manager_def)
  then show ?thesis using engine_reachable.step [OF assms(1), of "Tracker_thread e"] assms(2) by (simp add: example_engine_def)
qed

lemma example_engine_reachable:
  "\<exists>h. length h = 20 \<and> engine_reachable (\<lambda>_ _. None) (\<lambda>_. ''%12'') (example_engine h (example_flight example_answer))"
proof -
  obtain h where h: "length h = 20" "new_engine example_server example_kernel (\<lambda>_. ''%12'') (Some (Some example_file))
    = Inr (example_engine h example_constructed)"
    using example_engine by blast
  have empty: "discoveries (example_flight x) = []" "discoveries example_started = []" for x
    by (simp_all add: example_flight_def example_fields Let_def)
  have e: "tracker_enabled (Tracker_timeout ''t'' True 40000) example_started"
    by (simp add: example_fields may_expire_def arm_timer_def new_ev_timer_def)
  have "engine_reachable (\<lambda>_ _. None) (\<lambda>_. ''%12'') (example_engine h example_constructed)"
    using engine_reachable.start [OF h(2), of "\<lambda>_ _. None"]
    by (simp add: example_kernel_def example_engine_def example_constructed_def example_idle_def urls_def)
  then have "engine_reachable (\<lambda>_ _. None) (\<lambda>_. ''%12'') (example_engine h (example_constructed\<lparr>event_set := start_mask, signal_pending := True\<rparr>))"
    by (rule example_step [OF _ _ example_request]) (simp_all add: example_constructed_def)
  then have "engine_reachable (\<lambda>_ _. None) (\<lambda>_. ''%12'') (example_engine h example_started)"
    by (rule example_step [OF _ example_may_start example_start empty(2)])
  then have "engine_reachable (\<lambda>_ _. None) (\<lambda>_. ''%12'') (example_engine h (example_flight []))"
    by (rule example_step [OF _ e example_timeout empty(1)])
  then have "engine_reachable (\<lambda>_ _. None) (\<lambda>_. ''%12'') (example_engine h (example_flight example_answer))"
    by (rule example_step [OF _ _ example_data empty(1)]) (simp add: example_flight_def Let_def)
  then show ?thesis using h(1) by blast
qed


abbreviation example_message :: curl_message where
  "example_message \<equiv> \<lparr>done_message = True, easy_handle = ''t'', result_ok = True, http_res_code = 200\<rparr>"

lemma example_in_flight:
  "context_active (tracker_context (example_flight example_answer))" "discoveries (example_flight example_answer) = []"
  "multi (protocol (example_flight example_answer)) = [''t'']"
  "\<exists>t. tracker_connections (example_flight example_answer) ''t'' = Some t \<and> body (user_space t) = example_answer"
  by (simp_all add: example_flight_def example_fields Let_def)

lemma example_queued:
  "\<exists>s. engine_reachable (\<lambda>_ _. None) (\<lambda>_. ''%12'') s \<and> discovered (peer_side s) = [v4_contact ([97, 98, 99, 100], 0x3231)]
    \<and> elements (discovery_cache (peer_side s)) = []"
proof -
  let ?m = "example_flight example_answer"
  obtain h where h: "engine_reachable (\<lambda>_ _. None) (\<lambda>_. ''%12'') (example_engine h ?m)" using example_engine_reachable by blast
  obtain t where t: "tracker_connections ?m ''t'' = Some t" "body (user_space t) = example_answer" using example_in_flight(4) by blast
  obtain m' where m': "tracker_enabled (Tracker_message example_message) ?m" "tracker_messages (\<lambda>_ _. None) [example_message] ?m = Inr m'"
      "discoveries m' = [v4_contact ([97, 98, 99, 100], 0x3231)]"
    using reply_handled [OF tracker_reachable_sound [OF example_flight_reachable] example_in_flight(1), of example_message t 60 "Some 30"
        "[([97, 98, 99, 100], 0x3231)]" "\<lambda>_ _. None"] t example_reply example_in_flight(2,3) by auto
  have "elements (discovery_cache (new_manager h example_kernel)) = []"
    using new_cache_valid [of cache_capacity new_contact] by (simp add: new_manager_def cache_capacity_def)
  then show ?thesis
    using engine_reachable.step [OF h, of "Tracker_thread (Tracker_message example_message)"] m'
    by (fastforce simp: example_engine_def)
qed

theorem queue_never_stranded_witness:
  "\<exists>s s'. length (discovered (peer_side s)) = 1 \<and> engine_enabled (Peer_thread Drain) s
    \<and> engine_handle (\<lambda>_ _. None) (Peer_thread Drain) s = Inr s' \<and> discovered (peer_side s') = []
    \<and> elements (discovery_cache (peer_side s')) = [v4_contact ([97, 98, 99, 100], 0x3231)]"
proof -
  obtain s where s: "engine_reachable (\<lambda>_ _. None) (\<lambda>_. ''%12'') s" "discovered (peer_side s) = [v4_contact ([97, 98, 99, 100], 0x3231)]"
    "elements (discovery_cache (peer_side s)) = []"
    using example_queued by blast
  from queue_never_stranded [OF example_pton s(1)] s(2,3) obtain s' where "engine_enabled (Peer_thread Drain) s"
    "engine_handle (\<lambda>_ _. None) (Peer_thread Drain) s = Inr s'" "discovered (peer_side s') = []"
    "elements (discovery_cache (peer_side s')) = [v4_contact ([97, 98, 99, 100], 0x3231)]"
    by (auto simp: Let_def simp del: engine_handle.simps engine_enabled.simps)
  then show ?thesis using s(2) by (intro exI [of _ s] exI [of _ s']) simp
qed

theorem announces_and_handshakes_agree_witness:
  "\<exists>h. length h = 20 \<and> handshake (new_manager h example_kernel) = [19] @ map of_char protocol_string @ reserved_bytes @ h @ map of_char client_id
    \<and> (\<exists>rest. get_request_params (tracker_context (example_flight example_answer)) = ''info_hash=%12&peer_id=FJ0001-x4Kn8mR2pL9sq&port=6881&uploaded='' @ rest)"
proof -
  obtain h where h: "length h = 20" "engine_reachable (\<lambda>_ _. None) (\<lambda>_. ''%12'') (example_engine h (example_flight example_answer))"
    using example_engine_reachable by blast
  have p: "int_to_string 6881 = ''6881''"
    by (simp add: int_to_string_def nat_to_string.simps digit_char_def char_of_eq_iff take_bit_eq_mod)
  show ?thesis
    using announces_and_handshakes_agree [OF example_pton h(2)] h(1) p
    by (auto simp: example_engine_def example_listener_def get_listening_port_def client_id_def new_manager_def intro!: exI [of _ h])
qed

theorem announce_reaches_cache_witness:
  "\<exists>h s1 s2. engine_handle (\<lambda>_ _. None) (Tracker_thread (Tracker_message example_message)) (example_engine h (example_flight example_answer)) = Inr s1
    \<and> engine_handle (\<lambda>_ _. None) (Peer_thread Drain) s1 = Inr s2 \<and> discovered (peer_side s2) = []
    \<and> elements (discovery_cache (peer_side s2)) = [v4_contact ([97, 98, 99, 100], 0x3231)] \<and> ''t'' \<in> set (manager_space (tracker_side s2))"
proof -
  let ?m = "example_flight example_answer"
  obtain h where h: "engine_reachable (\<lambda>_ _. None) (\<lambda>_. ''%12'') (example_engine h ?m)" using example_engine_reachable by blast
  obtain t where t: "tracker_connections ?m ''t'' = Some t" "body (user_space t) = example_answer" using example_in_flight(4) by blast
  have c: "elements (discovery_cache (new_manager h example_kernel)) = []" "discovered (new_manager h example_kernel) = []"
    using new_cache_valid [of cache_capacity new_contact] by (simp_all add: new_manager_def cache_capacity_def)
  show ?thesis
    using announce_reaches_cache [OF example_pton h, of example_message t 60 "Some 30" "[([97, 98, 99, 100], 0x3231)]"]
      t example_reply example_in_flight c
    by (auto simp: example_engine_def Let_def simp del: engine_handle.simps)
qed

end
