(* ===== verification/TcpRingBuffer.thy ===== *)
theory TcpRingBuffer
  imports RingBuffer
begin

text \<open>
  \<^verbatim>\<open>src/Client/TCPRingBuffer(invalid).hpp\<close>: the byte buffer that \<open>io_ring_buffer\<close> superseded.  It keeps no
  count; equal positions mean empty or full according to the last action.  As long as no more is
  committed than was prepared it is the same channel as its replacement, which is shown by a
  simulation; unlike its replacement it does not check that.
\<close>

section \<open>The buffer\<close>

datatype ost = R | W

record tcp_buffer =
  prev_action :: ost
  tcp_read :: nat
  tcp_write :: nat
  tcp_bytes :: "byte list"

record tcp_prepare_t =
  tcp_iovecs :: "(nat \<times> nat) list"
  tcp_iovec_count :: nat
  sucessful :: bool

abbreviation tcp_capacity :: "tcp_buffer \<Rightarrow> nat" where
  "tcp_capacity b \<equiv> length (tcp_bytes b)"

definition new_tcp_buffer :: "byte list \<Rightarrow> tcp_buffer" where
  "new_tcp_buffer bytes = \<lparr>prev_action = R, tcp_read = 0, tcp_write = 0, tcp_bytes = bytes\<rparr>"

definition tcp_empty :: "tcp_buffer \<Rightarrow> bool" where
  "tcp_empty b \<longleftrightarrow> prev_action b = R \<and> tcp_read b = tcp_write b"

definition tcp_full :: "tcp_buffer \<Rightarrow> bool" where
  "tcp_full b \<longleftrightarrow> prev_action b = W \<and> tcp_read b = tcp_write b"

definition tcp_size :: "tcp_buffer \<Rightarrow> nat" where
  "tcp_size b = (if tcp_read b < tcp_write b then tcp_write b - tcp_read b else tcp_capacity b - tcp_read b + tcp_write b)"

definition tcp_r_available :: "tcp_buffer \<Rightarrow> nat" where
  "tcp_r_available b = (if tcp_empty b then 0 else if tcp_full b then tcp_capacity b else tcp_size b)"

definition tcp_w_available :: "tcp_buffer \<Rightarrow> nat" where
  "tcp_w_available b = (if tcp_full b then 0 else if tcp_empty b then tcp_capacity b else tcp_capacity b - tcp_size b)"

definition tcp_prepare_read :: "tcp_buffer \<Rightarrow> tcp_prepare_t" where
  "tcp_prepare_read b =
     (let available = tcp_r_available b
      in if tcp_read b < tcp_write b \<or> available = 0
         then \<lparr>tcp_iovecs = [(tcp_read b, available), (0, 0)], tcp_iovec_count = 1, sucessful = (available \<noteq> 0)\<rparr>
         else \<lparr>tcp_iovecs = [(tcp_read b, tcp_capacity b - tcp_read b), (0, tcp_write b)], tcp_iovec_count = 2, sucessful = True\<rparr>)"

definition tcp_prepare_write :: "tcp_buffer \<Rightarrow> tcp_prepare_t" where
  "tcp_prepare_write b =
     (let available = tcp_w_available b
      in if tcp_write b < tcp_read b \<or> available = 0
         then \<lparr>tcp_iovecs = [(tcp_write b, available), (0, 0)], tcp_iovec_count = 1, sucessful = (available \<noteq> 0)\<rparr>
         else \<lparr>tcp_iovecs = [(tcp_write b, tcp_capacity b - tcp_write b), (0, tcp_read b)], tcp_iovec_count = 2, sucessful = True\<rparr>)"

definition tcp_prepared_bytes :: "tcp_prepare_t \<Rightarrow> nat" where
  "tcp_prepared_bytes p = snd (tcp_iovecs p ! 0) + snd (tcp_iovecs p ! 1)"

definition tcp_commit_read :: "nat \<Rightarrow> tcp_buffer \<Rightarrow> tcp_buffer" where
  "tcp_commit_read bytes b =
     (if bytes = 0 then b else b\<lparr>tcp_read := ring_mask (tcp_capacity b) (tcp_read b + bytes), prev_action := R\<rparr>)"

definition tcp_commit_write :: "nat \<Rightarrow> tcp_buffer \<Rightarrow> tcp_buffer" where
  "tcp_commit_write bytes b =
     (if bytes = 0 then b else b\<lparr>tcp_write := ring_mask (tcp_capacity b) (tcp_write b + bytes), prev_action := W\<rparr>)"

definition tcp_reset :: "tcp_buffer \<Rightarrow> tcp_buffer" where
  "tcp_reset b = b\<lparr>prev_action := R, tcp_read := 0, tcp_write := 0\<rparr>"

text \<open>As with the replacement: \<open>readv\<close> into the prepared regions, then the commit.\<close>

definition tcp_receive :: "byte list \<Rightarrow> tcp_buffer \<Rightarrow> tcp_buffer" where
  "tcp_receive bytes b =
     tcp_commit_write (length bytes) (b\<lparr>tcp_bytes := scatter (tcp_iovecs (tcp_prepare_write b)) bytes (tcp_bytes b)\<rparr>)"

section \<open>The simulation\<close>

definition tcp_valid :: "tcp_buffer \<Rightarrow> bool" where
  "tcp_valid b \<longleftrightarrow> tcp_read b < tcp_capacity b \<and> tcp_write b < tcp_capacity b"

definition ring_of :: "tcp_buffer \<Rightarrow> io_ring_buffer" where
  "ring_of b = \<lparr>read_pos = tcp_read b, write_pos = tcp_write b, readable = tcp_r_available b, buffer = tcp_bytes b\<rparr>"

lemma ring_of_simps [simp]:
  "read_pos (ring_of b) = tcp_read b" "write_pos (ring_of b) = tcp_write b" "readable (ring_of b) = tcp_r_available b"
  "buffer (ring_of b) = tcp_bytes b"
  by (simp_all add: ring_of_def)

lemmas tcp_defs = tcp_r_available_def tcp_w_available_def tcp_empty_def tcp_full_def tcp_size_def

lemma ring_of_valid: "tcp_valid b \<Longrightarrow> ring_valid (ring_of b)"
  by (cases "prev_action b") (auto simp: tcp_valid_def ring_valid_def tcp_defs mod_if)

lemma ring_of_room: "tcp_valid b \<Longrightarrow> w_available (ring_of b) = tcp_w_available b"
  by (cases "prev_action b") (auto simp: tcp_valid_def w_available_def tcp_defs)

lemma tcp_regions:
  assumes "tcp_valid b"
  shows "tcp_r_available b \<noteq> 0 \<Longrightarrow> tcp_iovecs (tcp_prepare_read b) = iovec_array (prepare_read (ring_of b))"
    and "tcp_w_available b \<noteq> 0 \<Longrightarrow> tcp_iovecs (tcp_prepare_write b) = iovec_array (prepare_write (ring_of b))"
  using assms
  by (cases "prev_action b"; auto simp: tcp_valid_def tcp_prepare_read_def tcp_prepare_write_def prepare_read_def prepare_write_def make_prepare_def
      ring_empty_def ring_full_def w_available_def tcp_defs Let_def split: if_splits)+

lemma wrap_once: "r < N \<Longrightarrow> n \<le> N \<Longrightarrow> ring_mask N (r + n) = (if r + n < N then r + n else r + n - N)"
  by (auto simp: ring_mask_mod le_mod_geq)

lemma commit_read_simulates:
  assumes "tcp_valid b" and "n \<le> tcp_r_available b"
  shows "tcp_valid (tcp_commit_read n b) \<and> commit_read n (ring_of b) = Inr (ring_of (tcp_commit_read n b))"
proof (cases "n = 0")
  case False
  have "tcp_r_available b \<le> tcp_capacity b" using ring_of_valid [OF assms(1)] by (simp add: ring_valid_def)
  then have w: "ring_mask (tcp_capacity b) (tcp_read b + n) =
      (if tcp_read b + n < tcp_capacity b then tcp_read b + n else tcp_read b + n - tcp_capacity b)"
    using assms by (intro wrap_once) (simp_all add: tcp_valid_def)
  have "tcp_r_available (tcp_commit_read n b) = tcp_r_available b - n" "tcp_valid (tcp_commit_read n b)"
    using assms False unfolding tcp_commit_read_def tcp_valid_def
    by (cases "prev_action b"; auto simp: w tcp_defs split: if_splits)+
  then show ?thesis using False assms(2)
    by (simp add: commit_read_def r_available_def tcp_commit_read_def ring_of_def)
qed (use assms in \<open>simp add: tcp_commit_read_def commit_read_def\<close>)

lemma commit_write_simulates:
  assumes "tcp_valid b" and "n \<le> tcp_w_available b"
  shows "tcp_valid (tcp_commit_write n b) \<and> commit_write n (ring_of b) = Inr (ring_of (tcp_commit_write n b))"
proof (cases "n = 0")
  case False
  have "tcp_w_available b \<le> tcp_capacity b" using ring_of_room [OF assms(1)] by (simp add: w_available_def)
  then have w: "ring_mask (tcp_capacity b) (tcp_write b + n) =
      (if tcp_write b + n < tcp_capacity b then tcp_write b + n else tcp_write b + n - tcp_capacity b)"
    using assms by (intro wrap_once) (simp_all add: tcp_valid_def)
  have "tcp_r_available (tcp_commit_write n b) = tcp_r_available b + n" "tcp_valid (tcp_commit_write n b)"
    using assms False unfolding tcp_commit_write_def tcp_valid_def
    by (cases "prev_action b"; auto simp: w tcp_defs split: if_splits)+
  then show ?thesis using False assms(2) ring_of_room [OF assms(1)]
    by (simp add: commit_write_def tcp_commit_write_def ring_of_def)
qed (use assms in \<open>simp add: tcp_commit_write_def commit_write_def\<close>)

lemma receive_simulates:
  assumes "tcp_valid b" and "length bytes \<le> tcp_w_available b"
  shows "tcp_valid (tcp_receive bytes b) \<and> ring_receive bytes (ring_of b) = Inr (ring_of (tcp_receive bytes b))"
proof -
  let ?b = "b\<lparr>tcp_bytes := scatter (tcp_iovecs (tcp_prepare_write b)) bytes (tcp_bytes b)\<rparr>"
  have scatter: "scatter (tcp_iovecs (tcp_prepare_write b)) bytes (tcp_bytes b) = scatter (iovec_array (prepare_write (ring_of b))) bytes (tcp_bytes b)"
  proof (cases "bytes = []")
    case False
    then have "0 < length bytes" by simp
    then have "tcp_w_available b \<noteq> 0" using assms(2) by linarith
    then show ?thesis using tcp_regions(2) [OF assms(1)] by simp
  next
    case True
    have none: "scatter iovs [] buf = buf" for iovs buf
      by (induction iovs arbitrary: buf) (auto simp: write_at_def)
    show ?thesis by (simp add: True none)
  qed
  also have "\<dots> = ring_store (tcp_bytes b) (tcp_write b) bytes"
    using scatter_store [OF ring_of_valid [OF assms(1)]] assms(2) ring_of_room [OF assms(1)] by simp
  finally have len: "tcp_capacity ?b = tcp_capacity b" by simp
  then have v: "tcp_valid ?b" "tcp_w_available ?b = tcp_w_available b" "tcp_r_available ?b = tcp_r_available b"
    using assms(1) by (simp_all add: tcp_valid_def tcp_defs)
  have "ring_of ?b = (ring_of b)\<lparr>buffer := scatter (iovec_array (prepare_write (ring_of b))) bytes (tcp_bytes b)\<rparr>"
    using v(3) scatter by (simp add: ring_of_def)
  then show ?thesis using commit_write_simulates [OF v(1), of "length bytes"] v(2) assms(2)
    by (simp add: tcp_receive_def ring_receive_def)
qed

section \<open>The same channel\<close>

definition tcp_contents :: "tcp_buffer \<Rightarrow> byte list" where
  "tcp_contents b = gather (tcp_iovecs (tcp_prepare_read b)) (tcp_bytes b)"

lemma tcp_contents_eq: "tcp_valid b \<Longrightarrow> tcp_contents b = contents (ring_of b)"
proof (cases "tcp_r_available b = 0")
  case True
  assume "tcp_valid b"
  have "contents (ring_of b) = []" using True by (simp add: contents_def)
  then show ?thesis using True by (simp add: tcp_contents_def tcp_prepare_read_def gather_def subspan_def Let_def)
next
  case False
  assume v: "tcp_valid b"
  show ?thesis using tcp_regions(1) [OF v False] gather_contents [OF ring_of_valid [OF v]] by (simp add: tcp_contents_def)
qed

interpretation tcp: fifo_channel tcp_valid tcp_contents tcp_w_available "\<lambda>bytes b. Inr (tcp_receive bytes b)" "\<lambda>n b. Inr (tcp_commit_read n b)"
proof unfold_locales
  fix b and xs :: "byte list" assume v: "tcp_valid b" and fit: "length xs \<le> tcp_w_available b"
  show "\<exists>b'. Inr (tcp_receive xs b) = (Inr b' :: fault + tcp_buffer) \<and> tcp_valid b' \<and> tcp_contents b' = tcp_contents b @ xs"
    using receive_simulates [OF v fit] ring_receive_contents [OF ring_of_valid [OF v], of xs] ring_of_room [OF v] fit tcp_contents_eq v by auto
next
  fix b n assume v: "tcp_valid b" and n: "n \<le> length (tcp_contents b)"
  have "n \<le> tcp_r_available b" using n tcp_contents_eq [OF v] by simp
  then show "\<exists>b'. Inr (tcp_commit_read n b) = (Inr b' :: fault + tcp_buffer) \<and> tcp_valid b' \<and> tcp_contents b' = drop n (tcp_contents b)"
    using commit_read_simulates [OF v] commit_read_contents [OF ring_of_valid [OF v], of n] tcp_contents_eq v by (auto simp: r_available_def)
qed

lemma run_simulates:
  "tcp_valid b \<Longrightarrow>
   run_channel contents w_available ring_receive commit_read ops (ring_of b) =
     map_sum id (\<lambda>(sent, received, b'). (sent, received, ring_of b'))
       (run_channel tcp_contents tcp_w_available (\<lambda>bytes b. Inr (tcp_receive bytes b)) (\<lambda>n b. Inr (tcp_commit_read n b)) ops b)"
proof (induction ops arbitrary: b)
  case (Cons op ops)
  show ?case
  proof (cases op)
    case (Send xs)
    have "ring_receive (take (tcp_w_available b) xs) (ring_of b) = Inr (ring_of (tcp_receive (take (tcp_w_available b) xs) b))"
      "tcp_valid (tcp_receive (take (tcp_w_available b) xs) b)"
      using receive_simulates [OF Cons.prems, of "take (tcp_w_available b) xs"] by simp_all
    then show ?thesis using Cons.IH Send
      by (simp add: ring_of_room [OF Cons.prems] Let_def sum.map_comp comp_def split_beta)
  next
    case (Receive n)
    have "commit_read (min (tcp_r_available b) n) (ring_of b) = Inr (ring_of (tcp_commit_read (min (tcp_r_available b) n) b))"
      "tcp_valid (tcp_commit_read (min (tcp_r_available b) n) b)"
      using commit_read_simulates [OF Cons.prems, of "min (tcp_r_available b) n"] by simp_all
    then show ?thesis using Cons.IH Receive
      by (simp add: tcp_contents_eq [OF Cons.prems] Let_def sum.map_comp comp_def split_beta)
  qed
qed simp

text \<open>The superseded buffer and its replacement are the same channel: on any sequence of receptions
  and consumptions, each within what was prepared, both transfer the same bytes, without loss and in
  order, and stay in corresponding states, although the old one keeps no count of its bytes.\<close>

lemma tcp_buffer_is_ring_buffer:
  assumes "tcp_valid b"
  shows "\<exists>sent received b'.
    run_channel tcp_contents tcp_w_available (\<lambda>bytes b. Inr (tcp_receive bytes b)) (\<lambda>n b. Inr (tcp_commit_read n b)) ops b = Inr (sent, received, b')
    \<and> run_channel contents w_available ring_receive commit_read ops (ring_of b) = Inr (sent, received, ring_of b')
    \<and> tcp_valid b' \<and> tcp_contents b @ sent = received @ tcp_contents b'"
  using tcp.run_channel_fifo [OF assms, of ops] run_simulates [OF assms, of ops] by auto

text \<open>Committing more than was prepared goes unnoticed, and forgets what was there; the replacement stops.\<close>

lemma overcommit_unnoticed:
  assumes "tcp_valid b" and "0 < n" and "tcp_r_available b + n = tcp_capacity b + k" and "0 < k" and "k \<le> tcp_capacity b"
  shows "tcp_r_available (tcp_commit_write n b) = k \<and> commit_write n (ring_of b) = Inl Assertion_failed"
proof -
  let ?N = "tcp_capacity b"
  have v: "tcp_read b < ?N" "tcp_write b = (tcp_read b + tcp_r_available b) mod ?N" "tcp_r_available b \<le> ?N"
    using ring_of_valid [OF assms(1)] by (simp_all add: ring_valid_def)
  have "(tcp_write b + n) mod ?N = (tcp_read b + k + ?N) mod ?N"
    unfolding v(2) mod_add_left_eq using assms(3) by (simp add: add.assoc add.commute [of k])
  then have "ring_mask ?N (tcp_write b + n) = (tcp_read b + k) mod ?N" by (simp add: ring_mask_mod)
  also have "\<dots> = (if tcp_read b + k < ?N then tcp_read b + k else tcp_read b + k - ?N)"
    using wrap_once [OF v(1) assms(5)] by (simp add: ring_mask_mod)
  finally have w: "ring_mask ?N (tcp_write b + n) = (if tcp_read b + k < ?N then tcp_read b + k else tcp_read b + k - ?N)" .
  have "tcp_r_available (tcp_commit_write n b) = k"
    using v(1) assms(2,4,5) by (auto simp: tcp_commit_write_def w tcp_defs split: if_splits)
  moreover have "\<not> n \<le> w_available (ring_of b)" using assms(3,4) v(3) by (auto simp: w_available_def)
  ultimately show ?thesis using assms(2) by (simp add: commit_write_def)
qed

lemma tcp_reset_valid: "tcp_valid b \<Longrightarrow> tcp_valid (tcp_reset b) \<and> tcp_contents (tcp_reset b) = []"
  by (auto simp: tcp_valid_def tcp_reset_def tcp_contents_def tcp_prepare_read_def tcp_defs gather_def subspan_def)

end
