(* ===== verification/OldFileMapper.thy ===== *)
theory OldFileMapper
  imports FileManager
begin

text \<open>
  \<^verbatim>\<open>src/Client/old_file_mapper.cpp\<close>: the piece map that \<open>PieceMapper\<close> superseded.  It cuts the files into
  pieces in one pass over them, carrying the rest that a file leaves of a piece to the next file, where
  its replacement computes the parts of a piece on demand.  For a torrent of several files both
  describe the same bytes; for a single file the old one gives the last piece the full length.
\<close>

section \<open>The map\<close>

record file_range_t =
  range_file :: nat
  range_offset :: nat
  range_size :: nat

type_synonym piece_map_t = "file_range_t list list"

definition push_range :: "nat \<Rightarrow> file_range_t \<Rightarrow> piece_map_t \<Rightarrow> fault + piece_map_t" where
  "push_range piece r pm = (if piece < length pm then Inr (pm[piece := pm ! piece @ [r]]) else Inl Out_of_bounds_access)"

text \<open>The inner loop, over the whole pieces that are left in a file.\<close>

function whole_pieces :: "nat \<Rightarrow> nat \<Rightarrow> nat \<Rightarrow> nat \<Rightarrow> nat \<Rightarrow> piece_map_t \<Rightarrow> fault + (nat \<times> nat \<times> nat \<times> piece_map_t)" where
  "whole_pieces pl file_index file_byte_offset remaining_size current_piece pm =
     (if pl \<le> remaining_size then
        if current_piece < length pm then
          whole_pieces pl file_index (sz_add file_byte_offset pl) (remaining_size - pl) (current_piece + 1)
            (pm[current_piece := pm ! current_piece @ [\<lparr>range_file = file_index, range_offset = file_byte_offset, range_size = pl\<rparr>]])
        else Inl Out_of_bounds_access
      else Inr (file_byte_offset, remaining_size, current_piece, pm))"
  by pat_completeness auto
termination by (relation "measure (\<lambda>(pl, f, off, r, c, pm). length pm - c)") auto

declare whole_pieces.simps [simp del]

text \<open>The loop's end: whole pieces, and the rest that begins the next one.\<close>

definition cut_rest :: "nat \<Rightarrow> nat \<Rightarrow> nat \<times> nat \<times> nat \<times> nat \<times> piece_map_t \<Rightarrow> fault + (nat \<times> nat \<times> piece_map_t)" where
  "cut_rest pl file_index = (\<lambda>(file_byte_offset, remaining_size, current_piece, prev_piece_remainder, pm).
     bind_fault (whole_pieces pl file_index file_byte_offset remaining_size current_piece pm)
       (\<lambda>(file_byte_offset, remaining_size, current_piece, pm).
         if remaining_size \<noteq> 0 then
           bind_fault (push_range current_piece
               \<lparr>range_file = file_index, range_offset = file_byte_offset, range_size = remaining_size\<rparr> pm) (\<lambda>pm.
             Inr (current_piece,
               sz_sub (if prev_piece_remainder \<noteq> 0 then prev_piece_remainder else pl) remaining_size, pm))
         else Inr (current_piece, prev_piece_remainder, pm)))"

text \<open>What the body of the loop over the files does with one file: first the piece that the one before began.\<close>

definition cut_file :: "nat \<Rightarrow> nat \<Rightarrow> nat \<Rightarrow> nat \<times> nat \<times> piece_map_t \<Rightarrow> fault + (nat \<times> nat \<times> piece_map_t)" where
  "cut_file pl file_index file_size = (\<lambda>(current_piece, prev_piece_remainder, pm).
     let file_byte_offset = 0;
         remaining_size = file_size
     in bind_fault
          (if prev_piece_remainder \<noteq> 0 \<and> prev_piece_remainder \<le> remaining_size then
             bind_fault (push_range current_piece
                 \<lparr>range_file = file_index, range_offset = file_byte_offset, range_size = prev_piece_remainder\<rparr> pm) (\<lambda>pm.
               Inr (sz_add file_byte_offset prev_piece_remainder, remaining_size - prev_piece_remainder,
                 current_piece + 1, 0, pm))
           else Inr (file_byte_offset, remaining_size, current_piece, prev_piece_remainder, pm))
        (cut_rest pl file_index))"

fun cut_files :: "nat \<Rightarrow> data list \<Rightarrow> nat \<Rightarrow> nat \<times> nat \<times> piece_map_t \<Rightarrow> fault + piece_map_t" where
  "cut_files pl [] file_index (current_piece, prev_piece_remainder, pm) = Inr pm"
| "cut_files pl (file # fs) file_index s =
     bind_fault (get_as_dictionary file) (\<lambda>file_map.
     bind_fault (deref (ben_find ''length'' file_map)) (\<lambda>d.
     bind_fault (get_as_integer d) (\<lambda>n.
     bind_fault (deref (ben_find ''path'' file_map)) (\<lambda>d.
     bind_fault (get_as_list d) (\<lambda>_.
     bind_fault (cut_file pl file_index (sz_of_int n) s) (cut_files pl fs (file_index + 1)))))))"

definition create_piece_map :: "torrent \<Rightarrow> fault + piece_map_t" where
  "create_piece_map metainfo =
     bind_fault (get_piece_length metainfo) (\<lambda>n.
       let pm = replicate (piece_count metainfo) [];
           pl = sz_of_int n
       in if is_file metainfo then
            Inr (map (\<lambda>piece_idx. [\<lparr>range_file = 0, range_offset = sz_mul piece_idx pl, range_size = pl\<rparr>]) [0..<length pm])
          else
            bind_fault (files metainfo) (\<lambda>fo.
            bind_fault (case fo of None \<Rightarrow> Inl Bad_optional_access | Some fl \<Rightarrow> Inr fl) (\<lambda>fl.
              cut_files pl fl 0 (0, 0, pm))))"

section \<open>The pieces of the download\<close>

definition new_part :: "file_range_t \<Rightarrow> file_piece_t" where
  "new_part r = \<lparr>piece_file = range_file r, piece_offset = range_offset r, piece_size = range_size r\<rparr>"

definition named :: "file_range list \<Rightarrow> file_range_t list \<Rightarrow> nat list" where
  "named ranges rs = concat (map (\<lambda>r. part_bytes ranges (new_part r)) rs)"

text \<open>The map when the first \<open>n\<close> bytes of the download have been cut into pieces.\<close>

definition cut_up_to :: "nat \<Rightarrow> file_range list \<Rightarrow> nat \<Rightarrow> piece_map_t \<Rightarrow> bool" where
  "cut_up_to pl ranges n pm \<longleftrightarrow> (\<forall>i<length pm. named ranges (pm ! i) = [i * pl ..< min n (i * pl + pl)]
     \<and> list_all (\<lambda>r. part_inside ranges (new_part r)) (pm ! i))"

lemma cut_push:
  assumes pm: "cut_up_to pl ranges n pm" and n: "n = c * pl + k" "k < pl" "k + w \<le> pl" and c: "c < length pm" and "0 < w"
    and f: "f < length ranges" "start_byte (ranges ! f) + off = n" "n + w \<le> end_byte (ranges ! f)"
  shows "\<exists>pm'. push_range c \<lparr>range_file = f, range_offset = off, range_size = w\<rparr> pm = Inr pm' \<and> length pm' = length pm
    \<and> cut_up_to pl ranges (n + w) pm'"
proof -
  let ?r = "\<lparr>range_file = f, range_offset = off, range_size = w\<rparr>"
  have r: "part_bytes ranges (new_part ?r) = [n ..< n + w]" "part_inside ranges (new_part ?r)"
    using f \<open>0 < w\<close> by (simp_all add: part_bytes_def part_inside_def new_part_def)
  have other: "[i * pl ..< min n (i * pl + pl)] = [i * pl ..< min (n + w) (i * pl + pl)]" if "i \<noteq> c" for i
  proof (cases "i < c")
    case True
    then have "i * pl + pl \<le> c * pl" by (metis Suc_leI add.commute mult_Suc mult_le_mono1)
    then have "min n (i * pl + pl) = i * pl + pl" "min (n + w) (i * pl + pl) = i * pl + pl" using n(1) by simp_all
    then show ?thesis by simp
  next
    case False
    then have "c * pl + pl \<le> i * pl" using that by (metis Suc_leI add.commute linorder_neqE_nat mult_Suc mult_le_mono1)
    then show ?thesis using n by simp
  qed
  have same: "[c * pl ..< n] @ [n ..< n + w] = [c * pl ..< n + w]" using n(1) by (intro upt_append) simp_all
  have "cut_up_to pl ranges (n + w) (pm[c := pm ! c @ [?r]])"
    unfolding cut_up_to_def
  proof (intro allI impI)
    fix i assume i: "i < length (pm[c := pm ! c @ [?r]])"
    show "named ranges (pm[c := pm ! c @ [?r]] ! i) = [i * pl ..< min (n + w) (i * pl + pl)]
      \<and> list_all (\<lambda>r. part_inside ranges (new_part r)) (pm[c := pm ! c @ [?r]] ! i)"
    proof (cases "i = c")
      case True
      then show ?thesis using pm c r n same by (simp add: cut_up_to_def named_def min_def)
    next
      case False
      then show ?thesis using pm i other [OF False] by (simp add: cut_up_to_def)
    qed
  qed
  then show ?thesis using c by (simp add: push_range_def)
qed

lemma whole_pieces_cut:
  assumes pl: "0 < pl" and small: "end_byte (ranges ! f) < sz_modulus"
  shows "cut_up_to pl ranges n pm \<Longrightarrow> n = c * pl \<Longrightarrow> c + rem div pl \<le> length pm \<Longrightarrow> f < length ranges \<Longrightarrow>
    start_byte (ranges ! f) + off = n \<Longrightarrow> n + rem \<le> end_byte (ranges ! f) \<Longrightarrow>
    \<exists>pm'. whole_pieces pl f off rem c pm = Inr (off + rem div pl * pl, rem mod pl, c + rem div pl, pm')
      \<and> length pm' = length pm \<and> cut_up_to pl ranges (n + rem div pl * pl) pm'"
proof (induction "rem div pl" arbitrary: n pm c rem off)
  case 0
  then have "rem < pl" using pl by (simp add: div_eq_0_iff)
  then show ?case using 0 by (subst whole_pieces.simps) simp
next
  case (Suc q)
  have rem: "pl \<le> rem" using Suc.hyps(2) by (metis div_less nat.distinct(1) not_le)
  have q: "q = (rem - pl) div pl" using Suc.hyps(2) rem pl by (simp add: le_div_geq)
  have c: "c < length pm" using Suc.prems(3) Suc.hyps(2) by simp
  obtain pm1 where pm1: "push_range c \<lparr>range_file = f, range_offset = off, range_size = pl\<rparr> pm = Inr pm1" "length pm1 = length pm"
    "cut_up_to pl ranges (n + pl) pm1"
    using cut_push [OF Suc.prems(1), of c 0 pl f off] Suc.prems c pl rem by auto
  have off: "sz_add off pl = off + pl" using Suc.prems(5,6) rem small by (intro sz_add_id) linarith
  have step: "whole_pieces pl f off rem c pm = whole_pieces pl f (off + pl) (rem - pl) (c + 1) pm1"
    using rem c pm1(1) off by (subst whole_pieces.simps) (simp add: push_range_def)
  have eqs: "rem div pl = Suc q" "(rem - pl) div pl = q" "(rem - pl) mod pl = rem mod pl"
    using Suc.hyps(2) q rem by (simp_all add: le_mod_geq)
  have "\<exists>pm'. whole_pieces pl f (off + pl) (rem - pl) (c + 1) pm1 =
      Inr (off + pl + (rem - pl) div pl * pl, (rem - pl) mod pl, c + 1 + (rem - pl) div pl, pm')
      \<and> length pm' = length pm1 \<and> cut_up_to pl ranges (n + pl + (rem - pl) div pl * pl) pm'"
    using Suc.prems Suc.hyps(2) q rem pm1(2) by (intro Suc.hyps(1) q pm1(3)) simp_all
  then show ?case unfolding step eqs using pm1(2) by (simp add: add.assoc)
qed

text \<open>From the start of a piece, a file is cut to its end.\<close>

definition rest_of_piece :: "nat \<Rightarrow> nat \<Rightarrow> nat" where
  "rest_of_piece pl n = (if n mod pl = 0 then 0 else pl - n mod pl)"

definition cutting :: "nat \<Rightarrow> file_range list \<Rightarrow> nat \<Rightarrow> nat \<times> nat \<times> piece_map_t \<Rightarrow> bool" where
  "cutting pl ranges n s \<longleftrightarrow> (case s of (c, prev, pm) \<Rightarrow> c = n div pl \<and> prev = rest_of_piece pl n \<and> cut_up_to pl ranges n pm)"

lemma cut_rest_cut:
  assumes pl: "0 < pl" "pl < sz_modulus" and small: "end_byte (ranges ! f) < sz_modulus" and pm: "cut_up_to pl ranges n pm" "n = c * pl"
    and room: "n + rem \<le> length pm * pl" and f: "f < length ranges" "start_byte (ranges ! f) + off = n" "n + rem \<le> end_byte (ranges ! f)"
  shows "\<exists>s'. cut_rest pl f (off, rem, c, 0, pm) = Inr s' \<and> cutting pl ranges (n + rem) s' \<and> length (snd (snd s')) = length pm"
proof -
  let ?q = "rem div pl" and ?m = "rem mod pl"
  have rem: "rem = ?q * pl + ?m" and m: "?m < pl" using pl(1) by simp_all
  have at: "(n + rem) div pl = c + ?q" "(n + rem) mod pl = ?m" using pm(2) pl(1) by simp_all
  have "?q * pl \<le> rem" by simp
  then have "(c + ?q) * pl \<le> length pm * pl" using room pm(2) unfolding add_mult_distrib by linarith
  then have q: "c + ?q \<le> length pm" using pl(1) by simp
  obtain pm1 where pm1: "whole_pieces pl f off rem c pm = Inr (off + ?q * pl, ?m, c + ?q, pm1)" "length pm1 = length pm"
    "cut_up_to pl ranges (n + ?q * pl) pm1"
    using whole_pieces_cut [OF pl(1) small pm q f] by blast
  show ?thesis
  proof (cases "?m = 0")
    case True
    then have "n + ?q * pl = n + rem" using rem by simp
    then show ?thesis using True pm1 at
      by (simp add: cut_rest_def cutting_def rest_of_piece_def)
  next
    case False
    have "c + ?q < length pm"
    proof (rule ccontr)
      assume "\<not> c + ?q < length pm"
      then have "length pm * pl \<le> (c + ?q) * pl" by simp
      then show False using room pm(2) rem False by (simp add: add_mult_distrib)
    qed
    then obtain pm2 where pm2: "push_range (c + ?q) \<lparr>range_file = f, range_offset = off + ?q * pl, range_size = ?m\<rparr> pm1 = Inr pm2"
      "length pm2 = length pm1" "cut_up_to pl ranges (n + ?q * pl + ?m) pm2"
      using cut_push [OF pm1(3), of "c + ?q" 0 ?m f "off + ?q * pl"] pm1(2) pm(2) pl(1) m f False rem by (auto simp: add_mult_distrib)
    have "cut_up_to pl ranges (n + rem) pm2" using pm2(3) unfolding add.assoc rem [symmetric] .
    moreover have "sz_sub pl ?m = pl - ?m" using m pl(2) by (intro sz_sub_id) simp_all
    ultimately show ?thesis using False pm1 pm2 at
      by (simp add: cut_rest_def cutting_def rest_of_piece_def)
  qed
qed

lemma divmod_at: "k < pl \<Longrightarrow> n = c * pl + k \<Longrightarrow> n div pl = c \<and> n mod pl = (k :: nat)"
  by simp

lemma cut_file_cut:
  assumes pl: "0 < pl" "pl < sz_modulus" and small: "end_byte (ranges ! f) < sz_modulus" and s: "cutting pl ranges n (c, prev, pm)"
    and room: "n + z \<le> length pm * pl" and f: "f < length ranges" "start_byte (ranges ! f) = n" "n + z \<le> end_byte (ranges ! f)"
  shows "\<exists>s'. cut_file pl f z (c, prev, pm) = Inr s' \<and> cutting pl ranges (n + z) s' \<and> length (snd (snd s')) = length pm"
proof -
  let ?k = "n mod pl"
  have n: "n = c * pl + ?k" "?k < pl" "prev = rest_of_piece pl n" "cut_up_to pl ranges n pm" "c = n div pl"
    using s pl(1) by (simp_all add: cutting_def)
  consider (aligned) "prev = 0" "?k = 0" | (ends) "prev \<noteq> 0" "prev \<le> z" "?k + prev = pl" | (inside) "prev \<noteq> 0" "z < prev" "?k + prev = pl"
    using n(2,3) by (fastforce simp: rest_of_piece_def split: if_splits)
  then show ?thesis
  proof cases
    case aligned
    then show ?thesis
      using cut_rest_cut [OF pl small n(4), of c z 0] n(1) room f by (simp add: cut_file_def)
  next
    case ends
    have next_piece: "n + prev = (c + 1) * pl" using n(1) ends(3) by simp
    then have "(c + 1) * pl \<le> length pm * pl" using room ends(2) by linarith
    then have c: "c < length pm" using pl(1) by (metis Suc_eq_plus1 Suc_le_eq mult_le_cancel2)
    obtain pm1 where pm1: "push_range c \<lparr>range_file = f, range_offset = 0, range_size = prev\<rparr> pm = Inr pm1" "length pm1 = length pm"
      "cut_up_to pl ranges (n + prev) pm1"
      using cut_push [OF n(4,1,2) _ c, of prev f 0] ends f by auto
    have "sz_add 0 prev = prev" using ends(3) pl(2) by (simp add: sz_add_def)
    then show ?thesis
      using cut_rest_cut [OF pl small pm1(3) next_piece, of "z - prev" prev] pm1(1,2) ends(1,2) room f
      by (auto simp: cut_file_def)
  next
    case inside
    have whole: "whole_pieces pl f 0 z c pm = Inr (0, z, c, pm)"
      using inside by (subst whole_pieces.simps) simp
    show ?thesis
    proof (cases "z = 0")
      case True
      then show ?thesis using inside whole s by (simp add: cut_file_def cut_rest_def)
    next
      case False
      have c: "c < length pm"
      proof (rule ccontr)
        assume "\<not> c < length pm"
        then have "length pm * pl \<le> c * pl" by simp
        then show False using room n(1) False by linarith
      qed
      obtain pm1 where pm1: "push_range c \<lparr>range_file = f, range_offset = 0, range_size = z\<rparr> pm = Inr pm1" "length pm1 = length pm"
        "cut_up_to pl ranges (n + z) pm1"
        using cut_push [OF n(4,1,2) _ c, of z f 0] inside False f by auto
      have k: "?k + z < pl" using inside by linarith
      have "n + z = c * pl + (?k + z)" using n(1) by linarith
      then have at: "(n + z) div pl = c" "(n + z) mod pl = ?k + z" using divmod_at [OF k, of "n + z" c] by simp_all
      have "sz_sub prev z = prev - z" using inside pl(2) by (intro sz_sub_id) simp_all
      moreover have "prev - z = pl - (?k + z)" using inside by linarith
      ultimately show ?thesis using inside False whole pm1 at
        by (simp add: cut_file_def cut_rest_def cutting_def rest_of_piece_def)
    qed
  qed
qed

lemma cut_files_cut:
  assumes pl: "0 < pl" "pl < sz_modulus"
  shows "map_files fs fl k start rs m = Inr (rs', m') \<Longrightarrow> cutting pl (ranges_from 0 sizes) (sum_list (take k sizes)) s \<Longrightarrow>
    map (\<lambda>f. sz_of_int (file_length f)) fl = drop k sizes \<Longrightarrow> sum_list sizes < sz_modulus \<Longrightarrow>
    sum_list sizes \<le> length (snd (snd s)) * pl \<Longrightarrow>
    \<exists>pm'. cut_files pl fl k s = Inr pm' \<and> length pm' = length (snd (snd s)) \<and> cut_up_to pl (ranges_from 0 sizes) (sum_list sizes) pm'"
proof (induction fl arbitrary: k start rs m s)
  case Nil
  then have "sum_list (take k sizes) = sum_list sizes" by simp
  then show ?case using Nil.prems(2) by (cases s) (auto simp: cutting_def)
next
  case (Cons d fl)
  let ?z = "sz_of_int (file_length d)"
  obtain c prev pm where s: "s = (c, prev, pm)" by (cases s)
  have k: "k < length sizes" "sizes ! k = ?z" "map (\<lambda>f. sz_of_int (file_length f)) fl = drop (Suc k) sizes"
    using Cons.prems(3) by (metis drop_all list.distinct(1) list.simps(9) not_le, metis Cons_nth_drop_Suc drop_all list.inject list.simps(9) list.distinct(1) not_le,
      metis Cons_nth_drop_Suc drop_all list.inject list.simps(9) list.distinct(1) not_le)
  have at: "sum_list (take (Suc k) sizes) = sum_list (take k sizes) + ?z" using k(1,2) by (simp add: take_Suc_conv_app_nth)
  have le: "sum_list (take k sizes) + ?z \<le> sum_list sizes" using sum_take_le [of "Suc k" sizes] at by simp
  have R: "k < length (ranges_from 0 sizes)" "ranges_from 0 sizes ! k = \<lparr>start_byte = sum_list (take k sizes), end_byte = sum_list (take k sizes) + ?z\<rparr>"
    using k(1) at by (simp_all add: nth_ranges_from)
  obtain s' where s': "cut_file pl k ?z s = Inr s'" "cutting pl (ranges_from 0 sizes) (sum_list (take (Suc k) sizes)) s'"
      "length (snd (snd s')) = length (snd (snd s))"
    using cut_file_cut [OF pl, of "ranges_from 0 sizes" k "sum_list (take k sizes)" c prev pm ?z] Cons.prems(2,4,5) s R le at by auto
  obtain rs1 m1 where rest: "map_files fs fl (Suc k) (sz_add start ?z) rs1 m1 = Inr (rs', m')"
    and read: "cut_files pl (d # fl) k s = bind_fault (cut_file pl k ?z s) (cut_files pl fl (Suc k))"
    using Cons.prems(1) by (auto simp: Let_def deref_def get_as_Inr file_length_def elim!: bind_faultE split: option.splits)
  show ?case using Cons.IH [OF rest s'(2) k(3) Cons.prems(4)] Cons.prems(5) s'(1,3) read by simp
qed


text \<open>Of a single file every piece has the full length, and the last one usually ends beyond the file.\<close>

lemma old_map_single_file:
  assumes "torrent_file (Some (Some src)) = Inr t" and "is_file t" and "get_piece_length t = Inr n" and "i < piece_count t"
  shows "\<exists>pm r. create_piece_map t = Inr pm \<and> pm ! i = [r] \<and> range_offset r = i * sz_of_int n \<and> range_size r = sz_of_int n
    \<and> (part_inside [\<lparr>start_byte = 0, end_byte = sz_of_int (download_size t)\<rparr>] (new_part r) \<longleftrightarrow> (i + 1) * sz_of_int n \<le> sz_of_int (download_size t))"
proof -
  let ?r = "\<lparr>range_file = 0, range_offset = i * sz_of_int n, range_size = sz_of_int n\<rparr>"
  have c: "ceil_div (sz_of_int (download_size t)) (sz_of_int n) = Inr (piece_count t)"
    using accepted_torrent_file [OF assms(1)] assms(3) by (auto simp: accepted_def)
  have "sz_of_int (download_size t) < sz_modulus" by (simp add: sz_of_int_def sz_modulus_def nat_less_iff)
  then have "i * sz_of_int n < sz_modulus" using ceil_div_covers [OF c, of i] assms(4) by linarith
  then obtain pm where "create_piece_map t = Inr pm" "pm ! i = [?r]"
    using assms(2-4) by (simp add: create_piece_map_def sz_mul_id Let_def)
  moreover have "0 < sz_of_int n" using c by (auto simp: ceil_div_def split: if_splits)
  then have "part_inside [\<lparr>start_byte = 0, end_byte = sz_of_int (download_size t)\<rparr>] (new_part ?r) \<longleftrightarrow> (i + 1) * sz_of_int n \<le> sz_of_int (download_size t)"
    by (simp add: new_part_def part_inside_def add.commute)
  ultimately show ?thesis by auto
qed


end
