(* ===== verification/Spec2Isabelle.thy ===== *)
theory Spec2Isabelle
  imports Prelude Interfaces Bencode DynamicBitset RingBuffer Messages SlotPool OverwritableCache
    SpscQueue Sha1 TorrentFile FileManager PeerManagerTypes PeerConnectionManager ManagerInvariant
    ManagerSafety ManagerBehaviour ManagerConnects Constants HttpHandler TrackerManager TrackerProperties Discovery
    TrackerSafety TrackerAnswers ManagerFrames Engine TcpRingBuffer OldFileMapper
begin

text \<open>
  A verification development for a pipelined, asynchronous BitTorrent engine in C++.

  \<^bold>\<open>The program.\<close>  A torrent file is decoded (\<^verbatim>\<open>src/Bencode\<close>), validated and hashed
  (\<^verbatim>\<open>src/Client/TorrentFile.cpp\<close>, \<^verbatim>\<open>sha1.hpp\<close>); its files are laid out below a download directory
  (\<^verbatim>\<open>FileManager.cpp\<close>).  Two threads then run event loops of their own.  The tracker manager
  (\<^verbatim>\<open>TrackerManager.cpp\<close>, \<^verbatim>\<open>Tracker.cpp\<close>, over \<^verbatim>\<open>HTTPHandler.cpp\<close> and \<open>libcurl\<close>) announces to the
  trackers and decodes their answers.  The addresses it finds go through a lock-free queue
  (\<^verbatim>\<open>spsc_queue.hpp\<close>) to the connection manager (\<^verbatim>\<open>PeerConnectionManager.cpp\<close>), which keeps the newest in a
  cache (\<^verbatim>\<open>overwritable_cache.hpp\<close>), connects to them or accepts their connections with objects of a
  fixed pool (\<^verbatim>\<open>slot_pool.hpp\<close>), and exchanges the handshake (\<^verbatim>\<open>bittorrent_messages.hpp\<close>) through
  ring buffers (\<^verbatim>\<open>io_ring_buffer.hpp\<close>).  A connection whose handshake is complete is handed on through
  another queue.  The transfer of pieces is not written yet in the source; its parts that exist,
  the bitfield of pieces (\<^verbatim>\<open>DynamicBitset.cpp\<close>) and the map from pieces to files, are modelled.

  \<^bold>\<open>Theories and sources\<close> (paths below \<^verbatim>\<open>src/Client\<close> unless given).
  \<^item> \<open>Prelude\<close>: machine types, the wrap-around arithmetic of \<open>std::size_t\<close> (\<open>sz_add\<close> and its like, on
    naturals below \<open>sz_modulus\<close>), the faults and their error monad \<open>bind_fault\<close>, copies into arrays,
    circular windows of lists, tables by key.
  \<^item> \<open>Interfaces\<close>: the contracts between components as locales (below).
  \<^item> \<open>Bencode\<close>: \<^verbatim>\<open>src/Bencode\<close>, Ben.hpp, Bendata.cpp, Bendecoders.cpp, Benencoder.cpp.  The decoders
    run over a source with a cursor as in the code; \<open>bencoded\<close> is the grammar, with positions.
  \<^item> \<open>DynamicBitset\<close>: DynamicBitset.hpp and .cpp, hwtonw.hpp, over 64-bit words.
  \<^item> \<open>RingBuffer\<close>: io_ring_buffer.hpp; an \<open>iovec\<close> is an offset and a length.
  \<^item> \<open>Messages\<close>: bittorrent_messages.hpp, the encoder that resumes and the decoder over two regions.
  \<^item> \<open>SlotPool\<close>, \<open>OverwritableCache\<close>: slot_pool.hpp, overwritable_cache.hpp; a pointer is an index.
  \<^item> \<open>SpscQueue\<close>: spsc_queue.hpp, the calls as functions and, for two threads, as a step relation of
    single loads, stores and element accesses.
  \<^item> \<open>Sha1\<close>: sha1.hpp and Hasher.hpp, on 32-bit words.
  \<^item> \<open>TorrentFile\<close>: TorrentFile.hpp and .cpp, utils.hpp.  \<open>FileManager\<close>: FileManager.hpp and .cpp.
  \<^item> \<open>Constants\<close>: Constants.hpp.  \<open>PeerManagerTypes\<close>: PeerManagerTypes.hpp and .cpp and
    ThreadMessageTypes.hpp: contacts, the non-blocking socket, watchers, connection and session.
  \<^item> \<open>PeerConnectionManager\<close>: PeerConnectionManager.hpp and .cpp and PeerCErrnoHandler.cpp: the record
    \<open>manager\<close> and every callback.  \<open>ManagerInvariant\<close>, \<open>ManagerSafety\<close>, \<open>ManagerBehaviour\<close> and
    \<open>ManagerConnects\<close> hold its invariant, its event loop (\<open>reachable\<close>), what single callbacks do, and
    an outgoing connection from the newest contact of the cache to the answer that decides it.
  \<^item> \<open>HttpHandler\<close>: HTTPHandler.hpp and .cpp.  \<open>TrackerManager\<close>: TrackerManager.hpp and .cpp and Tracker.cpp:
    the record \<open>tracker_manager\<close> and every handler.  \<open>TrackerProperties\<close>, \<open>TrackerSafety\<close> and \<open>TrackerAnswers\<close>
    hold what the handlers do, the invariant with the event loop (\<open>tracker_reachable\<close>), and a whole
    announce from the bytes of the answer to the next timer, alone or among the transfers that one call of
    \<open>libcurl\<close> drives (\<open>drive_sockt\<close>).
  \<^item> \<open>Discovery\<close>: the way of the addresses from an answer to the queue, and from the queue to the cache.
    \<open>ManagerFrames\<close>: what every callback of the connection manager leaves alone.
  \<^item> \<open>Engine\<close>: PeerManager.hpp and the program that \<^verbatim>\<open>src/Tests/TestPeerManager.cpp\<close> puts together: the record
    \<open>engine\<close> of the two managers around the queue that they share, its construction from the bytes of a
    torrent file (\<open>new_engine\<close>), and the steps of the two threads (\<open>engine_reachable\<close>).
  \<^item> \<open>TcpRingBuffer\<close>, \<open>OldFileMapper\<close>: TCPRingBuffer(invalid).hpp and old_file_mapper.cpp, which nothing
    includes any more, compared with \<open>RingBuffer\<close> and \<open>FileManager\<close>, which replaced them.

  \<^bold>\<open>How code becomes definitions.\<close>  A class is a record, a member function a function from the record
  to its successor, under its name in the source.  An assertion, an exception, an access out of
  bounds, a use of an erased object, a division by zero and a signed overflow are values of \<open>fault\<close>
  (left of a sum), so that every statement of the form \<open>f x = Inr y\<close> also says that none of them
  happens.  Loops are recursive functions with a termination proof.  Two carry fuel: \<open>fill_nonzero\<close>
  in \<open>Sha1\<close> takes at most 64 turns, the length of a block, and \<open>seek_http\<close> one more than the number of
  a tracker's addresses, which a property shows to be enough whenever there is an \<open>http\<close> address;
  without one the loop in the code does not end, and the model says \<open>Fuel_exhausted\<close>.
  What is outside of the repository is a parameter: the answers of system calls are lists in the
  record \<open>kernel\<close>, consumed by the calls; \<open>libcurl\<close> is the messages and bytes it delivers;
  \<open>inet_pton\<close>, \<open>curl_escape\<close>, the clock, the order of a hash table, and the queries to the file system
  are arguments.  Of \<open>libev\<close> a watcher is what its manual documents: active or not, descriptor, events, duration.

  \<^bold>\<open>Lemma groups.\<close>  For every component, an invariant of its representation and its preservation;
  the meaning of each operation on an abstract value (a set of bit indices, a list of bytes or
  elements, a set of live slots, a grammar, the padded message of the hash standard); and properties
  of whole runs.  The two managers have an invariant over all their connections or trackers, proved handler by
  handler, from which the safety, accounting and liveness properties follow by rule induction over
  the reachable states.  The composition rests on both: what the trackers' handlers do to the queue
  (\<open>advances\<close>) is an event that the connection manager's invariant covers, and neither side touches what
  the other one keeps, so that the two invariants hold together with that of the shared queue.

  \<^bold>\<open>Interfaces.\<close>  \<open>unique_index\<close> (\<open>try_emplace\<close> of the maps), \<open>fifo_channel\<close>, \<open>slot_allocator\<close> and
  \<open>drop_oldest_queue\<close> are interpreted in \<open>Bencode\<close>, \<open>RingBuffer\<close> (and \<open>TcpRingBuffer\<close>), \<open>SlotPool\<close> and \<open>OverwritableCache\<close> on the
  code's operations, and their clients rest on the interpretations.  \<open>space_loop\<close> (in \<open>TrackerProperties\<close>) is the contract of
  a loop over the tracker manager's vector whose body takes elements out of it; it is
  interpreted for the loops of the two announces on request and of the shutdown.

  \<^bold>\<open>What the step relations admit.\<close>  Timers and socket events may fire in any order that the
  watchers' state admits, which is more than \<open>libev\<close> does; the interruptions of the two queues' other
  ends, and of the event set's other writers, are steps or arguments.  The messages of one call of
  \<open>chk_finished\<close> are single steps; a property of \<open>TrackerAnswers\<close> shows that the transfers of one call come to
  the same.  In the composition a handler of either thread is one step, and so are its operations on
  the queue together with the notification: of handlers that overlap, \<open>SpscQueue\<close> shows that each single
  operation takes effect at once, and a notification that comes early or late only adds a run of the
  consumer that finds nothing or postpones the next one.  Where the code itself goes wrong, the guards \<open>enabled\<close> and
  \<open>tracker_enabled\<close> exclude the cause, and lemmas show what then happens:
  \<^item> the connection manager: a disconnect update of an established connection, and a known contact
    that connects again, each of which ends in an assertion or a counter below zero (\<open>ManagerBehaviour\<close>);
  \<^item> the tracker manager: an answer without usable peers, which loses its tracker; one that is not
    bencoded, which leaves a dangling pointer; a sixth round of failures, which reads beyond a table;
    and a start while a tracker of the time before a shutdown is not reset, which asserts (\<open>TrackerProperties\<close>).
    Answers with a field of the wrong type, which throw, are excluded too, and so are those whose minimum interval
    is not below the interval: the two timers then fire in the other order.

  \<^bold>\<open>Assumptions of the memory model.\<close>  Loads and stores of the queue are taken as sequentially
  consistent, the host as little-endian; the generations of slots do not wrap.

  \<^bold>\<open>Not modelled.\<close>  BTProtocol, UDPHandler and PeerTransferManager are empty or hold other
  objects; InitCurl initialises a library; Randomer reads random numbers; the classes of
  \<^verbatim>\<open>src/Errorhandlers\<close> only carry a text; the printers of addresses, connections and counters are
  output; the rest of \<^verbatim>\<open>src/Tests\<close> are drivers.  Setting options of \<open>libcurl\<close> and registering callbacks have no state in the model:
  the step relations are the table of the callbacks.
\<close>

end
